(* ===== verification/Prelude.thy ===== *)
theory Prelude
  imports Main "HOL-Library.Word" "HOL-Library.AList" "HOL-Library.Multiset"
    "HOL-Library.List_Lexorder" "HOL-Library.Char_ord"
begin

text \<open>
  What every component of the development shares: the parts of Go's language and
  standard library the sources use (\<open>strings.Split\<close>, \<open>strconv.Itoa\<close> and \<open>Atoi\<close>,
  \<open>sort.Slice\<close> and \<open>sort.SliceStable\<close>, the zero value of a missing map key), the
  lemmas about them, and the locale that states what a comparator handed to
  \<open>sort.Slice\<close> has to satisfy.

  Go strings are byte strings, and so is HOL's \<open>string\<close> (a list of 8-bit characters);
  \<open>HOL-Library.List_Lexorder\<close> and \<open>Char_ord\<close> make \<open><\<close> on it Go's bytewise order.
\<close>

named_theorems go_simps \<open>equations for the modelled library functions\<close>
named_theorems go_intros \<open>introduction rules for library invariants\<close>

section \<open>Lists\<close>

lemma distinct_map_filter_inj [go_intros]:
  "distinct (map f xs) \<Longrightarrow> distinct (map f (filter P xs))"
  by (induction xs) auto

lemma count_list_map_inj_on:
  "inj_on f (insert x (set xs)) \<Longrightarrow> count_list (map f xs) (f x) = count_list xs x"
  by (induction xs) (auto simp: inj_on_def)

lemma count_list_map_le: "count_list xs s \<le> count_list (map f xs) (f s)"
  by (induction xs) auto

lemma count_list_distinct: "distinct xs \<Longrightarrow> count_list xs x = (if x \<in> set xs then 1 else 0)"
  by (induction xs) auto

lemma fold_invariant_le:
  assumes "\<And>x s. x \<in> set xs \<Longrightarrow> P s \<Longrightarrow> P (f x s)" and "P s"
  shows "P (fold f xs s)"
  using assms by (induction xs arbitrary: s) auto

lemma length_filter_mono:
  "(\<And>x. x \<in> set xs \<Longrightarrow> P x \<Longrightarrow> Q x) \<Longrightarrow> length (filter P xs) \<le> length (filter Q xs)"
  by (induction xs) (auto simp: le_SucI)

lemma length_filter_strict:
  assumes "\<And>x. x \<in> set xs \<Longrightarrow> P x \<Longrightarrow> Q x" "x \<in> set xs" "Q x" "\<not> P x"
  shows "length (filter P xs) < length (filter Q xs)"
  using assms
proof (induction xs)
  case (Cons y ys)
  have "length (filter P ys) \<le> length (filter Q ys)"
    using Cons.prems(1) by (intro length_filter_mono) auto
  with Cons show ?case by (cases "x = y") (auto simp: less_Suc_eq_le)
qed simp

text \<open>A chain of checks, each of which may return an error, passes when all of them do.\<close>

lemma first_error [simp, go_simps]:
  "(case x of None \<Rightarrow> y | Some e \<Rightarrow> Some e) = None \<longleftrightarrow> x = None \<and> y = None"
  by (cases x) auto

section \<open>Go maps\<close>

text \<open>
  A Go map whose keys are iterated is an association list kept distinct by
  \<open>AList.update\<close> and \<open>AList.delete\<close>; a read of a missing key is the type's zero value.
\<close>

definition aget :: "'v \<Rightarrow> ('k \<times> 'v) list \<Rightarrow> 'k \<Rightarrow> 'v" where
  "aget z m k = (case map_of m k of None \<Rightarrow> z | Some v \<Rightarrow> v)"

lemma aget_Nil [simp]: "aget z [] k = z"
  by (simp add: aget_def)

lemma aget_update [simp]:
  "aget z (AList.update k v m) k' = (if k = k' then v else aget z m k')"
  by (simp add: aget_def update_conv')

lemma aget_delete [simp]:
  "aget z (AList.delete k m) k' = (if k = k' then z else aget z m k')"
  by (simp add: aget_def delete_conv')

lemma keys_update [simp]: "fst ` set (AList.update k v m) = insert k (fst ` set m)"
  by (simp add: dom_update)


section \<open>strings.Split and the join that undoes it\<close>

fun split_on :: "char \<Rightarrow> string \<Rightarrow> string list" where
  "split_on c [] = [[]]"
| "split_on c (x # xs) =
     (if x = c then [] # split_on c xs
      else (case split_on c xs of [] \<Rightarrow> [[x]] | p # ps \<Rightarrow> (x # p) # ps))"

fun join_with :: "char \<Rightarrow> string list \<Rightarrow> string" where
  "join_with c [] = []"
| "join_with c [p] = p"
| "join_with c (p # q # ps) = p @ c # join_with c (q # ps)"

lemma split_on_nonempty [simp]: "split_on c s \<noteq> []"
  by (induction s) (auto split: list.splits)

lemma join_split [simp, go_simps]: "join_with c (split_on c s) = s"
proof (induction s)
  case (Cons x s)
  then show ?case
    by (cases "split_on c s"; cases "tl (split_on c s)") auto
qed simp

lemma split_on_no_sep: "c \<notin> set p \<Longrightarrow> split_on c p = [p]"
  by (induction p) auto

lemma split_on_append_sep: "c \<notin> set p \<Longrightarrow> split_on c (p @ c # s) = p # split_on c s"
  by (induction p) auto

lemma split_join [go_simps]:
  "ps \<noteq> [] \<Longrightarrow> \<forall>p \<in> set ps. c \<notin> set p \<Longrightarrow> split_on c (join_with c ps) = ps"
  by (induction c ps rule: join_with.induct) (auto simp: split_on_no_sep split_on_append_sep)

lemma split_on_append: "split_on c (p @ c # s) = split_on c p @ split_on c s"
  by (induction p) (auto split: list.splits)

lemma last_split_on: "c \<notin> set s \<Longrightarrow> last (split_on c (p @ c # s)) = s"
  by (simp add: split_on_append split_on_no_sep)

lemma split_on_parts_no_sep: "p \<in> set (split_on c s) \<Longrightarrow> c \<notin> set p"
  by (induction s arbitrary: p) (auto split: if_splits list.splits)

lemma split_on_parts_subset: "p \<in> set (split_on c s) \<Longrightarrow> set p \<subseteq> set s"
proof (induction s arbitrary: p)
  case (Cons x s)
  then have "\<And>q. q \<in> set (split_on c s) \<Longrightarrow> set q \<subseteq> set s" by blast
  with Cons.prems show ?case
    by (cases "split_on c s") (fastforce split: if_splits)+
qed simp

section \<open>strconv: decimal numbers\<close>

definition digit :: "nat \<Rightarrow> char" where
  "digit d = ''0123456789'' ! d"

definition is_digit :: "char \<Rightarrow> bool" where
  "is_digit c \<longleftrightarrow> CHR ''0'' \<le> c \<and> c \<le> CHR ''9''"

definition digit_val :: "char \<Rightarrow> nat" where
  "digit_val c = of_char c - 48"

text \<open>\<open>strconv.Itoa\<close> on a number that is not negative.\<close>

fun itoa :: "nat \<Rightarrow> string" where
  "itoa n = (if n < 10 then [digit n] else itoa (n div 10) @ [digit (n mod 10)])"

declare itoa.simps [simp del]

definition digits_val :: "string \<Rightarrow> nat" where
  "digits_val s = fold (\<lambda>c a. a * 10 + digit_val c) s 0"

definition max_int :: int where "max_int = 9223372036854775807"

text \<open>
  \<open>strconv.Atoi\<close> for Go's 64-bit \<open>int\<close>: an optional sign, then at least one digit and
  nothing else, and \<open>None\<close> (the error) when the value does not fit.
\<close>

definition atoi :: "string \<Rightarrow> int option" where
  "atoi s =
     (let (neg, ds) = (case s of [] \<Rightarrow> (False, [])
                        | c # cs \<Rightarrow> if c = CHR ''-'' then (True, cs)
                                    else if c = CHR ''+'' then (False, cs) else (False, s));
          v = int (digits_val ds);
          i = (if neg then - v else v)
      in if ds = [] \<or> \<not> list_all is_digit ds then None
         else if - max_int - 1 \<le> i \<and> i \<le> max_int then Some i else None)"

text \<open>Go's \<open>int\<close> is a 64-bit two's complement integer; \<open>wrap_int\<close> is its addition's reading.\<close>

definition wrap_int :: "int \<Rightarrow> int" where
  "wrap_int i = (i + 2 ^ 63) mod 2 ^ 64 - 2 ^ 63"

definition itoa_int :: "int \<Rightarrow> string" where
  "itoa_int i = (if i < 0 then CHR ''-'' # itoa (nat (- i)) else itoa (nat i))"

lemma wrap_int_id [go_simps]: "- max_int - 1 \<le> i \<Longrightarrow> i \<le> max_int \<Longrightarrow> wrap_int i = i"
  by (simp add: wrap_int_def max_int_def)

lemma lt_10_cases: "(d::nat) < 10 \<Longrightarrow> d = 0 \<or> d = 1 \<or> d = 2 \<or> d = 3 \<or> d = 4 \<or> d = 5 \<or> d = 6 \<or> d = 7 \<or> d = 8 \<or> d = 9"
  by arith

lemma digit_val_digit [simp]: "d < 10 \<Longrightarrow> digit_val (digit d) = d"
  by (drule lt_10_cases) (auto simp: digit_val_def digit_def)

lemma is_digit_digit [simp]: "d < 10 \<Longrightarrow> is_digit (digit d)"
  by (drule lt_10_cases) (auto simp: is_digit_def digit_def)

lemma is_digit_of_char: "is_digit c \<longleftrightarrow> 48 \<le> (of_char c :: nat) \<and> (of_char c :: nat) \<le> 57"
  by (simp add: is_digit_def less_eq_char_def)

lemma digit_digit_val [simp]: "is_digit c \<Longrightarrow> digit (digit_val c) = c"
proof -
  assume "is_digit c"
  then have b: "48 \<le> (of_char c :: nat)" "(of_char c :: nat) \<le> 57"
    by (simp_all add: is_digit_of_char)
  then have "digit_val c < 10" by (simp add: digit_val_def)
  then have "of_char (digit (digit_val c)) = (of_char c :: nat)"
    using b digit_val_digit [of "digit_val c"] is_digit_digit [of "digit_val c"]
    unfolding digit_val_def [of c] digit_val_def [of "digit _"] is_digit_of_char by linarith
  then show ?thesis by (simp add: of_char_eq_iff)
qed

lemma digit_val_lt: "is_digit c \<Longrightarrow> digit_val c < 10"
  unfolding is_digit_of_char digit_val_def by linarith

lemma digits_val_snoc [simp]: "digits_val (s @ [c]) = digits_val s * 10 + digit_val c"
  by (simp add: digits_val_def)

lemma digits_val_Nil [simp]: "digits_val [] = 0"
  by (simp add: digits_val_def)

lemma itoa_nonempty [simp]: "itoa n \<noteq> []"
  by (subst itoa.simps) simp

lemma itoa_digits: "list_all is_digit (itoa n)"
proof (induction n rule: itoa.induct)
  case (1 n)
  then show ?case by (subst itoa.simps) simp
qed

lemma digits_val_itoa [simp]: "digits_val (itoa n) = n"
proof (induction n rule: itoa.induct)
  case (1 n)
  show ?case
  proof (cases "n < 10")
    case True
    then show ?thesis by (subst itoa.simps) (simp add: digits_val_def)
  next
    case False
    with "1.IH" show ?thesis by (subst itoa.simps) simp
  qed
qed

lemma itoa_inj [simp]: "itoa m = itoa n \<longleftrightarrow> m = n"
  by (metis digits_val_itoa)

lemma itoa_length: "n < 10 ^ length (itoa n)"
proof (induction n rule: itoa.induct)
  case (1 n)
  show ?case
  proof (cases "n < 10")
    case True
    then show ?thesis by (subst itoa.simps) simp
  next
    case False
    with "1.IH" have "n div 10 < 10 ^ length (itoa (n div 10))" by simp
    then have "n < 10 * 10 ^ length (itoa (n div 10))" by linarith
    with False show ?thesis by (subst itoa.simps) simp
  qed
qed

lemma itoa_length_bound: "length (itoa n) \<le> k \<Longrightarrow> n < 10 ^ k"
  using itoa_length [of n] power_increasing [of "length (itoa n)" k "10::nat"] by linarith

lemma digits_val_pos:
  "s \<noteq> [] \<Longrightarrow> list_all is_digit s \<Longrightarrow> hd s \<noteq> CHR ''0'' \<Longrightarrow> 0 < digits_val s"
proof (induction s rule: rev_induct)
  case (snoc c s)
  show ?case
  proof (cases "s = []")
    case True
    with snoc.prems have c: "is_digit c" "c \<noteq> CHR ''0''" by simp_all
    then have "of_char c \<noteq> (48 :: nat)"
      by (metis digit_val_def digit_digit_val diff_self_eq_0 digit_def nth_Cons_0)
    with c True show ?thesis by (auto simp: is_digit_of_char digits_val_def digit_val_def)
  qed (use snoc in auto)
qed simp

text \<open>A canonical decimal is the spelling \<open>Itoa\<close> gives its value, so it is the only one.\<close>

lemma itoa_digits_val:
  "s \<noteq> [] \<Longrightarrow> list_all is_digit s \<Longrightarrow> (1 < length s \<longrightarrow> hd s \<noteq> CHR ''0'') \<Longrightarrow> itoa (digits_val s) = s"
proof (induction s rule: rev_induct)
  case (snoc c s)
  have c: "is_digit c" using snoc.prems by simp
  show ?case
  proof (cases "s = []")
    case True
    with c show ?thesis
      by (subst itoa.simps) (simp add: digits_val_def digit_val_lt)
  next
    case False
    with snoc.prems have "0 < digits_val s" by (intro digits_val_pos) auto
    moreover from False snoc have "itoa (digits_val s) = s" by auto
    ultimately show ?thesis
      using c by (subst itoa.simps) (simp add: digit_val_lt)
  qed
qed simp

lemma is_digit_not_sign: "is_digit c \<Longrightarrow> c \<noteq> CHR ''-'' \<and> c \<noteq> CHR ''+''"
  by (auto simp: is_digit_def)

lemma atoi_digits:
  "s \<noteq> [] \<Longrightarrow> list_all is_digit s \<Longrightarrow>
   atoi s = (if int (digits_val s) \<le> max_int then Some (int (digits_val s)) else None)"
  using is_digit_not_sign [of "hd s"]
  by (cases s) (auto simp: atoi_def max_int_def)

lemma atoi_itoa [go_simps]: "int n \<le> max_int \<Longrightarrow> atoi (itoa n) = Some (int n)"
  by (simp add: atoi_digits itoa_digits)


text \<open>\<open>strconv.ParseUint\<close> in base 10 for 64 bits: digits only, and no more than fit.\<close>

definition parse_uint :: "string \<Rightarrow> 64 word option" where
  "parse_uint s =
     (if s \<noteq> [] \<and> list_all is_digit s \<and> digits_val s < 2 ^ 64 then Some (of_nat (digits_val s)) else None)"

lemma parse_uint_itoa [go_simps]: "parse_uint (itoa (unat w)) = Some w"
  using unsigned_less [where ?'a = nat, of w] by (simp add: parse_uint_def itoa_digits)


section \<open>sort.Slice and sort.SliceStable\<close>

text \<open>
  Go's sorts take a comparator. \<open>sort_by\<close> is a stable insertion sort, which is what
  \<open>sort.SliceStable\<close> promises; \<open>sort.Slice\<close> promises less about elements its comparator
  calls equal, and for the short lists of this program it is the same insertion sort.
\<close>

fun insort_by :: "('a \<Rightarrow> 'a \<Rightarrow> bool) \<Rightarrow> 'a \<Rightarrow> 'a list \<Rightarrow> 'a list" where
  "insort_by lt x [] = [x]"
| "insort_by lt x (y # ys) = (if lt y x then y # insort_by lt x ys else x # y # ys)"

definition sort_by :: "('a \<Rightarrow> 'a \<Rightarrow> bool) \<Rightarrow> 'a list \<Rightarrow> 'a list" where
  "sort_by lt xs = foldr (insort_by lt) xs []"

lemma sort_by_simps [simp]:
  "sort_by lt [] = []"
  "sort_by lt (x # xs) = insort_by lt x (sort_by lt xs)"
  by (simp_all add: sort_by_def)

lemma mset_insort_by [simp]: "mset (insort_by lt x xs) = add_mset x (mset xs)"
  by (induction xs) auto

lemma mset_sort_by [simp]: "mset (sort_by lt xs) = mset xs"
  by (induction xs) auto

lemma set_insort_by [simp]: "set (insort_by lt x xs) = insert x (set xs)"
  by (induction xs) auto

lemma set_sort_by [simp]: "set (sort_by lt xs) = set xs"
  by (metis mset_sort_by set_mset_mset)

lemma length_sort_by [simp]: "length (sort_by lt xs) = length xs"
  by (metis mset_sort_by size_mset)

lemma distinct_sort_by [simp]: "distinct (sort_by lt xs) = distinct xs"
  by (metis mset_eq_imp_distinct_iff mset_sort_by)

lemma distinct_map_sort_by [simp]: "distinct (map f (sort_by lt xs)) = distinct (map f xs)"
  by (metis mset_eq_imp_distinct_iff mset_map mset_sort_by)

lemma sort_by_Nil_iff [simp]: "sort_by lt xs = [] \<longleftrightarrow> xs = []"
  by (metis length_0_conv length_sort_by)

text \<open>
  What \<open>sort.Slice\<close> documents about its comparator: a strict weak order, here as
  asymmetry and the transitivity of "not less".
\<close>

locale comparator =
  fixes lt :: "'a \<Rightarrow> 'a \<Rightarrow> bool"
  assumes asym: "lt a b \<Longrightarrow> \<not> lt b a"
    and neg_trans: "\<not> lt a b \<Longrightarrow> \<not> lt b c \<Longrightarrow> \<not> lt a c"
begin

lemma irrefl: "\<not> lt a a"
  using asym by blast

lemma lt_trans: "lt a b \<Longrightarrow> lt b c \<Longrightarrow> lt a c"
  using asym neg_trans by blast

lemma sorted_insort_by:
  "sorted_wrt (\<lambda>a b. \<not> lt b a) xs \<Longrightarrow> sorted_wrt (\<lambda>a b. \<not> lt b a) (insort_by lt x xs)"
proof (induction xs)
  case (Cons y ys)
  show ?case
  proof (cases "lt y x")
    case True
    with Cons show ?thesis by (auto dest: asym)
  next
    case False
    then have "\<And>z. z \<in> set ys \<Longrightarrow> \<not> lt z x"
      using Cons.prems neg_trans by auto
    with Cons.prems False show ?thesis by auto
  qed
qed simp

lemma sorted_sort_by: "sorted_wrt (\<lambda>a b. \<not> lt b a) (sort_by lt xs)"
  by (induction xs) (simp_all add: sorted_insort_by)

text \<open>The sort is stable: elements the comparator ties keep the order they came in.\<close>

lemma insort_by_filter_tied:
  assumes P: "\<And>a b. P a \<Longrightarrow> P b \<Longrightarrow> \<not> lt a b"
  shows "filter P (insort_by lt x xs) = (if P x then x # filter P xs else filter P xs)"
proof (induction xs)
  case (Cons y ys)
  then show ?case using P by auto
qed simp

lemma sort_by_stable:
  "(\<And>a b. P a \<Longrightarrow> P b \<Longrightarrow> \<not> lt a b) \<Longrightarrow> filter P (sort_by lt xs) = filter P xs"
  by (induction xs) (auto simp: insort_by_filter_tied)

lemma insort_by_hd: "(\<And>y. y \<in> set ys \<Longrightarrow> \<not> lt y x) \<Longrightarrow> insort_by lt x ys = x # ys"
  by (cases ys) auto

lemma sort_by_sorted_id: "sorted_wrt (\<lambda>a b. \<not> lt b a) xs \<Longrightarrow> sort_by lt xs = xs"
  by (induction xs) (simp_all add: insort_by_hd)

end

text \<open>Most comparators of the program compare a key.\<close>

lemma comparator_key: "comparator (\<lambda>a b. (f a :: 'b :: linorder) < f b)"
  by unfold_locales auto

text \<open>A comparator that ties nothing but equals sorts a multiset, not a list.\<close>

locale total_comparator = comparator +
  assumes total: "a \<noteq> b \<Longrightarrow> lt a b \<or> lt b a"
begin

lemma sorted_unique:
  "sorted_wrt (\<lambda>a b. \<not> lt b a) xs \<Longrightarrow> sorted_wrt (\<lambda>a b. \<not> lt b a) ys \<Longrightarrow> mset xs = mset ys \<Longrightarrow> xs = ys"
proof (induction xs arbitrary: ys)
  case (Cons x xs)
  obtain z zs where ys: "ys = z # zs"
    using Cons.prems(3) by (cases ys) auto
  have "x \<in> set ys" "z \<in> set (x # xs)"
    using Cons.prems(3) ys by (metis list.set_intros(1) set_mset_mset)+
  then have "x = z"
    using Cons.prems(1,2) ys total by auto
  with Cons ys show ?case by simp
qed simp

lemma sort_by_cong: "mset xs = mset ys \<Longrightarrow> sort_by lt xs = sort_by lt ys"
  by (rule sorted_unique) (simp_all add: sorted_sort_by)

end

text \<open>\<open>sort.Strings\<close> is the sort by the order of strings.\<close>

definition sort_strings :: "string list \<Rightarrow> string list" where
  "sort_strings xs = sort_by (<) xs"

interpretation by_string: total_comparator "(<) :: string \<Rightarrow> string \<Rightarrow> bool"
  by unfold_locales auto

lemma sort_strings_facts [simp]:
  "set (sort_strings xs) = set xs" "length (sort_strings xs) = length xs"
  "distinct (sort_strings xs) = distinct xs" "mset (sort_strings xs) = mset xs"
  by (simp_all add: sort_strings_def)

lemma sort_strings_sorted: "sorted (sort_strings xs)"
proof -
  have "sorted_wrt (\<lambda>a b. \<not> b < a) (sort_strings xs)"
    unfolding sort_strings_def by (rule by_string.sorted_sort_by)
  moreover have "(\<lambda>a b. \<not> b < a) = ((\<le>) :: string \<Rightarrow> string \<Rightarrow> bool)"
    by (simp add: fun_eq_iff not_less)
  ultimately show ?thesis by simp
qed

lemma sort_strings_cong: "mset xs = mset ys \<Longrightarrow> sort_strings xs = sort_strings ys"
  unfolding sort_strings_def by (rule by_string.sort_by_cong)

end
