(* ===== verification/Runes.thy ===== *)
theory Runes
  imports Prelude
begin

text \<open>
  Go reads a byte string as runes: a \<open>range\<close> over a string decodes UTF-8, one
  replacement rune for every byte that does not decode, and writing a rune encodes it.
  The decoder and the encoder are the language's. What Unicode says of a rune (printable,
  a mark, a letter, its lower case) is a table of the Go distribution and a parameter of
  the definitions that ask; which runes are spaces is short enough to be written out.
\<close>

type_synonym rune = nat

definition rune_error :: rune where "rune_error = 65533"

definition valid_rune :: "rune \<Rightarrow> bool" where
  "valid_rune r \<longleftrightarrow> r < 55296 \<or> (57344 \<le> r \<and> r < 1114112)"

section \<open>Encoding\<close>

definition encode_rune :: "rune \<Rightarrow> nat list" where
  "encode_rune r0 =
     (let r = (if valid_rune r0 then r0 else rune_error)
      in if r < 128 then [r]
         else if r < 2048 then [192 + r div 64, 128 + r mod 64]
         else if r < 65536 then [224 + r div 4096, 128 + r div 64 mod 64, 128 + r mod 64]
         else [240 + r div 262144, 128 + r div 4096 mod 64, 128 + r div 64 mod 64, 128 + r mod 64])"

definition string_of_runes :: "rune list \<Rightarrow> string" where
  "string_of_runes rs = map char_of (concat (map encode_rune rs))"

section \<open>Decoding\<close>

definition cont :: "nat \<Rightarrow> bool" where "cont b \<longleftrightarrow> 128 \<le> b \<and> b < 192"

text \<open>
  The first rune of a byte and what follows it, and how many following bytes it took.
  The second byte's range excludes overlong forms, surrogates and what is past U+10FFFF.
\<close>

definition decode_first :: "nat \<Rightarrow> nat list \<Rightarrow> rune \<times> nat" where
  "decode_first a bs =
     (if a < 128 then (a, 0)
      else if 194 \<le> a \<and> a < 224 then
        (case bs of b # _ \<Rightarrow> if cont b then ((a - 192) * 64 + (b - 128), 1) else (rune_error, 0)
         | _ \<Rightarrow> (rune_error, 0))
      else if 224 \<le> a \<and> a < 240 then
        (case bs of b # c # _ \<Rightarrow>
             if (if a = 224 then 160 else 128) \<le> b \<and> b < (if a = 237 then 160 else 192) \<and> cont c
             then ((a - 224) * 4096 + (b - 128) * 64 + (c - 128), 2) else (rune_error, 0)
         | _ \<Rightarrow> (rune_error, 0))
      else if 240 \<le> a \<and> a < 245 then
        (case bs of b # c # d # _ \<Rightarrow>
             if (if a = 240 then 144 else 128) \<le> b \<and> b < (if a = 244 then 144 else 192) \<and> cont c \<and> cont d
             then ((a - 240) * 262144 + (b - 128) * 4096 + (c - 128) * 64 + (d - 128), 3)
             else (rune_error, 0)
         | _ \<Rightarrow> (rune_error, 0))
      else (rune_error, 0))"

function decode :: "nat list \<Rightarrow> rune list" where
  "decode [] = []"
| "decode (a # bs) = fst (decode_first a bs) # decode (drop (snd (decode_first a bs)) bs)"
  by pat_completeness auto
termination
  by (relation "measure length") auto

definition runes_of :: "string \<Rightarrow> rune list" where
  "runes_of s = decode (map of_char s)"

section \<open>The round trip\<close>

lemma encode_rune_bytes: "b \<in> set (encode_rune r) \<Longrightarrow> b < 256"
  by (auto simp: encode_rune_def rune_error_def valid_rune_def Let_def split: if_splits)

lemma decode_first_encode_2:
  assumes "128 \<le> r" "r < 2048"
  shows "decode_first (192 + r div 64) ((128 + r mod 64) # bs) = (r, 1)"
proof -
  have "194 \<le> 192 + r div 64" "192 + r div 64 < 224" using assms by auto
  then show ?thesis by (simp add: decode_first_def cont_def)
qed

lemma sextets_2: "(r::nat) = r div 4096 * 4096 + r div 64 mod 64 * 64 + r mod 64"
proof -
  have "r = r div 64 * 64 + r mod 64" by simp
  moreover have "r div 64 = r div 64 div 64 * 64 + r div 64 mod 64" by simp
  moreover have "r div 64 div 64 = r div 4096" by (simp add: div_mult2_eq [symmetric])
  ultimately show ?thesis by linarith
qed

lemma sextets_3:
  "(r::nat) = r div 262144 * 262144 + r div 4096 mod 64 * 4096 + r div 64 mod 64 * 64 + r mod 64"
proof -
  have "r div 4096 = r div 4096 div 64 * 64 + r div 4096 mod 64" by simp
  moreover have "r div 4096 div 64 = r div 262144" by (simp add: div_mult2_eq [symmetric])
  ultimately show ?thesis using sextets_2 [of r] by linarith
qed

lemma decode_first_encode_3:
  assumes "2048 \<le> r" "r < 65536" "valid_rune r"
  shows "decode_first (224 + r div 4096) ((128 + r div 64 mod 64) # (128 + r mod 64) # bs) = (r, 2)"
proof -
  define a b c where "a = r div 4096" and "b = r div 64 mod 64" and "c = r mod 64"
  have r: "r = a * 4096 + b * 64 + c" unfolding a_def b_def c_def by (rule sextets_2)
  have bounds: "a < 16" "b < 64" "c < 64" using assms unfolding a_def b_def c_def by auto
  have "a = 0 \<longrightarrow> 32 \<le> b" using assms(1) r bounds by arith
  moreover have "a = 13 \<longrightarrow> b < 32" using assms(3) r bounds unfolding valid_rune_def by arith
  ultimately show ?thesis
    using bounds r unfolding a_def [symmetric] b_def [symmetric] c_def [symmetric]
    by (auto simp: decode_first_def cont_def)
qed

lemma decode_first_encode_4:
  assumes "65536 \<le> r" "valid_rune r"
  shows "decode_first (240 + r div 262144)
    ((128 + r div 4096 mod 64) # (128 + r div 64 mod 64) # (128 + r mod 64) # bs) = (r, 3)"
proof -
  define a b c d where "a = r div 262144" and "b = r div 4096 mod 64"
    and "c = r div 64 mod 64" and "d = r mod 64"
  have r: "r = a * 262144 + b * 4096 + c * 64 + d" unfolding a_def b_def c_def d_def by (rule sextets_3)
  have bounds: "a < 5" "b < 64" "c < 64" "d < 64"
    using assms unfolding a_def b_def c_def d_def valid_rune_def by auto
  have "a = 0 \<longrightarrow> 16 \<le> b" using assms(1) r bounds by arith
  moreover have "a = 4 \<longrightarrow> b < 16" using assms(2) r bounds unfolding valid_rune_def by arith
  ultimately show ?thesis
    using bounds r unfolding a_def [symmetric] b_def [symmetric] c_def [symmetric] d_def [symmetric]
    by (auto simp: decode_first_def cont_def)
qed

lemma decode_encode_rune: "valid_rune r \<Longrightarrow> decode (encode_rune r @ bs) = r # decode bs"
  by (cases "r < 128"; cases "r < 2048"; cases "r < 65536")
     (simp_all add: encode_rune_def decode_first_encode_2 decode_first_encode_3
        decode_first_encode_4 decode_first_def [of r] not_less)

lemma decode_encode:
  "list_all valid_rune rs \<Longrightarrow> decode (concat (map encode_rune rs)) = rs"
  by (induction rs) (simp_all add: decode_encode_rune)

lemma of_char_char_of_bytes:
  "\<forall>b \<in> set bs. b < 256 \<Longrightarrow> map (of_char \<circ> char_of) bs = (bs :: nat list)"
  by (induction bs) simp_all

lemma runes_of_string_of_runes [simp, go_simps]:
  "list_all valid_rune rs \<Longrightarrow> runes_of (string_of_runes rs) = rs"
  unfolding runes_of_def string_of_runes_def
  using of_char_char_of_bytes [of "concat (map encode_rune rs)"] encode_rune_bytes
  by (auto simp: decode_encode)

lemma valid_rune_3:
  "x < 16 \<Longrightarrow> y < 64 \<Longrightarrow> z < 64 \<Longrightarrow> (x = 13 \<longrightarrow> y < 32) \<Longrightarrow> valid_rune (x * 4096 + y * 64 + z)"
  unfolding valid_rune_def by (cases "x < 13"; cases "x = 13") linarith+

lemma valid_rune_4:
  "x < 5 \<Longrightarrow> y < 64 \<Longrightarrow> z < 64 \<Longrightarrow> w < 64 \<Longrightarrow> (x = 0 \<longrightarrow> 16 \<le> y) \<Longrightarrow> (x = 4 \<longrightarrow> y < 16) \<Longrightarrow>
   valid_rune (x * 262144 + y * 4096 + z * 64 + w)"
  unfolding valid_rune_def by (cases "x = 0"; cases "x = 4") linarith+

lemma valid_rune_error [simp]: "valid_rune rune_error"
  by (simp add: valid_rune_def rune_error_def)

lemma decode_first_valid: "valid_rune (fst (decode_first a bs))"
proof -
  consider "a < 128" | "128 \<le> a" "a < 224" | "224 \<le> a" "a < 240" | "240 \<le> a" by linarith
  then show ?thesis
  proof cases
    case 1
    then show ?thesis by (simp add: decode_first_def valid_rune_def)
  next
    case 2
    have "valid_rune ((a - 192) * 64 + (b - 128))" if "cont b" for b
      using that 2 unfolding valid_rune_def cont_def by linarith
    with 2 show ?thesis by (auto simp: decode_first_def split: list.split)
  next
    case 3
    have "valid_rune ((a - 224) * 4096 + (b - 128) * 64 + (c - 128))"
      if "b < (if a = 237 then 160 else 192)" "cont c" for b c
      using that 3 by (intro valid_rune_3) (auto simp: cont_def split: if_splits)
    with 3 show ?thesis by (auto simp: decode_first_def split: list.split)
  next
    case 4
    have "valid_rune ((a - 240) * 262144 + (b - 128) * 4096 + (c - 128) * 64 + (d - 128))"
      if "a < 245" "(if a = 240 then 144 else 128) \<le> b" "b < (if a = 244 then 144 else 192)" "cont c" "cont d" for b c d
      using that 4 by (intro valid_rune_4) (auto simp: cont_def split: if_splits)
    with 4 show ?thesis by (auto simp: decode_first_def split: list.split)
  qed
qed

lemma decode_valid: "r \<in> set (decode bs) \<Longrightarrow> valid_rune r"
proof (induction bs rule: decode.induct)
  case (2 a bs)
  have "valid_rune (fst (decode_first a bs))" by (rule decode_first_valid)
  with 2 show ?case by auto
qed simp

lemma runes_of_valid [simp]: "list_all valid_rune (runes_of s)"
  unfolding runes_of_def list_all_iff by (blast dest: decode_valid)

lemma decode_ascii: "list_all (\<lambda>b. b < 128) bs \<Longrightarrow> decode bs = bs"
  by (induction bs) (auto simp: decode_first_def)

definition ascii :: "string \<Rightarrow> bool" where
  "ascii s \<longleftrightarrow> list_all (\<lambda>c. (of_char c :: nat) < 128) s"

lemma runes_of_ascii: "ascii s \<Longrightarrow> runes_of s = map of_char s"
  unfolding runes_of_def ascii_def by (rule decode_ascii) (simp add: list_all_iff)

lemma string_of_runes_ascii: "ascii s \<Longrightarrow> string_of_runes (map of_char s) = s"
  unfolding string_of_runes_def ascii_def
  by (induction s) (auto simp: encode_rune_def valid_rune_def)

lemma string_of_runes_Nil [simp]: "string_of_runes [] = []"
  by (simp add: string_of_runes_def)

lemma string_of_runes_append: "string_of_runes (xs @ ys) = string_of_runes xs @ string_of_runes ys"
  by (simp add: string_of_runes_def)

lemma encode_rune_nonempty [simp]: "encode_rune r \<noteq> []"
  by (simp add: encode_rune_def Let_def)

lemma string_of_runes_eq_Nil [simp]: "string_of_runes rs = [] \<longleftrightarrow> rs = []"
  by (cases rs) (simp_all add: string_of_runes_def)

section \<open>What \<open>encoding/json\<close> does to a string\<close>

definition json_string :: "string \<Rightarrow> string" where
  "json_string s = string_of_runes (runes_of s)"

definition utf8 :: "string \<Rightarrow> bool" where "utf8 s \<longleftrightarrow> json_string s = s"

lemma utf8_Nil [simp]: "utf8 []"
  by (simp add: utf8_def json_string_def runes_of_ascii ascii_def)

lemma utf8_ascii: "ascii s \<Longrightarrow> utf8 s"
  by (simp add: utf8_def json_string_def runes_of_ascii string_of_runes_ascii)

lemma utf8_of_runes: "list_all valid_rune rs \<Longrightarrow> utf8 (string_of_runes rs)"
  by (simp add: utf8_def json_string_def)

section \<open>What Unicode says of a rune\<close>

definition is_space :: "rune \<Rightarrow> bool" where
  "is_space r \<longleftrightarrow> r \<in> {9, 10, 11, 12, 13, 32, 133, 160, 5760, 8232, 8233, 8239, 8287, 12288}
     \<or> (8192 \<le> r \<and> r \<le> 8202)"

record unicode =
  is_print :: "rune \<Rightarrow> bool"
  is_mark :: "rune \<Rightarrow> bool"
  is_letter :: "rune \<Rightarrow> bool"
  is_decimal :: "rune \<Rightarrow> bool"
  to_lower :: "rune \<Rightarrow> rune"

text \<open>
  What the Go documentation promises of its tables and the code relies on: the only
  printable space is U+0020, the ASCII letters and digits are what they are, and lower
  case leaves the lower case letters and the digits alone and yields runes.
\<close>

definition unicode_ok :: "unicode \<Rightarrow> bool" where
  "unicode_ok u \<longleftrightarrow>
     (\<forall>r. is_print u r \<and> is_space r \<longrightarrow> r = 32)
   \<and> (\<forall>r. 32 \<le> r \<and> r < 127 \<longrightarrow> is_print u r \<and> \<not> is_mark u r)
   \<and> (\<forall>r. r < 128 \<longrightarrow> is_letter u r = (65 \<le> r \<and> r \<le> 90 \<or> 97 \<le> r \<and> r \<le> 122))
   \<and> (\<forall>r. r < 128 \<longrightarrow> is_decimal u r = (48 \<le> r \<and> r \<le> 57))
   \<and> (\<forall>r. r < 128 \<longrightarrow> to_lower u r = (if 65 \<le> r \<and> r \<le> 90 then r + 32 else r))"

text \<open>The tables cut down to ASCII, on which examples are evaluated.\<close>

definition ascii_unicode :: unicode where
  "ascii_unicode = \<lparr> is_print = (\<lambda>r. 32 \<le> r \<and> r < 127), is_mark = (\<lambda>_. False),
     is_letter = (\<lambda>r. 65 \<le> r \<and> r \<le> 90 \<or> 97 \<le> r \<and> r \<le> 122),
     is_decimal = (\<lambda>r. 48 \<le> r \<and> r \<le> 57),
     to_lower = (\<lambda>r. if 65 \<le> r \<and> r \<le> 90 then r + 32 else r) \<rparr>"

lemma ascii_unicode_ok: "unicode_ok ascii_unicode"
  by (auto simp: unicode_ok_def ascii_unicode_def is_space_def)

end
