(* ===== verification/Desk_Name.thy ===== *)
theory Desk_Name
  imports Runes "HOL-Library.Product_Lexorder"
begin

text \<open>
  Workspace names: \<open>internal/desk/name.go\<close>, \<open>label.go\<close> and the order \<open>less\<close> of
  \<open>map.go\<close>. A name is the record of which desk owns a workspace, so what matters is
  that a name which is minted is read back as the same name, and that nothing else is.
\<close>

section \<open>The grammar of the three parts\<close>

definition Regulars :: string where "Regulars = ''regulars''"

definition partMax :: nat where "partMax = 64"

definition lower :: "char \<Rightarrow> bool" where "lower c \<longleftrightarrow> CHR ''a'' \<le> c \<and> c \<le> CHR ''z''"
definition upper :: "char \<Rightarrow> bool" where "upper c \<longleftrightarrow> CHR ''A'' \<le> c \<and> c \<le> CHR ''Z''"
definition alpha :: "char \<Rightarrow> bool" where "alpha c \<longleftrightarrow> lower c \<or> upper c"
definition alnum :: "char \<Rightarrow> bool" where "alnum c \<longleftrightarrow> alpha c \<or> is_digit c"
definition lower_num :: "char \<Rightarrow> bool" where "lower_num c \<longleftrightarrow> lower c \<or> is_digit c"

text \<open>
  The automaton of \<open>P+(-Q+)*\<close> anchored at both ends: \<open>need\<close> says a run has just begun and
  wants its first character, and after a dash the class is \<open>Q\<close>.
\<close>

fun dashed :: "(char \<Rightarrow> bool) \<Rightarrow> (char \<Rightarrow> bool) \<Rightarrow> bool \<Rightarrow> string \<Rightarrow> bool" where
  "dashed P Q need [] = (\<not> need)"
| "dashed P Q need (c # cs) =
     (if P c then dashed P Q False cs
      else c = CHR ''-'' \<and> \<not> need \<and> dashed Q Q True cs)"

definition monitorPart :: "string \<Rightarrow> bool" where
  "monitorPart s = dashed alpha alnum True s"

definition namePart :: "string \<Rightarrow> bool" where
  "namePart s = dashed lower_num lower_num True s"

definition isDigits :: "string \<Rightarrow> bool" where
  "isDigits s = list_all is_digit s"

section \<open>Names\<close>

record name =
  desk :: string
  monitor :: string
  slot :: string

definition String :: "name \<Rightarrow> string" where
  "String n = desk n @ ''.'' @ monitor n @ ''.'' @ slot n"

definition IsRegulars :: "name \<Rightarrow> bool" where
  "IsRegulars n \<longleftrightarrow> desk n = Regulars"

definition Ordinal :: "name \<Rightarrow> int option" where
  "Ordinal n = atoi (slot n)"

definition ValidDesk :: "string \<Rightarrow> bool" where
  "ValidDesk s \<longleftrightarrow> length s \<le> partMax \<and> namePart s"

datatype name_error =
  WrongParts nat | PartTooLong | BadDesk string | BadMonitor string | BadSlot string | LeadingZero string

definition leading_zero :: "string \<Rightarrow> bool" where
  "leading_zero s \<longleftrightarrow> 1 < length s \<and> s ! 0 = CHR ''0'' \<and> isDigits s"

definition ParseName :: "string \<Rightarrow> name_error + name" where
  "ParseName s =
     (let parts = split_on (CHR ''.'') s
      in if length parts \<noteq> 3 then Inl (WrongParts (length parts))
         else let n = \<lparr>desk = parts ! 0, monitor = parts ! 1, slot = parts ! 2\<rparr>
              in if list_ex (\<lambda>p. partMax < length p) parts then Inl PartTooLong
                 else if \<not> namePart (desk n) then Inl (BadDesk (desk n))
                 else if \<not> monitorPart (monitor n) then Inl (BadMonitor (monitor n))
                 else if \<not> namePart (slot n) then Inl (BadSlot (slot n))
                 else if leading_zero (slot n) then Inl (LeadingZero (slot n))
                 else Inr n)"

definition NewName :: "string \<Rightarrow> string \<Rightarrow> string \<Rightarrow> name_error + name" where
  "NewName d m s = ParseName (d @ ''.'' @ m @ ''.'' @ s)"

section \<open>Reading a name back\<close>

text \<open>The specification: the names that exist.\<close>

definition valid_slot :: "string \<Rightarrow> bool" where
  "valid_slot s \<longleftrightarrow> namePart s \<and> length s \<le> partMax \<and> \<not> leading_zero s"

definition valid_name :: "name \<Rightarrow> bool" where
  "valid_name n \<longleftrightarrow> ValidDesk (desk n) \<and> monitorPart (monitor n) \<and> length (monitor n) \<le> partMax
     \<and> valid_slot (slot n)"

lemma dashed_no_dot:
  "(\<And>c. P c \<Longrightarrow> c \<noteq> CHR ''.'') \<Longrightarrow> (\<And>c. Q c \<Longrightarrow> c \<noteq> CHR ''.'') \<Longrightarrow> dashed P Q b s \<Longrightarrow> CHR ''.'' \<notin> set s"
  by (induction P Q b s rule: dashed.induct) (auto split: if_splits)

lemma class_dot [simp]: "\<not> lower_num (CHR ''.'')" "\<not> alpha (CHR ''.'')" "\<not> alnum (CHR ''.'')"
  by (simp_all add: lower_num_def lower_def upper_def is_digit_def alpha_def alnum_def)

lemma namePart_no_dot: "namePart s \<Longrightarrow> CHR ''.'' \<notin> set s"
  unfolding namePart_def by (rule dashed_no_dot [of lower_num lower_num]) auto

lemma monitorPart_no_dot: "monitorPart s \<Longrightarrow> CHR ''.'' \<notin> set s"
  unfolding monitorPart_def by (rule dashed_no_dot [of alpha alnum]) auto

lemma part_nonempty [simp]: "\<not> namePart []" "\<not> monitorPart []"
  by (simp_all add: namePart_def monitorPart_def)

lemma String_join: "String n = join_with (CHR ''.'') [desk n, monitor n, slot n]"
  by (simp add: String_def)

lemma split_String: "valid_name n \<Longrightarrow> split_on (CHR ''.'') (String n) = [desk n, monitor n, slot n]"
  unfolding String_join
  by (rule split_join) (auto simp: valid_name_def ValidDesk_def valid_slot_def dest: namePart_no_dot monitorPart_no_dot)

lemma ParseName_String: "valid_name n \<Longrightarrow> ParseName (String n) = Inr n"
  by (simp add: ParseName_def split_String)
     (simp add: valid_name_def ValidDesk_def valid_slot_def not_less)

lemma length_3: "length xs = 3 \<Longrightarrow> xs = [xs ! 0, xs ! 1, xs ! 2]"
  by (cases xs; cases "tl xs"; cases "tl (tl xs)") auto

lemma ParseName_sound: "ParseName s = Inr n \<Longrightarrow> valid_name n \<and> String n = s"
proof -
  assume a: "ParseName s = Inr n"
  define ps where "ps = split_on (CHR ''.'') s"
  from a have l: "length ps = 3" by (auto simp: ParseName_def ps_def Let_def split: if_splits)
  then have ps: "ps = [ps ! 0, ps ! 1, ps ! 2]" by (rule length_3)
  from a l have n: "n = \<lparr>desk = ps ! 0, monitor = ps ! 1, slot = ps ! 2\<rparr>"
    by (auto simp: ParseName_def Let_def ps_def [symmetric] split: if_splits)
  have "join_with (CHR ''.'') ps = s" unfolding ps_def by (rule join_split)
  then have "String n = s" using ps n by (metis String_join name.select_convs)
  moreover have "valid_name n"
  proof -
    have "\<not> list_ex (\<lambda>p. partMax < length p) ps"
      using a l by (auto simp: ParseName_def Let_def ps_def [symmetric] split: if_splits)
    then have "length (ps ! 0) \<le> partMax" "length (ps ! 1) \<le> partMax" "length (ps ! 2) \<le> partMax"
      using ps l by (auto simp: list_ex_iff not_less)
    then show ?thesis
      using a l n by (auto simp: ParseName_def Let_def ps_def [symmetric] valid_name_def
          ValidDesk_def valid_slot_def split: if_splits)
  qed
  ultimately show ?thesis by simp
qed

lemma ParseName_iff: "ParseName s = Inr n \<longleftrightarrow> valid_name n \<and> String n = s"
  using ParseName_String ParseName_sound by blast

lemma NewName_iff:
  "NewName d m s = Inr n \<longleftrightarrow> valid_name n \<and> String n = d @ ''.'' @ m @ ''.'' @ s"
  by (simp add: NewName_def ParseName_iff)

lemma String_inj: "valid_name a \<Longrightarrow> valid_name b \<Longrightarrow> String a = String b \<longleftrightarrow> a = b"
  by (metis ParseName_String sum.inject(2))

text \<open>Building a name from parts that could each stand as one gives those parts.\<close>

lemma NewName_parts:
  assumes "CHR ''.'' \<notin> set d" "CHR ''.'' \<notin> set m" "CHR ''.'' \<notin> set s"
  shows "NewName d m s = Inr n \<longleftrightarrow> n = \<lparr>desk = d, monitor = m, slot = s\<rparr> \<and> valid_name n"
proof -
  have "String n = d @ ''.'' @ m @ ''.'' @ s \<and> valid_name n \<longleftrightarrow>
        n = \<lparr>desk = d, monitor = m, slot = s\<rparr> \<and> valid_name n"
  proof
    assume a: "String n = d @ ''.'' @ m @ ''.'' @ s \<and> valid_name n"
    have "split_on (CHR ''.'') (join_with (CHR ''.'') [d, m, s]) = [d, m, s]"
      using assms by (intro split_join) auto
    with a split_String [of n] have "[desk n, monitor n, slot n] = [d, m, s]" by simp
    with a show "n = \<lparr>desk = d, monitor = m, slot = s\<rparr> \<and> valid_name n" by (cases n) simp
  qed (auto simp: String_def)
  then show ?thesis unfolding NewName_iff by blast
qed


section \<open>The order of a map's lists\<close>

text \<open>
  \<open>less\<close> compares by monitor, then labels before ordinals, then ordinals by number. The
  two kinds of slot are a datatype whose linear order is exactly that, so \<open>less\<close> is the
  lexicographic order of a pair and inherits every law a comparator owes.
\<close>

datatype slot_key = Label_key string | Ordinal_key int

instantiation slot_key :: linorder
begin

fun less_slot_key :: "slot_key \<Rightarrow> slot_key \<Rightarrow> bool" where
  "less_slot_key (Ordinal_key i) (Ordinal_key j) = (i < j)"
| "less_slot_key (Label_key a) (Label_key b) = (a < b)"
| "less_slot_key (Label_key a) (Ordinal_key j) = True"
| "less_slot_key (Ordinal_key i) (Label_key b) = False"

definition less_eq_slot_key :: "slot_key \<Rightarrow> slot_key \<Rightarrow> bool" where
  "less_eq_slot_key a b \<longleftrightarrow> a < b \<or> a = b"

instance
proof
  fix a b c :: slot_key
  show "(a < b) = (a \<le> b \<and> \<not> b \<le> a)"
    by (cases a; cases b) (auto simp: less_eq_slot_key_def)
  show "a \<le> a" by (simp add: less_eq_slot_key_def)
  show "a \<le> b \<Longrightarrow> b \<le> c \<Longrightarrow> a \<le> c"
    by (cases a; cases b; cases c) (auto simp: less_eq_slot_key_def)
  show "a \<le> b \<Longrightarrow> b \<le> a \<Longrightarrow> a = b"
    by (cases a; cases b) (auto simp: less_eq_slot_key_def)
  show "a \<le> b \<or> b \<le> a"
    by (cases a; cases b) (auto simp: less_eq_slot_key_def)
qed

end

definition less :: "name \<Rightarrow> name \<Rightarrow> bool" where
  "less a b =
     (if monitor a \<noteq> monitor b then monitor a < monitor b
      else (case (Ordinal a, Ordinal b) of
              (Some an, Some bn) \<Rightarrow> an < bn
            | (None, None) \<Rightarrow> slot a < slot b
            | (an, bn) \<Rightarrow> bn \<noteq> None))"

definition slot_key_of :: "string \<Rightarrow> slot_key" where
  "slot_key_of s = (case atoi s of None \<Rightarrow> Label_key s | Some i \<Rightarrow> Ordinal_key i)"

definition name_key :: "name \<Rightarrow> string \<times> slot_key" where
  "name_key n = (monitor n, slot_key_of (slot n))"

lemma less_key: "less a b \<longleftrightarrow> name_key a < name_key b"
  by (auto simp: less_def name_key_def slot_key_of_def Ordinal_def less_prod_def' split: option.split)

interpretation by_less: comparator less
  by unfold_locales (auto simp: less_key)

text \<open>
  A slot that can be minted has one spelling per number, so two valid names that \<open>less\<close>
  cannot tell apart are on the same monitor under the same slot.
\<close>

lemma lower_num_not_sign: "\<not> lower_num (CHR ''+'')" "\<not> lower_num (CHR ''-'')"
  by (simp_all add: lower_num_def lower_def is_digit_def)

lemma atoi_Some_digits:
  assumes "namePart s" "atoi s = Some i"
  shows "isDigits s \<and> s \<noteq> [] \<and> i = int (digits_val s)"
proof (cases s)
  case (Cons c cs)
  then have "lower_num c" using assms(1) by (auto simp: namePart_def split: if_splits)
  then have "c \<noteq> CHR ''-''" "c \<noteq> CHR ''+''" using lower_num_not_sign by auto
  with Cons assms(2) show ?thesis by (auto simp: atoi_def isDigits_def Let_def split: if_splits)
qed (use assms in simp)

lemma slot_key_inj:
  assumes "valid_slot s" "valid_slot t" "slot_key_of s = slot_key_of t"
  shows "s = t"
proof (cases "atoi s")
  case None
  with assms(3) show ?thesis by (auto simp: slot_key_of_def split: option.splits)
next
  case (Some i)
  then have t: "atoi t = Some i" using assms(3) by (auto simp: slot_key_of_def split: option.splits)
  have can: "itoa (digits_val u) = u" if "valid_slot u" "atoi u = Some i" for u
  proof (rule itoa_digits_val)
    have d: "isDigits u \<and> u \<noteq> []" using that atoi_Some_digits by (auto simp: valid_slot_def)
    then show "u \<noteq> []" "list_all is_digit u" by (simp_all add: isDigits_def)
    show "1 < length u \<longrightarrow> hd u \<noteq> CHR ''0''"
      using that(1) d by (auto simp: valid_slot_def leading_zero_def hd_conv_nth)
  qed
  have "digits_val s = digits_val t"
    using atoi_Some_digits [of s i] atoi_Some_digits [of t i] assms(1,2) Some t
    by (simp add: valid_slot_def)
  with can [OF assms(1) Some] can [OF assms(2) t] show ?thesis by metis
qed

lemma name_key_inj:
  "valid_name a \<Longrightarrow> valid_name b \<Longrightarrow> desk a = desk b \<Longrightarrow> name_key a = name_key b \<Longrightarrow> a = b"
  using slot_key_inj [of "slot a" "slot b"] by (simp add: name_key_def valid_name_def)

lemma less_total_in_desk:
  "valid_name a \<Longrightarrow> valid_name b \<Longrightarrow> desk a = desk b \<Longrightarrow> a \<noteq> b \<Longrightarrow> less a b \<or> less b a"
  unfolding less_key using name_key_inj by (metis neq_iff)

section \<open>Labels\<close>

definition ascii_lower_num :: "rune \<Rightarrow> bool" where
  "ascii_lower_num r \<longleftrightarrow> (97 \<le> r \<and> r \<le> 122) \<or> (48 \<le> r \<and> r \<le> 57)"

fun label_loop :: "rune list \<Rightarrow> bool \<Rightarrow> string" where
  "label_loop [] lastDash = []"
| "label_loop (r # rs) lastDash =
     (if ascii_lower_num r then char_of r # label_loop rs False
      else if \<not> lastDash then CHR ''-'' # label_loop rs True
      else label_loop rs lastDash)"

definition trim_char :: "char \<Rightarrow> string \<Rightarrow> string" where
  "trim_char c s = rev (dropWhile (\<lambda>x. x = c) (rev (dropWhile (\<lambda>x. x = c) s)))"

text \<open>\<open>strings.LastIndex\<close> and the cut after it: the last segment, unless it is empty.\<close>

definition last_segment :: "string \<Rightarrow> string" where
  "last_segment s =
     (let parts = split_on (CHR ''.'') s
      in if 1 < length parts \<and> last parts \<noteq> [] then last parts else s)"

definition Label :: "unicode \<Rightarrow> string \<Rightarrow> string option" where
  "Label u appID =
     (let s = map (to_lower u) (runes_of (last_segment appID));
          out = trim_char (CHR ''-'') (label_loop s True)
      in if out = [] \<or> partMax < length out then None
         else if isDigits out then None
         else Some out)"

text \<open>
  The loop writes a name, or a name and one dash that the trim takes off again.
\<close>

definition near_name :: "string \<Rightarrow> bool" where
  "near_name s \<longleftrightarrow> namePart s \<or> (\<exists>t. s = t @ ''-'' \<and> namePart t)"

lemma dashed_snoc:
  "dashed P Q b s \<Longrightarrow> (if s = [] then P c else P c \<and> Q c) \<Longrightarrow> dashed P Q b (s @ [c])"
  by (induction P Q b s rule: dashed.induct) (auto split: if_splits)

lemma dashed_append_dash:
  "dashed P Q b s \<Longrightarrow> \<not> P (CHR ''-'') \<Longrightarrow> \<not> Q (CHR ''-'') \<Longrightarrow> Q c \<Longrightarrow> dashed P Q b (s @ [CHR ''-'', c])"
  by (induction P Q b s rule: dashed.induct) (auto split: if_splits)

lemma dashed_need_irrel: "dashed P Q True s \<Longrightarrow> dashed P Q False s"
  by (cases s) (auto split: if_splits)

lemma lower_num_rune: "ascii_lower_num r \<Longrightarrow> lower_num (char_of r)"
  by (auto simp: ascii_lower_num_def lower_num_def lower_def is_digit_def less_eq_char_def)

lemma namePart_snoc: "namePart p \<Longrightarrow> lower_num c \<Longrightarrow> namePart (p @ [c])"
  unfolding namePart_def by (rule dashed_snoc) auto

lemma namePart_dash_snoc: "namePart p \<Longrightarrow> lower_num c \<Longrightarrow> namePart (p @ [CHR ''-'', c])"
  unfolding namePart_def by (rule dashed_append_dash) (auto simp: lower_num_not_sign)

lemma label_loop_extends:
  "namePart p \<Longrightarrow> near_name (p @ label_loop rs False) \<and> near_name (p @ CHR ''-'' # label_loop rs True)"
proof (induction rs arbitrary: p)
  case Nil
  then show ?case by (auto simp: near_name_def)
next
  case (Cons r rs)
  show ?case
  proof (cases "ascii_lower_num r")
    case True
    then have c: "lower_num (char_of r)" by (rule lower_num_rune)
    show ?thesis
      using True Cons.IH [OF namePart_snoc [OF Cons.prems c]]
        Cons.IH [OF namePart_dash_snoc [OF Cons.prems c]] by simp
  next
    case False
    with Cons show ?thesis by simp
  qed
qed

lemma namePart_single: "lower_num c \<Longrightarrow> namePart [c]"
  by (simp add: namePart_def)

lemma label_loop_near: "label_loop rs True = [] \<or> near_name (label_loop rs True)"
proof (induction rs)
  case (Cons r rs)
  then show ?case
    using label_loop_extends [OF namePart_single [OF lower_num_rune], of r rs] by simp
qed simp

lemma namePart_ends: "namePart s \<Longrightarrow> hd s \<noteq> CHR ''-'' \<and> last s \<noteq> CHR ''-''"
proof -
  have "dashed lower_num lower_num b s \<Longrightarrow> s \<noteq> [] \<Longrightarrow> last s \<noteq> CHR ''-''" for b
    by (induction lower_num lower_num b s rule: dashed.induct) (auto simp: lower_num_not_sign split: if_splits)
  moreover have "namePart s \<Longrightarrow> hd s \<noteq> CHR ''-''"
    by (cases s) (auto simp: namePart_def lower_num_not_sign split: if_splits)
  ultimately show "namePart s \<Longrightarrow> hd s \<noteq> CHR ''-'' \<and> last s \<noteq> CHR ''-''"
    using part_nonempty(1) unfolding namePart_def by blast
qed

lemma dropWhile_hd: "s \<noteq> [] \<Longrightarrow> hd s \<noteq> c \<Longrightarrow> dropWhile (\<lambda>x. x = c) s = s"
  by (cases s) auto

lemma trim_name: "namePart s \<Longrightarrow> trim_char (CHR ''-'') s = s"
proof -
  assume n: "namePart s"
  then have "s \<noteq> []" by auto
  with namePart_ends [OF n] show ?thesis
    unfolding trim_char_def by (simp add: dropWhile_hd hd_rev)
qed

lemma trim_name_dash: "namePart t \<Longrightarrow> trim_char (CHR ''-'') (t @ ''-'') = t"
proof -
  assume n: "namePart t"
  then have ne: "t \<noteq> []" by auto
  then have "dropWhile (\<lambda>x. x = CHR ''-'') (t @ ''-'') = t @ ''-''"
    using namePart_ends [OF n] by (cases t) auto
  then show ?thesis
    using ne namePart_ends [OF n] unfolding trim_char_def by (simp add: dropWhile_hd hd_rev)
qed

lemma Label_sound:
  assumes "Label u a = Some l"
  shows "valid_slot l \<and> \<not> isDigits l"
proof -
  define w where "w = label_loop (map (to_lower u) (runes_of (last_segment a))) True"
  from assms have l: "l = trim_char (CHR ''-'') w" "l \<noteq> []" "length l \<le> partMax" "\<not> isDigits l"
    by (auto simp: Label_def Let_def w_def split: if_splits)
  have "w \<noteq> []" using l by (auto simp: trim_char_def)
  then have "near_name w" using label_loop_near unfolding w_def by blast
  then have "namePart l" using l trim_name trim_name_dash by (auto simp: near_name_def)
  with l show ?thesis by (simp add: valid_slot_def leading_zero_def)
qed


section \<open>What names promise\<close>

text \<open>\<open>ParseName\<close> accepts exactly the spellings of valid names, and reads from each the
  name it spells: printing and parsing are inverse to each other, and no other text is
  taken for a name.\<close>

theorem ParseName_exact: "ParseName s = Inr n \<longleftrightarrow> valid_name n \<and> String n = s"
  by (rule ParseName_iff)

text \<open>A label that \<open>Label\<close> mints from an application id, whatever the id holds, is a slot
  a name can be built with on any desk and monitor, is never a number, and so can never be
  mistaken for an ordinal.\<close>

theorem Label_mints_slots:
  assumes "Label u a = Some l" "ValidDesk d" "monitorPart m" "length m \<le> partMax"
  shows "NewName d m l = Inr \<lparr>desk = d, monitor = m, slot = l\<rparr> \<and> Ordinal \<lparr>desk = d, monitor = m, slot = l\<rparr> = None"
proof -
  have l: "valid_slot l" "\<not> isDigits l" using Label_sound [OF assms(1)] by auto
  then have v: "valid_name \<lparr>desk = d, monitor = m, slot = l\<rparr>"
    using assms(2-4) by (simp add: valid_name_def)
  have "atoi l = None"
  proof (cases "atoi l")
    case (Some i)
    then show ?thesis using l atoi_Some_digits [of l i] by (simp add: valid_slot_def)
  qed
  with v show ?thesis
    by (simp add: NewName_iff String_def Ordinal_def)
qed

lemma Label_mints_slots_witness:
  "NewName ''zde-dev'' ''DP-1'' ''firefox'' = Inr \<lparr>desk = ''zde-dev'', monitor = ''DP-1'', slot = ''firefox''\<rparr>"
proof -
  have "Label ascii_unicode ''org.mozilla.Firefox'' = Some ''firefox''" by code_simp
  moreover have "ValidDesk ''zde-dev''" "monitorPart ''DP-1''" "length ''DP-1'' \<le> partMax" by code_simp+
  ultimately show ?thesis using Label_mints_slots by blast
qed

end
