(* ===== verification/Desk_Moves.thy ===== *)
theory Desk_Moves
  imports Desk_Name
begin

text \<open>
  \<open>grantMoves\<close> of \<open>internal/desk/map.go\<close>: which of the renames a rebuild asks for are
  made, and in what order they can be applied. A map from names is keyed by the name's
  spelling, as in the code; \<open>held\<close> is a count, zero for a name nothing carries.
\<close>

record rename =
  From :: name
  To :: name

datatype reason =
    AlreadyNamed string
  | NotShowing
  | Unmintable name_error
  | WantedAsWell string string
  | NameTaken string
  | WaitingForThis string

abbreviation from_of :: "rename \<Rightarrow> string" where "from_of mv \<equiv> String (From mv)"
abbreviation to_of :: "rename \<Rightarrow> string" where "to_of mv \<equiv> String (To mv)"

section \<open>The code\<close>

definition claim_step ::
  "rename \<Rightarrow> (string \<rightharpoonup> reason) \<times> (string \<rightharpoonup> string) \<times> (string \<rightharpoonup> name)
   \<Rightarrow> (string \<rightharpoonup> reason) \<times> (string \<rightharpoonup> string) \<times> (string \<rightharpoonup> name)" where
  "claim_step mv = (\<lambda>(refused, claimed, want).
     (case claimed (to_of mv) of
        Some first \<Rightarrow> (refused(from_of mv \<mapsto> WantedAsWell (to_of mv) first), claimed, want)
      | None \<Rightarrow> (refused, claimed(to_of mv \<mapsto> from_of mv), want(from_of mv \<mapsto> To mv))))"

definition taken_step ::
  "(string \<Rightarrow> nat) \<Rightarrow> rename \<Rightarrow> bool \<times> (string \<rightharpoonup> reason) \<times> (string \<rightharpoonup> name)
   \<Rightarrow> bool \<times> (string \<rightharpoonup> reason) \<times> (string \<rightharpoonup> name)" where
  "taken_step held mv = (\<lambda>(changed, refused, want).
     (case want (from_of mv) of
        None \<Rightarrow> (changed, refused, want)
      | Some to \<Rightarrow>
          if held (String to) = 0 then (changed, refused, want)
          else if want (String to) \<noteq> None then (changed, refused, want)
          else (True, refused(from_of mv \<mapsto> NameTaken (String to)), want(from_of mv := None))))"

definition standing :: "rename list \<Rightarrow> (string \<rightharpoonup> name) \<Rightarrow> rename list" where
  "standing mvs want = filter (\<lambda>mv. want (from_of mv) \<noteq> None) mvs"

text \<open>A pass that refuses something leaves fewer moves standing.\<close>

lemma taken_fold_mono:
  assumes "fold (taken_step held) mvs (c, r, w) = (c', r', w')"
  shows "w' \<subseteq>\<^sub>m w \<and> (c \<longrightarrow> c')"
  using assms
proof (induction mvs arbitrary: c r w)
  case (Cons mv mvs)
  obtain c1 r1 w1 where s: "taken_step held mv (c, r, w) = (c1, r1, w1)" by (metis prod_cases3)
  then have "w1 \<subseteq>\<^sub>m w \<and> (c \<longrightarrow> c1)"
    by (auto simp: taken_step_def map_le_def split: option.splits if_splits)
  with Cons.IH [of c1 r1 w1] Cons.prems s show ?case by (auto intro: map_le_trans)
qed simp

lemma taken_fold_changed:
  assumes "fold (taken_step held) mvs (False, r, w) = (True, r', w')"
  shows "\<exists>mv \<in> set mvs. w (from_of mv) \<noteq> None \<and> w' (from_of mv) = None"
  using assms
proof (induction mvs arbitrary: r w)
  case (Cons mv mvs)
  obtain c1 r1 w1 where s: "taken_step held mv (False, r, w) = (c1, r1, w1)" by (metis prod_cases3)
  show ?case
  proof (cases c1)
    case True
    then have "w (from_of mv) \<noteq> None" "w1 (from_of mv) = None"
      using s by (auto simp: taken_step_def split: option.splits if_splits)
    moreover have "w' \<subseteq>\<^sub>m w1" using Cons.prems s taken_fold_mono by fastforce
    ultimately show ?thesis by (fastforce simp: map_le_def dom_def)
  next
    case False
    then have "w1 = w" "r1 = r" using s by (auto simp: taken_step_def split: option.splits if_splits)
    with Cons s False show ?thesis by fastforce
  qed
qed simp

lemma standing_less:
  assumes "w' \<subseteq>\<^sub>m w" "mv \<in> set mvs" "w (from_of mv) \<noteq> None" "w' (from_of mv) = None"
  shows "length (standing mvs w') < length (standing mvs w)"
  unfolding standing_def
proof (rule length_filter_strict [of _ _ _ mv])
  show "w' (from_of x) \<noteq> None \<Longrightarrow> w (from_of x) \<noteq> None" for x
    using assms(1) by (metis map_le_def domI domIff)
qed (use assms in auto)

function taken_loop ::
  "(string \<Rightarrow> nat) \<Rightarrow> rename list \<Rightarrow> (string \<rightharpoonup> reason) \<Rightarrow> (string \<rightharpoonup> name)
   \<Rightarrow> (string \<rightharpoonup> reason) \<times> (string \<rightharpoonup> name)" where
  "taken_loop held ordered refused want =
     (case fold (taken_step held) ordered (False, refused, want) of
        (changed, refused', want') \<Rightarrow>
          if changed then taken_loop held ordered refused' want' else (refused', want'))"
  by pat_completeness auto
termination
proof (relation "measure (\<lambda>(held, ordered, refused, want). length (standing ordered want))", goal_cases)
  case (2 held ordered refused want c rw r w)
  then have f: "fold (taken_step held) ordered (False, refused, want) = (True, r, w)" by simp
  from taken_fold_changed [OF f] taken_fold_mono [OF f] show ?case
    by (auto intro: standing_less)
qed simp

declare taken_loop.simps [simp del]

definition order_step ::
  "(string \<Rightarrow> nat) \<Rightarrow> (string \<rightharpoonup> name) \<Rightarrow> rename \<Rightarrow> bool \<times> (string \<rightharpoonup> nat) \<Rightarrow> bool \<times> (string \<rightharpoonup> nat)" where
  "order_step held want mv = (\<lambda>(changed, step).
     (case want (from_of mv) of
        None \<Rightarrow> (changed, step)
      | Some to \<Rightarrow>
          if step (from_of mv) \<noteq> None then (changed, step)
          else if held (String to) = 0 then (True, step(from_of mv \<mapsto> 0))
          else (case step (String to) of
                  Some prior \<Rightarrow> (True, step(from_of mv \<mapsto> prior + 1))
                | None \<Rightarrow> (changed, step))))"

definition unplaced :: "rename list \<Rightarrow> (string \<rightharpoonup> nat) \<Rightarrow> rename list" where
  "unplaced mvs step = filter (\<lambda>mv. step (from_of mv) = None) mvs"

lemma order_fold_mono:
  assumes "fold (order_step held want) mvs (c, st) = (c', st')"
  shows "st \<subseteq>\<^sub>m st' \<and> (c \<longrightarrow> c')"
  using assms
proof (induction mvs arbitrary: c st)
  case (Cons mv mvs)
  obtain c1 s1 where s: "order_step held want mv (c, st) = (c1, s1)" by fastforce
  then have "st \<subseteq>\<^sub>m s1 \<and> (c \<longrightarrow> c1)"
    by (auto simp: order_step_def map_le_def split: option.splits if_splits)
  with Cons.IH [of c1 s1] Cons.prems s show ?case by (auto intro: map_le_trans)
qed simp

lemma order_fold_changed:
  assumes "fold (order_step held want) mvs (False, st) = (True, st')"
  shows "\<exists>mv \<in> set mvs. st (from_of mv) = None \<and> st' (from_of mv) \<noteq> None"
  using assms
proof (induction mvs arbitrary: st)
  case (Cons mv mvs)
  obtain c1 s1 where s: "order_step held want mv (False, st) = (c1, s1)" by fastforce
  show ?case
  proof (cases c1)
    case True
    then have "st (from_of mv) = None" "s1 (from_of mv) \<noteq> None"
      using s by (auto simp: order_step_def split: option.splits if_splits)
    moreover have "s1 \<subseteq>\<^sub>m st'" using Cons.prems s order_fold_mono by fastforce
    ultimately show ?thesis by (metis list.set_intros(1) map_le_def domI domIff)
  next
    case False
    then have "s1 = st" using s by (auto simp: order_step_def split: option.splits if_splits)
    with Cons s False show ?thesis by fastforce
  qed
qed simp

lemma unplaced_less:
  assumes "st \<subseteq>\<^sub>m st'" "mv \<in> set mvs" "st (from_of mv) = None" "st' (from_of mv) \<noteq> None"
  shows "length (unplaced mvs st') < length (unplaced mvs st)"
  unfolding unplaced_def
proof (rule length_filter_strict [of _ _ _ mv])
  show "st' (from_of x) = None \<Longrightarrow> st (from_of x) = None" for x
    using assms(1) by (metis map_le_def domI domIff)
qed (use assms in auto)

function order_loop ::
  "(string \<Rightarrow> nat) \<Rightarrow> (string \<rightharpoonup> name) \<Rightarrow> rename list \<Rightarrow> (string \<rightharpoonup> nat) \<Rightarrow> (string \<rightharpoonup> nat)" where
  "order_loop held want ordered step =
     (case fold (order_step held want) ordered (False, step) of
        (changed, step') \<Rightarrow> if changed then order_loop held want ordered step' else step')"
  by pat_completeness auto
termination
proof (relation "measure (\<lambda>(held, want, ordered, step). length (unplaced ordered step))", goal_cases)
  case (2 held want ordered step c st)
  then have f: "fold (order_step held want) ordered (False, step) = (True, st)" by simp
  from order_fold_changed [OF f] order_fold_mono [OF f] show ?case
    by (auto intro: unplaced_less)
qed simp

declare order_loop.simps [simp del]

definition grant_step ::
  "(string \<rightharpoonup> name) \<Rightarrow> (string \<rightharpoonup> nat) \<Rightarrow> rename \<Rightarrow> rename list \<times> (string \<rightharpoonup> reason)
   \<Rightarrow> rename list \<times> (string \<rightharpoonup> reason)" where
  "grant_step want step mv = (\<lambda>(granted, refused).
     (case want (from_of mv) of
        None \<Rightarrow> (granted, refused)
      | Some to \<Rightarrow>
          (case step (from_of mv) of
             None \<Rightarrow> (granted, refused(from_of mv \<mapsto> WaitingForThis (String to)))
           | Some _ \<Rightarrow> (granted @ [\<lparr>From = From mv, To = to\<rparr>], refused))))"

definition step_at :: "(string \<rightharpoonup> nat) \<Rightarrow> rename \<Rightarrow> nat" where
  "step_at step mv = (case step (from_of mv) of None \<Rightarrow> 0 | Some k \<Rightarrow> k)"

definition grantMoves ::
  "rename list \<Rightarrow> (string \<Rightarrow> nat) \<Rightarrow> rename list \<times> (string \<rightharpoonup> reason)" where
  "grantMoves moves held =
     (if moves = [] then ([], Map.empty)
      else
        let ordered = sort_by (\<lambda>a b. less (From a) (From b)) moves;
            (refused, claimed, want) = fold claim_step ordered (Map.empty, Map.empty, Map.empty);
            (refused, want) = taken_loop held ordered refused want;
            step = order_loop held want ordered Map.empty;
            (granted, refused) = fold (grant_step want step) ordered ([], refused)
        in (sort_by (\<lambda>a b. step_at step a < step_at step b) granted, refused))"


section \<open>What each loop leaves\<close>

definition claims_ok :: "rename list \<Rightarrow> (string \<rightharpoonup> reason) \<times> (string \<rightharpoonup> string) \<times> (string \<rightharpoonup> name) \<Rightarrow> bool" where
  "claims_ok xs = (\<lambda>(r, cl, w).
     (\<forall>mv \<in> set xs. w (from_of mv) = Some (To mv) \<and> cl (to_of mv) = Some (from_of mv)
        \<or> w (from_of mv) = None \<and> r (from_of mv) \<noteq> None \<and> cl (to_of mv) \<noteq> None)
   \<and> (\<forall>t f. cl t = Some f \<longrightarrow> (\<exists>mv \<in> set xs. from_of mv = f \<and> to_of mv = t \<and> w f = Some (To mv)))
   \<and> (\<forall>f. w f \<noteq> None \<longrightarrow> f \<in> from_of ` set xs))"

lemma claims_ok_step:
  assumes "claims_ok xs s" "from_of x \<notin> from_of ` set xs"
  shows "claims_ok (xs @ [x]) (claim_step x s)"
proof -
  obtain r cl w where s: "s = (r, cl, w)" by (metis prod_cases3)
  have nf: "from_of mv \<noteq> from_of x" if "mv \<in> set xs" for mv
    using assms(2) that by (metis imageI)
  have wx: "w (from_of x) = None" using assms s unfolding claims_ok_def by blast
  show ?thesis
  proof (cases "cl (to_of x)")
    case None
    have nt: "w (from_of mv) = Some (To mv) \<Longrightarrow> mv \<in> set xs \<Longrightarrow> to_of mv \<noteq> to_of x" for mv
      using assms(1) None s nf wx unfolding claims_ok_def by auto
    show ?thesis
      using assms(1) None s nf unfolding claims_ok_def claim_step_def
      by (auto split: if_splits) (metis option.distinct(1))+
  next
    case (Some f)
    then show ?thesis
      using assms(1) s nf wx unfolding claims_ok_def claim_step_def by fastforce
  qed
qed

lemma claims_ok_fold:
  "distinct (map from_of xs) \<Longrightarrow> claims_ok xs (fold claim_step xs (Map.empty, Map.empty, Map.empty))"
proof (induction xs rule: rev_induct)
  case Nil
  then show ?case by (simp add: claims_ok_def)
next
  case (snoc x xs)
  then show ?case using claims_ok_step [of xs _ x] by auto
qed

definition dropped_ok ::
  "(string \<Rightarrow> nat) \<Rightarrow> (string \<rightharpoonup> reason) \<Rightarrow> (string \<rightharpoonup> name) \<Rightarrow> (string \<rightharpoonup> reason) \<Rightarrow> (string \<rightharpoonup> name) \<Rightarrow> bool" where
  "dropped_ok held r0 w0 r w \<longleftrightarrow>
     w \<subseteq>\<^sub>m w0 \<and> (\<forall>f. r0 f \<noteq> None \<longrightarrow> r f \<noteq> None)
   \<and> (\<forall>f t. w0 f = Some t \<and> w f = None \<longrightarrow> held (String t) \<noteq> 0 \<and> w (String t) = None \<and> r f \<noteq> None)"

lemma dropped_ok_step:
  assumes "dropped_ok held r0 w0 r w" "taken_step held mv (c, r, w) = (c', r', w')"
  shows "dropped_ok held r0 w0 r' w'"
proof (cases "r' = r \<and> w' = w")
  case True
  with assms(1) show ?thesis by simp
next
  case False
  then obtain t where t: "w (from_of mv) = Some t" "held (String t) \<noteq> 0" "w (String t) = None"
    "r' = r(from_of mv \<mapsto> NameTaken (String t))" "w' = w(from_of mv := None)"
    using assms(2) by (auto simp: taken_step_def split: option.splits if_splits)
  from t(1) assms(1) have "w0 (from_of mv) = Some t"
    unfolding dropped_ok_def map_le_def by (metis domI)
  with t assms(1) show ?thesis
    unfolding dropped_ok_def map_le_def by auto
qed

lemma dropped_ok_fold:
  "dropped_ok held r0 w0 r w \<Longrightarrow> fold (taken_step held) mvs (c, r, w) = (c', r', w') \<Longrightarrow>
   dropped_ok held r0 w0 r' w'"
proof (induction mvs arbitrary: c r w)
  case (Cons mv mvs)
  obtain c1 r1 w1 where s: "taken_step held mv (c, r, w) = (c1, r1, w1)" by (metis prod_cases3)
  have "dropped_ok held r0 w0 r1 w1" using dropped_ok_step [OF Cons.prems(1) s] .
  then show ?case using Cons.IH [of r1 w1 c1] Cons.prems(2) s by simp
qed simp

lemma taken_fold_still:
  "fold (taken_step held) mvs (False, r, w) = (False, r', w') \<Longrightarrow>
   w' = w \<and> r' = r \<and> (\<forall>mv \<in> set mvs. \<forall>t. w (from_of mv) = Some t \<longrightarrow> held (String t) = 0 \<or> w (String t) \<noteq> None)"
proof (induction mvs arbitrary: r w)
  case (Cons mv mvs)
  obtain c1 r1 w1 where s: "taken_step held mv (False, r, w) = (c1, r1, w1)" by (metis prod_cases3)
  have "\<not> c1" using Cons.prems s taken_fold_mono by fastforce
  then have same: "w1 = w" "r1 = r"
    "\<forall>t. w (from_of mv) = Some t \<longrightarrow> held (String t) = 0 \<or> w (String t) \<noteq> None"
    using s by (auto simp: taken_step_def split: option.splits if_splits)
  have "fold (taken_step held) mvs (False, r, w) = (False, r', w')"
    using Cons.prems s same(1,2) \<open>\<not> c1\<close> by simp
  from Cons.IH [OF this] same(3) show ?case unfolding list.set(2) by blast
qed simp

lemma taken_loop_facts:
  "taken_loop held ordered r w = (r', w') \<Longrightarrow> dropped_ok held r0 w0 r w \<Longrightarrow>
   dropped_ok held r0 w0 r' w'
   \<and> (\<forall>mv \<in> set ordered. \<forall>t. w' (from_of mv) = Some t \<longrightarrow> held (String t) = 0 \<or> w' (String t) \<noteq> None)"
proof (induction held ordered r w rule: taken_loop.induct)
  case (1 held ordered r w)
  obtain c r1 w1 where f: "fold (taken_step held) ordered (False, r, w) = (c, r1, w1)"
    by (metis prod_cases3)
  have d: "dropped_ok held r0 w0 r1 w1" by (rule dropped_ok_fold [OF "1.prems"(2) f])
  show ?case
  proof (cases c)
    case True
    with "1.IH" [OF f [symmetric] refl] "1.prems"(1) f d show ?thesis
      by (simp add: taken_loop.simps [of held ordered r w])
  next
    case False
    with "1.prems"(1) f have "r' = r1" "w' = w1"
      by (simp_all add: taken_loop.simps [of held ordered r w])
    moreover from f False have "fold (taken_step held) ordered (False, r, w) = (False, r1, w1)" by simp
    from taken_fold_still [OF this] d have "dropped_ok held r0 w0 r1 w1
      \<and> (\<forall>mv \<in> set ordered. \<forall>t. w1 (from_of mv) = Some t \<longrightarrow> held (String t) = 0 \<or> w1 (String t) \<noteq> None)"
      by simp
    ultimately show ?thesis by simp
  qed
qed

definition steps_ok :: "(string \<Rightarrow> nat) \<Rightarrow> (string \<rightharpoonup> name) \<Rightarrow> (string \<rightharpoonup> nat) \<Rightarrow> bool" where
  "steps_ok held w st \<longleftrightarrow>
     (\<forall>f k. st f = Some k \<longrightarrow> (\<exists>t. w f = Some t \<and>
        (held (String t) = 0 \<and> k = 0 \<or> held (String t) \<noteq> 0 \<and> (\<exists>p. st (String t) = Some p \<and> k = Suc p))))"

lemma steps_okD:
  "steps_ok held w st \<Longrightarrow> st f = Some k \<Longrightarrow> \<exists>t. w f = Some t \<and>
     (held (String t) = 0 \<and> k = 0 \<or> held (String t) \<noteq> 0 \<and> (\<exists>p. st (String t) = Some p \<and> k = Suc p))"
  unfolding steps_ok_def by blast

lemma steps_ok_step:
  assumes ok: "steps_ok held w st" and s: "order_step held w mv (c, st) = (c', st')"
  shows "steps_ok held w st'"
proof (cases "st' = st")
  case False
  then obtain t k where t: "w (from_of mv) = Some t" "st (from_of mv) = None" "st' = st(from_of mv \<mapsto> k)"
    "held (String t) = 0 \<and> k = 0 \<or> held (String t) \<noteq> 0 \<and> (\<exists>p. st (String t) = Some p \<and> k = Suc p)"
    using s by (auto simp: order_step_def split: option.splits if_splits)
  have grows: "st x = Some p \<Longrightarrow> st' x = Some p" for x p using t(2,3) by auto
  show ?thesis unfolding steps_ok_def
  proof (intro allI impI)
    fix f j assume j: "st' f = Some j"
    show "\<exists>u. w f = Some u \<and> (held (String u) = 0 \<and> j = 0
      \<or> held (String u) \<noteq> 0 \<and> (\<exists>p. st' (String u) = Some p \<and> j = Suc p))"
    proof (cases "f = from_of mv")
      case True
      with j t(3) have "j = k" by simp
      with True t grows show ?thesis by blast
    next
      case False
      with j t(3) have "st f = Some j" by simp
      from steps_okD [OF ok this] grows show ?thesis by blast
    qed
  qed
qed (use ok in simp)

lemma steps_ok_fold:
  "steps_ok held w st \<Longrightarrow> fold (order_step held w) mvs (c, st) = (c', st') \<Longrightarrow> steps_ok held w st'"
proof (induction mvs arbitrary: c st)
  case (Cons mv mvs)
  obtain c1 s1 where s: "order_step held w mv (c, st) = (c1, s1)" by fastforce
  have "steps_ok held w s1" using steps_ok_step [OF Cons.prems(1) s] .
  then show ?case using Cons.IH [of s1 c1] Cons.prems(2) s by simp
qed simp

lemma order_fold_still:
  "fold (order_step held w) mvs (False, st) = (False, st') \<Longrightarrow>
   st' = st \<and> (\<forall>mv \<in> set mvs. \<forall>t. w (from_of mv) = Some t \<and> st (from_of mv) = None
     \<longrightarrow> held (String t) \<noteq> 0 \<and> st (String t) = None)"
proof (induction mvs arbitrary: st)
  case (Cons mv mvs)
  obtain c1 s1 where s: "order_step held w mv (False, st) = (c1, s1)" by fastforce
  have "\<not> c1" using Cons.prems s order_fold_mono by fastforce
  then have same: "s1 = st" "\<forall>t. w (from_of mv) = Some t \<and> st (from_of mv) = None
     \<longrightarrow> held (String t) \<noteq> 0 \<and> st (String t) = None"
    using s by (auto simp: order_step_def split: option.splits if_splits)
  have "fold (order_step held w) mvs (False, st) = (False, st')"
    using Cons.prems s same(1) \<open>\<not> c1\<close> by simp
  from Cons.IH [OF this] same(2) show ?case unfolding list.set(2) by blast
qed simp

lemma order_loop_facts:
  "steps_ok held w st \<Longrightarrow> order_loop held w ordered st = st' \<Longrightarrow> steps_ok held w st'
   \<and> (\<forall>mv \<in> set ordered. \<forall>t. w (from_of mv) = Some t \<and> st' (from_of mv) = None
        \<longrightarrow> held (String t) \<noteq> 0 \<and> st' (String t) = None)"
proof (induction held w ordered st rule: order_loop.induct)
  case (1 held w ordered st)
  obtain c s1 where f: "fold (order_step held w) ordered (False, st) = (c, s1)" by fastforce
  have d: "steps_ok held w s1" by (rule steps_ok_fold [OF "1.prems"(1) f])
  show ?case
  proof (cases c)
    case True
    with "1.IH" [OF f [symmetric]] "1.prems"(2) f d show ?thesis
      by (simp add: order_loop.simps [of held w ordered st])
  next
    case False
    with "1.prems"(2) f have "st' = s1" by (simp add: order_loop.simps [of held w ordered st])
    moreover from f False have "fold (order_step held w) ordered (False, st) = (False, s1)" by simp
    from order_fold_still [OF this] d have "steps_ok held w s1
      \<and> (\<forall>mv \<in> set ordered. \<forall>t. w (from_of mv) = Some t \<and> s1 (from_of mv) = None
        \<longrightarrow> held (String t) \<noteq> 0 \<and> s1 (String t) = None)"
      by simp
    ultimately show ?thesis by simp
  qed
qed

lemma grant_fold:
  assumes "\<forall>mv \<in> set xs. \<forall>t. w (from_of mv) = Some t \<longrightarrow> t = To mv"
  shows "fold (grant_step w st) xs (g, r) =
    (g @ filter (\<lambda>mv. w (from_of mv) \<noteq> None \<and> st (from_of mv) \<noteq> None) xs,
     fold (\<lambda>mv r. if w (from_of mv) \<noteq> None \<and> st (from_of mv) = None
                    then r(from_of mv \<mapsto> WaitingForThis (to_of mv)) else r) xs r)"
  using assms
proof (induction xs arbitrary: g r)
  case (Cons x xs)
  then show ?case by (cases x) (auto simp: grant_step_def split: option.split)
qed simp

lemma waiting_fold:
  "fold (\<lambda>mv r. if P mv then r(from_of mv \<mapsto> q mv) else r) xs r f \<noteq> None
   \<longleftrightarrow> r f \<noteq> None \<or> (\<exists>mv \<in> set xs. P mv \<and> from_of mv = f)"
  by (induction xs arbitrary: r) auto


section \<open>What is granted and what is refused\<close>

text \<open>
  The facts the two theorems below rest on, gathered over the map \<open>w\<close> of moves left
  standing and the map \<open>st\<close> of the steps they were given.
\<close>

definition granting ::
  "rename list \<Rightarrow> (string \<Rightarrow> nat) \<Rightarrow> rename list \<Rightarrow> (string \<rightharpoonup> name) \<Rightarrow> (string \<rightharpoonup> nat) \<Rightarrow> bool" where
  "granting moves held G w st \<longleftrightarrow>
     set G = {mv \<in> set moves. w (from_of mv) \<noteq> None \<and> st (from_of mv) \<noteq> None}
   \<and> distinct (map from_of G)
   \<and> sorted_wrt (\<lambda>a b. step_at st a \<le> step_at st b) G
   \<and> (\<forall>mv \<in> set moves. \<forall>t. w (from_of mv) = Some t \<longrightarrow> t = To mv)
   \<and> (\<forall>a \<in> set moves. \<forall>b \<in> set moves.
        w (from_of a) \<noteq> None \<and> w (from_of b) \<noteq> None \<and> to_of a = to_of b \<longrightarrow> a = b)
   \<and> (\<forall>f. w f \<noteq> None \<longrightarrow> f \<in> from_of ` set moves)
   \<and> steps_ok held w st
   \<and> (\<forall>mv \<in> set moves. w (from_of mv) \<noteq> None \<and> st (from_of mv) = None
        \<longrightarrow> held (to_of mv) \<noteq> 0 \<and> st (to_of mv) = None)
   \<and> (\<forall>mv \<in> set moves. w (from_of mv) = None
        \<longrightarrow> held (to_of mv) \<noteq> 0 \<and> w (to_of mv) = None
          \<or> (\<exists>win \<in> set moves. to_of win = to_of mv \<and> w (from_of win) \<noteq> None))"

lemma inj_from: "distinct (map from_of mvs) \<Longrightarrow> a \<in> set mvs \<Longrightarrow> b \<in> set mvs \<Longrightarrow> from_of a = from_of b \<Longrightarrow> a = b"
  by (metis distinct_map inj_onD)

lemma standing_facts:
  assumes d: "distinct (map from_of ord)"
    and cl: "claims_ok ord (r0, cl, w0)" and dr: "dropped_ok held r0 w0 r w"
  shows "(\<forall>mv \<in> set ord. \<forall>t. w (from_of mv) = Some t \<longrightarrow> t = To mv)
   \<and> (\<forall>a \<in> set ord. \<forall>b \<in> set ord.
        w (from_of a) \<noteq> None \<and> w (from_of b) \<noteq> None \<and> to_of a = to_of b \<longrightarrow> a = b)
   \<and> (\<forall>f. w f \<noteq> None \<longrightarrow> f \<in> from_of ` set ord)
   \<and> (\<forall>mv \<in> set ord. w (from_of mv) = None
        \<longrightarrow> held (to_of mv) \<noteq> 0 \<and> w (to_of mv) = None
          \<or> (\<exists>win \<in> set ord. to_of win = to_of mv \<and> w (from_of win) \<noteq> None))
   \<and> (\<forall>mv \<in> set ord. w (from_of mv) = None \<longrightarrow> r (from_of mv) \<noteq> None)"
proof -
  have sub: "w f = Some t \<Longrightarrow> w0 f = Some t" for f t
    using dr unfolding dropped_ok_def map_le_def by (metis domI)
  have either: "w0 (from_of mv) = Some (To mv) \<and> cl (to_of mv) = Some (from_of mv)
    \<or> w0 (from_of mv) = None \<and> r0 (from_of mv) \<noteq> None \<and> cl (to_of mv) \<noteq> None" if "mv \<in> set ord" for mv
    using cl that unfolding claims_ok_def by blast
  have winner: "\<exists>win \<in> set ord. from_of win = f \<and> to_of win = t \<and> w0 f = Some (To win)" if "cl t = Some f" for t f
    using cl that unfolding claims_ok_def by blast
  have 1: "t = To mv" if "mv \<in> set ord" "w (from_of mv) = Some t" for mv t
    using either [OF that(1)] sub [OF that(2)] by auto
  have 2: "a = b" if "a \<in> set ord" "b \<in> set ord" "w (from_of a) \<noteq> None" "w (from_of b) \<noteq> None" "to_of a = to_of b" for a b
  proof -
    have "cl (to_of a) = Some (from_of a)" "cl (to_of b) = Some (from_of b)"
      using either that(1-4) sub by (metis not_None_eq option.distinct(1))+
    with that d show ?thesis by (auto intro: inj_from)
  qed
  have 3: "f \<in> from_of ` set ord" if "w f \<noteq> None" for f
    using cl that sub unfolding claims_ok_def by blast
  have dropped: "held (to_of mv) \<noteq> 0 \<and> w (to_of mv) = None \<and> r (from_of mv) \<noteq> None"
    if "w0 (from_of mv) = Some (To mv)" "w (from_of mv) = None" for mv
    using dr that unfolding dropped_ok_def by blast
  have 4: "held (to_of mv) \<noteq> 0 \<and> w (to_of mv) = None
          \<or> (\<exists>win \<in> set ord. to_of win = to_of mv \<and> w (from_of win) \<noteq> None)"
    if mv: "mv \<in> set ord" "w (from_of mv) = None" for mv
  proof (cases "w0 (from_of mv)")
    case None
    with either [OF mv(1)] obtain f where "cl (to_of mv) = Some f" by auto
    from winner [OF this] obtain win where
      win: "win \<in> set ord" "to_of win = to_of mv" "w0 (from_of win) = Some (To win)" by auto
    show ?thesis using win dropped [OF win(3)] by (cases "w (from_of win)") auto
  next
    case (Some t)
    with either [OF mv(1)] dropped mv show ?thesis by auto
  qed
  have 5: "r (from_of mv) \<noteq> None" if "mv \<in> set ord" "w (from_of mv) = None" for mv
    using either [OF that(1)] dropped that(2) dr unfolding dropped_ok_def by blast
  from 1 2 3 4 5 show ?thesis by blast
qed

lemma grantMoves_facts:
  assumes d: "distinct (map from_of moves)" and g: "grantMoves moves held = (G, R)"
  shows "\<exists>w st. granting moves held G w st \<and> (\<forall>mv \<in> set moves. mv \<notin> set G \<longrightarrow> R (from_of mv) \<noteq> None)"
proof (cases "moves = []")
  case True
  with g show ?thesis
    by (intro exI [of _ Map.empty]) (simp add: grantMoves_def granting_def steps_ok_def)
next
  case False
  define ord where "ord = sort_by (\<lambda>a b. less (From a) (From b)) moves"
  have d': "distinct (map from_of ord)" using d by (simp add: ord_def)
  have set_ord: "set ord = set moves" by (simp add: ord_def)
  obtain r0 cl w0 where c: "fold claim_step ord (Map.empty, Map.empty, Map.empty) = (r0, cl, w0)"
    by (metis prod_cases3)
  obtain r w where t: "taken_loop held ord r0 w0 = (r, w)" by fastforce
  define st where "st = order_loop held w ord Map.empty"
  define F where "F = filter (\<lambda>mv. w (from_of mv) \<noteq> None \<and> st (from_of mv) \<noteq> None) ord"
  have cl: "claims_ok ord (r0, cl, w0)" using claims_ok_fold [OF d'] c by simp
  have dr: "dropped_ok held r0 w0 r w"
  proof -
    have "dropped_ok held r0 w0 r0 w0" by (auto simp: dropped_ok_def map_le_def)
    with taken_loop_facts [OF t] show ?thesis by blast
  qed
  note sf = standing_facts [OF d' cl dr]
  have so: "steps_ok held w st" "\<forall>mv \<in> set ord. \<forall>t. w (from_of mv) = Some t \<and> st (from_of mv) = None
        \<longrightarrow> held (String t) \<noteq> 0 \<and> st (String t) = None"
    using order_loop_facts [of held w Map.empty ord st] by (simp_all add: st_def steps_ok_def)
  have GR: "G = sort_by (\<lambda>a b. step_at st a < step_at st b) F"
    "R = fold (\<lambda>mv r. if w (from_of mv) \<noteq> None \<and> st (from_of mv) = None
                    then r(from_of mv \<mapsto> WaitingForThis (to_of mv)) else r) ord r"
    using g False c t sf grant_fold [of ord w st "[]" r]
    by (simp_all add: grantMoves_def Let_def ord_def [symmetric] st_def [symmetric] F_def)
  have "granting moves held G w st"
    unfolding granting_def
  proof (intro conjI)
    show "set G = {mv \<in> set moves. w (from_of mv) \<noteq> None \<and> st (from_of mv) \<noteq> None}"
      using set_ord by (auto simp: GR(1) F_def)
    show "distinct (map from_of G)"
      using d' by (simp add: GR(1) F_def distinct_map_filter_inj)
    show "sorted_wrt (\<lambda>a b. step_at st a \<le> step_at st b) G"
      using comparator.sorted_sort_by [OF comparator_key, of "step_at st" F] by (simp add: GR(1) not_less)
    show "\<forall>mv \<in> set moves. w (from_of mv) \<noteq> None \<and> st (from_of mv) = None
        \<longrightarrow> held (to_of mv) \<noteq> 0 \<and> st (to_of mv) = None"
      using so(2) sf set_ord by (metis not_None_eq)
  qed (use sf set_ord so(1) in simp_all)
  moreover have "R (from_of mv) \<noteq> None" if mv: "mv \<in> set moves" "mv \<notin> set G" for mv
  proof -
    have "w (from_of mv) = None \<or> st (from_of mv) = None"
      using mv set_ord by (auto simp: GR(1) F_def)
    with sf mv set_ord show ?thesis unfolding GR(2) waiting_fold by blast
  qed
  ultimately show ?thesis by blast
qed


section \<open>The granted renames can be applied one at a time\<close>

text \<open>
  What niri does with a rename: it addresses the one workspace carrying the old name, and
  refuses a new name something already carries. \<open>names\<close> is the names in use, one
  occurrence per workspace.
\<close>

definition rename_one :: "rename \<Rightarrow> string list \<Rightarrow> string list option" where
  "rename_one r names =
     (if count_list names (from_of r) = 1 \<and> to_of r \<notin> set names
      then Some (map (\<lambda>s. if s = from_of r then to_of r else s) names) else None)"

fun rename_all :: "rename list \<Rightarrow> string list \<Rightarrow> string list option" where
  "rename_all [] names = Some names"
| "rename_all (r # rs) names =
     (case rename_one r names of None \<Rightarrow> None | Some names' \<Rightarrow> rename_all rs names')"

definition renamed :: "rename list \<Rightarrow> string \<Rightarrow> string" where
  "renamed rs s = (case find (\<lambda>r. from_of r = s) rs of None \<Rightarrow> s | Some r \<Rightarrow> to_of r)"

lemma find_from_None: "find (\<lambda>r. from_of r = s) rs = None \<longleftrightarrow> s \<notin> from_of ` set rs"
  by (auto simp: find_None_iff)

lemma find_append: "find P (xs @ ys) = (case find P xs of None \<Rightarrow> find P ys | Some x \<Rightarrow> Some x)"
  by (induction xs) auto

lemma renamed_snoc:
  "renamed (ps @ [r]) s = (if s \<in> from_of ` set ps then renamed ps s else if from_of r = s then to_of r else s)"
proof (cases "find (\<lambda>r. from_of r = s) ps")
  case None
  then show ?thesis using find_from_None [of s ps] by (simp add: renamed_def find_append)
next
  case (Some p)
  then have "s \<in> from_of ` set ps" using find_from_None [of s ps] by (metis option.distinct(1))
  with Some show ?thesis by (simp add: renamed_def find_append)
qed

lemma renamed_other: "s \<notin> from_of ` set rs \<Longrightarrow> renamed rs s = s"
  by (simp add: renamed_def find_from_None [THEN iffD2])

lemma renamed_cases:
  "s \<notin> from_of ` set rs \<and> renamed rs s = s \<or> (\<exists>p \<in> set rs. from_of p = s \<and> renamed rs s = to_of p)"
proof (cases "find (\<lambda>r. from_of r = s) rs")
  case None
  then show ?thesis using find_from_None [of s rs] by (simp add: renamed_def)
next
  case (Some p)
  then have "p \<in> set rs \<and> from_of p = s" by (auto simp: find_Some_iff)
  with Some show ?thesis by (auto simp: renamed_def)
qed

lemma renamed_at: "distinct (map from_of rs) \<Longrightarrow> r \<in> set rs \<Longrightarrow> renamed rs (from_of r) = to_of r"
  using renamed_cases [of "from_of r" rs] inj_from [of rs] by (metis imageI)

lemma count_list_map_iff:
  "(\<And>s. s \<in> set xs \<Longrightarrow> f s = y \<longleftrightarrow> s = y) \<Longrightarrow> count_list (map f xs) y = count_list xs y"
  by (induction xs) auto

lemma grantingD:
  assumes "granting moves held G w st" "a \<in> set G"
  shows "a \<in> set moves" "w (from_of a) = Some (To a)" "st (from_of a) = Some (step_at st a)"
    "held (to_of a) = 0 \<or> (\<exists>b \<in> set G. from_of b = to_of a \<and> step_at st b < step_at st a)"
proof -
  have G: "set G = {mv \<in> set moves. w (from_of mv) \<noteq> None \<and> st (from_of mv) \<noteq> None}"
    and W: "\<forall>mv \<in> set moves. \<forall>t. w (from_of mv) = Some t \<longrightarrow> t = To mv"
    using assms(1) unfolding granting_def by blast+
  show m: "a \<in> set moves" using G assms(2) by blast
  have "w (from_of a) \<noteq> None" and st: "st (from_of a) \<noteq> None" using G assms(2) by blast+
  with W m show w: "w (from_of a) = Some (To a)" by blast
  show s: "st (from_of a) = Some (step_at st a)" using st by (auto simp: step_at_def)
  have ok: "steps_ok held w st" and F: "\<forall>f. w f \<noteq> None \<longrightarrow> f \<in> from_of ` set moves"
    using assms(1) unfolding granting_def by blast+
  from steps_okD [OF ok s] w consider "held (to_of a) = 0"
    | p where "st (to_of a) = Some p" "step_at st a = Suc p" by auto
  then show "held (to_of a) = 0 \<or> (\<exists>b \<in> set G. from_of b = to_of a \<and> step_at st b < step_at st a)"
  proof cases
    case (2 p)
    from steps_okD [OF ok 2(1)] obtain t where "w (to_of a) = Some t" by blast
    then have "w (to_of a) \<noteq> None" by simp
    with F have "to_of a \<in> from_of ` set moves" by blast
    then obtain b where b: "b \<in> set moves" "to_of a = from_of b" by (rule imageE)
    have "step_at st b = p" using 2(1) by (simp add: step_at_def b(2) [symmetric])
    moreover have "w (from_of b) \<noteq> None \<and> st (from_of b) \<noteq> None"
      using 2(1) \<open>w (to_of a) \<noteq> None\<close> by (simp add: b(2) [symmetric])
    then have "b \<in> set G" using G b(1) by blast
    ultimately show ?thesis using b(2) 2(2) by (intro disjI2 bexI [of _ b]) simp_all
  qed simp
qed

lemma granted_chain_order:
  assumes g: "granting moves held G w st" and a: "a \<in> set G" and b: "b \<in> set G"
    and "from_of b = to_of a" "held (from_of b) \<noteq> 0"
  shows "step_at st b < step_at st a"
  using grantingD(4) [OF g a] assms(4,5) inj_from [of G] g b unfolding granting_def by metis

lemma granted_prefix_applies:
  assumes g: "granting moves held G w st"
    and one: "\<And>mv. mv \<in> set moves \<Longrightarrow> count_list names (from_of mv) = 1"
    and held: "\<And>s. held s = count_list names s"
  shows "G = ps @ rs \<Longrightarrow> rename_all rs (map (renamed ps) names) = Some (map (renamed G) names)"
proof (induction rs arbitrary: ps)
  case (Cons r rs)
  have G: "set G = set ps \<union> insert r (set rs)" using Cons.prems by auto
  have dist: "distinct (map from_of G)" using g unfolding granting_def by blast
  have inj2: "\<forall>a \<in> set moves. \<forall>b \<in> set moves.
        w (from_of a) \<noteq> None \<and> w (from_of b) \<noteq> None \<and> to_of a = to_of b \<longrightarrow> a = b"
    using g unfolding granting_def by blast
  have inj: "a = b" if "a \<in> set G" "b \<in> set G" "to_of a = to_of b" for a b
    using inj2 grantingD(1,2) [OF g that(1)] grantingD(1,2) [OF g that(2)] that(3) by blast
  have r_new: "from_of r \<notin> from_of ` set ps" using dist Cons.prems by auto
  have early: "step_at st p \<le> step_at st r" if "p \<in> set ps" for p
    using g Cons.prems that unfolding granting_def by (auto simp: sorted_wrt_append)
  have late: "step_at st r \<le> step_at st b" if "b \<in> insert r (set rs)" for b
    using g Cons.prems that unfolding granting_def by (auto simp: sorted_wrt_append)
  have heldr: "held (from_of r) \<noteq> 0" using one grantingD(1) [OF g] G held by force
  have from_r: "renamed ps s = from_of r \<longleftrightarrow> s = from_of r" for s
  proof
    assume s: "renamed ps s = from_of r"
    from renamed_cases [of s ps] show "s = from_of r"
    proof
      assume "\<exists>p \<in> set ps. from_of p = s \<and> renamed ps s = to_of p"
      then obtain p where p: "p \<in> set ps" "to_of p = from_of r" using s by auto
      have "step_at st r < step_at st p"
        by (rule granted_chain_order [OF g]) (use p G heldr in auto)
      with early [OF p(1)] show ?thesis by simp
    qed (use s in auto)
  qed (use r_new renamed_other in auto)
  have "count_list (map (renamed ps) names) (from_of r) = 1"
    using count_list_map_iff [of names "renamed ps" "from_of r"] from_r one [of r] grantingD(1) [OF g, of r] G by simp
  moreover have "to_of r \<notin> set (map (renamed ps) names)"
  proof
    assume "to_of r \<in> set (map (renamed ps) names)"
    then obtain s where s: "s \<in> set names" "renamed ps s = to_of r" by auto
    from renamed_cases [of s ps] show False
    proof
      assume no: "s \<notin> from_of ` set ps \<and> renamed ps s = s"
      then have "held (to_of r) \<noteq> 0" using s held by (simp add: count_list_0_iff)
      then obtain b where b: "b \<in> set G" "from_of b = to_of r" "step_at st b < step_at st r"
        using grantingD(4) [OF g, of r] G by auto
      then have "b \<in> set ps" using late G by fastforce
      with b no s show False by force
    next
      assume "\<exists>p \<in> set ps. from_of p = s \<and> renamed ps s = to_of p"
      then obtain p where "p \<in> set ps" "to_of p = to_of r" using s by auto
      with inj [of p r] G r_new show False by auto
    qed
  qed
  moreover have "(if renamed ps s = from_of r then to_of r else renamed ps s) = renamed (ps @ [r]) s" for s
    using from_r [of s] r_new by (simp add: renamed_snoc) (metis renamed_other)
  ultimately have "rename_one r (map (renamed ps) names) = Some (map (renamed (ps @ [r])) names)"
    by (simp add: rename_one_def comp_def)
  with Cons.IH [of "ps @ [r]"] Cons.prems show ?case by simp
qed simp

lemma granted_applies:
  assumes "granting moves held G w st"
    and "\<And>mv. mv \<in> set moves \<Longrightarrow> count_list names (from_of mv) = 1"
    and "\<And>s. held s = count_list names s"
  shows "rename_all G names = Some (map (renamed G) names)"
proof -
  have "map (renamed []) names = names" by (intro map_idI) (simp add: renamed_def)
  with granted_prefix_applies [OF assms, of "[]" G] show ?thesis by simp
qed

text \<open>A refused move's target is in use once the granted ones have been made.\<close>

lemma refused_target_in_use:
  assumes g: "granting moves held G w st" and held: "\<And>s. held s = count_list names s"
    and one: "\<And>mv. mv \<in> set moves \<Longrightarrow> count_list names (from_of mv) = 1"
    and mv: "mv \<in> set moves" "mv \<notin> set G"
  shows "to_of mv \<in> renamed G ` set names"
proof -
  have stays: "t \<in> renamed G ` set names" if "held t \<noteq> 0" "\<And>b. b \<in> set G \<Longrightarrow> from_of b \<noteq> t" for t
  proof -
    have "t \<in> set names" using that(1) held by (simp add: count_list_0_iff)
    moreover have "renamed G t = t" using that(2) by (auto intro: renamed_other)
    ultimately show ?thesis by (metis imageI)
  qed
  have waiting: "to_of a \<in> renamed G ` set names" if a: "a \<in> set moves" "w (from_of a) \<noteq> None" for a
  proof (cases "a \<in> set G")
    case True
    have "from_of a \<in> set names"
      using one [OF a(1)] by (metis count_list_0_iff zero_neq_one)
    moreover have "renamed G (from_of a) = to_of a"
      using g True by (auto simp: granting_def intro: renamed_at)
    ultimately show ?thesis by (metis imageI)
  next
    case False
    then have "st (from_of a) = None" using g a unfolding granting_def by auto
    then have "held (to_of a) \<noteq> 0" "st (to_of a) = None" using g a unfolding granting_def by blast+
    then show ?thesis using stays grantingD(3) [OF g] by (metis option.distinct(1))
  qed
  show ?thesis
  proof (cases "w (from_of mv)")
    case None
    with g mv have "held (to_of mv) \<noteq> 0 \<and> w (to_of mv) = None
          \<or> (\<exists>win \<in> set moves. to_of win = to_of mv \<and> w (from_of win) \<noteq> None)"
      unfolding granting_def by blast
    then show ?thesis
    proof
      assume "held (to_of mv) \<noteq> 0 \<and> w (to_of mv) = None"
      then show ?thesis using stays grantingD(2) [OF g] by (metis option.distinct(1))
    qed (use waiting in metis)
  qed (use waiting mv in simp)
qed


text \<open>Two names in use never end up as one, and the renames touch no name that is not in use.\<close>

lemma granted_inj:
  assumes g: "granting moves held G w st"
    and s: "held s \<noteq> 0" and t: "held t \<noteq> 0" and eq: "renamed G s = renamed G t"
  shows "s = t"
proof -
  have onto: False if p: "p \<in> set G" "to_of p = u" "held u \<noteq> 0" "u \<notin> from_of ` set G" for p u
    using grantingD(4) [OF g p(1)] p by (metis image_eqI)
  have inj2: "\<forall>a \<in> set moves. \<forall>b \<in> set moves.
        w (from_of a) \<noteq> None \<and> w (from_of b) \<noteq> None \<and> to_of a = to_of b \<longrightarrow> a = b"
    using g unfolding granting_def by blast
  have inj: "a = b" if "a \<in> set G" "b \<in> set G" "to_of a = to_of b" for a b
    using inj2 grantingD(1,2) [OF g that(1)] grantingD(1,2) [OF g that(2)] that(3) by blast
  from renamed_cases [of s G] renamed_cases [of t G] show ?thesis
  proof (elim disjE conjE bexE)
    fix p assume "s \<notin> from_of ` set G" "renamed G s = s" "p \<in> set G" "from_of p = t" "renamed G t = to_of p"
    then show ?thesis using onto [of p s] eq s by metis
  next
    fix p assume "t \<notin> from_of ` set G" "renamed G t = t" "p \<in> set G" "from_of p = s" "renamed G s = to_of p"
    then show ?thesis using onto [of p t] eq t by metis
  next
    fix p q assume "p \<in> set G" "from_of p = s" "renamed G s = to_of p" "q \<in> set G" "from_of q = t" "renamed G t = to_of q"
    then show ?thesis using inj [of p q] eq by metis
  qed (use eq in metis)
qed

text \<open>When every move's target is in use and stays, nothing is granted.\<close>

lemma granting_none:
  assumes g: "granting moves held G w st"
    and stuck: "\<And>mv. mv \<in> set moves \<Longrightarrow> held (to_of mv) \<noteq> 0"
  shows "G = []"
proof (rule ccontr)
  assume "G \<noteq> []"
  then obtain a where a: "a \<in> set G" "\<And>b. b \<in> set G \<Longrightarrow> step_at st a \<le> step_at st b"
    using ex_min_if_finite [of "step_at st ` set G"] by (auto simp: image_iff) (metis linorder_not_less)
  with grantingD(1,4) [OF g a(1)] stuck show False by (auto dest: leD)
qed

text \<open>The facts together, for the callers.\<close>

lemma grantMoves_ok:
  assumes d: "distinct (map from_of moves)"
    and one: "\<And>mv. mv \<in> set moves \<Longrightarrow> count_list names (from_of mv) = 1"
    and g: "grantMoves moves (count_list names) = (G, R)"
  shows "set G \<subseteq> set moves" "distinct (map from_of G)"
    "rename_all G names = Some (map (renamed G) names)" "inj_on (renamed G) (set names)"
    "\<And>mv. mv \<in> set moves \<Longrightarrow> mv \<notin> set G \<Longrightarrow> R (from_of mv) \<noteq> None"
    "\<And>mv. mv \<in> set moves \<Longrightarrow> mv \<notin> set G \<Longrightarrow> to_of mv \<in> renamed G ` set names"
    "(\<And>mv. mv \<in> set moves \<Longrightarrow> to_of mv \<in> set names) \<Longrightarrow> G = []"
proof -
  from grantMoves_facts [OF d g] obtain w st where
    gr: "granting moves (count_list names) G w st"
    and r: "\<forall>mv \<in> set moves. mv \<notin> set G \<longrightarrow> R (from_of mv) \<noteq> None" by blast
  show "set G \<subseteq> set moves" using grantingD(1) [OF gr] by blast
  show "distinct (map from_of G)" using gr unfolding granting_def by blast
  show "rename_all G names = Some (map (renamed G) names)" by (rule granted_applies [OF gr one refl])
  show "inj_on (renamed G) (set names)"
    using granted_inj [OF gr] by (intro inj_onI) (simp add: count_list_0_iff)
  show "mv \<in> set moves \<Longrightarrow> mv \<notin> set G \<Longrightarrow> R (from_of mv) \<noteq> None" for mv using r by blast
  show "mv \<in> set moves \<Longrightarrow> mv \<notin> set G \<Longrightarrow> to_of mv \<in> renamed G ` set names" for mv
    by (rule refused_target_in_use [OF gr refl one])
  show "(\<And>mv. mv \<in> set moves \<Longrightarrow> to_of mv \<in> set names) \<Longrightarrow> G = []"
    by (rule granting_none [OF gr]) (simp add: count_list_0_iff)
qed


text \<open>Names the renames do not speak of do not stand in their way.\<close>

lemma rename_all_filter:
  assumes "\<And>r. r \<in> set rs \<Longrightarrow> P (from_of r) \<and> P (to_of r)"
    and "rename_all rs (filter P names) = Some xs"
  shows "rename_all rs names \<noteq> None"
  using assms
proof (induction rs arbitrary: names)
  case (Cons r rs)
  have P: "P (from_of r)" "P (to_of r)" using Cons.prems(1) by auto
  let ?f = "\<lambda>s. if s = from_of r then to_of r else s"
  have c: "count_list (filter P names) (from_of r) = count_list names (from_of r)"
    using P(1) by (induction names) auto
  have f: "filter P (map ?f names) = map ?f (filter P names)"
    using P by (induction names) auto
  from Cons.prems(2) have one: "rename_one r (filter P names) = Some (map ?f (filter P names))"
    and rest: "rename_all rs (map ?f (filter P names)) = Some xs"
    by (auto simp: rename_one_def split: if_splits)
  from one have "rename_one r names = Some (map ?f names)"
    using c P by (auto simp: rename_one_def split: if_splits)
  moreover have "rename_all rs (map ?f names) \<noteq> None"
    using Cons.IH [of "map ?f names"] Cons.prems(1) rest by (auto simp: f)
  ultimately show ?case by simp
qed simp

section \<open>What grantMoves promises\<close>

text \<open>C2: Given the names in use and moves whose sources each stand once, the moves \<open>grantMoves\<close>
  grants can be applied one at a time in the order it gives them: every source is there once
  and every target is free at its turn. Every move it refuses has a reason, and its target is
  still in use when the granted moves are done, so nothing is refused that could have been
  made.\<close>

theorem grantMoves_applies:
  assumes "distinct (map from_of moves)"
    and one: "\<forall>mv \<in> set moves. count_list names (from_of mv) = 1"
    and "grantMoves moves (count_list names) = (G, R)"
  shows "set G \<subseteq> set moves \<and> rename_all G names = Some (map (renamed G) names)
    \<and> (\<forall>mv \<in> set moves. mv \<notin> set G \<longrightarrow> R (from_of mv) \<noteq> None \<and> to_of mv \<in> renamed G ` set names)"
  using grantMoves_ok [OF assms(1) bspec [OF one] assms(3)] by blast

lemma grantMoves_applies_witness:
  "let ab = \<lparr>From = \<lparr>desk = ''d'', monitor = ''A'', slot = ''1''\<rparr>, To = \<lparr>desk = ''d'', monitor = ''B'', slot = ''1''\<rparr>\<rparr>;
       bc = \<lparr>From = \<lparr>desk = ''d'', monitor = ''B'', slot = ''1''\<rparr>, To = \<lparr>desk = ''d'', monitor = ''C'', slot = ''1''\<rparr>\<rparr>
   in fst (grantMoves [ab, bc] (count_list [''d.A.1'', ''d.B.1''])) = [bc, ab]
    \<and> rename_all [bc, ab] [''d.A.1'', ''d.B.1''] = Some [''d.B.1'', ''d.C.1'']"
proof -
  define ab :: rename where "ab = \<lparr>From = \<lparr>desk = ''d'', monitor = ''A'', slot = ''1''\<rparr>, To = \<lparr>desk = ''d'', monitor = ''B'', slot = ''1''\<rparr>\<rparr>"
  define bc :: rename where "bc = \<lparr>From = \<lparr>desk = ''d'', monitor = ''B'', slot = ''1''\<rparr>, To = \<lparr>desk = ''d'', monitor = ''C'', slot = ''1''\<rparr>\<rparr>"
  have e: "fst (grantMoves [ab, bc] (count_list [''d.A.1'', ''d.B.1''])) = [bc, ab]"
    unfolding ab_def bc_def by code_simp
  have "rename_all [bc, ab] [''d.A.1'', ''d.B.1''] = Some (map (renamed [bc, ab]) [''d.A.1'', ''d.B.1''])"
  proof (rule grantMoves_applies [THEN conjunct2, THEN conjunct1])
    show "distinct (map from_of [ab, bc])" "\<forall>mv \<in> set [ab, bc]. count_list [''d.A.1'', ''d.B.1''] (from_of mv) = 1"
      by (simp_all add: ab_def bc_def String_def)
    show "grantMoves [ab, bc] (count_list [''d.A.1'', ''d.B.1''])
        = ([bc, ab], snd (grantMoves [ab, bc] (count_list [''d.A.1'', ''d.B.1''])))"
      using e by (metis prod.collapse)
  qed
  also have "map (renamed [bc, ab]) [''d.A.1'', ''d.B.1''] = [''d.B.1'', ''d.C.1'']"
    unfolding ab_def bc_def by code_simp
  finally show ?thesis using e by (simp add: Let_def ab_def bc_def)
qed

end
