(* ===== verification/Desk_Map.thy ===== *)
theory Desk_Map
  imports Desk_Moves
begin

text \<open>
  \<open>internal/desk/map.go\<close>: the desk map and \<open>Rebuild\<close>, which makes it from what niri
  reports. Go maps that are only read by key are functions with the zero value as default;
  the map of desks, whose keys are listed, is an association list with distinct keys.
\<close>

record workspace =
  ID :: "64 word"
  Idx :: "8 word"
  Name :: string
  Output :: string

record conflict =
  Workspace :: workspace
  Reason :: reason

record desk_map =
  desks :: "(string \<times> name list) list"
  at :: "string \<Rightarrow> string"
  idx :: "string \<Rightarrow> 8 word"
  screens :: "string list"
  foreign :: "workspace list"
  renames :: "rename list"
  conflicts :: "conflict list"
  displaced :: "name list"

record reading =
  rd_w :: workspace
  rd_name :: name
  rd_to :: name
  rd_move :: bool
  rd_at :: string

definition no_name :: name where
  "no_name = \<lparr>desk = [], monitor = [], slot = []\<rparr>"

section \<open>The code\<close>

definition earlier :: "workspace \<Rightarrow> workspace \<Rightarrow> bool" where
  "earlier a b =
     (if Name a \<noteq> Name b then Name a < Name b
      else if Output a \<noteq> Output b then Output a < Output b
      else if Idx a \<noteq> Idx b then Idx a < Idx b
      else ID a < ID b)"

definition held_step :: "workspace \<Rightarrow> (string \<Rightarrow> nat) \<Rightarrow> string \<Rightarrow> nat" where
  "held_step w held =
     (case ParseName (Name w) of Inl _ \<Rightarrow> held | Inr _ \<Rightarrow> held(Name w := held (Name w) + 1))"

text \<open>
  One workspace on its own terms: its reading, whether it is displaced, and the conflict
  it is reported with, if any.
\<close>

definition read_one ::
  "string list \<Rightarrow> (string \<Rightarrow> nat) \<Rightarrow> workspace \<Rightarrow> name \<Rightarrow> reading \<times> bool \<times> reason option" where
  "read_one scr held w n =
     (let r = \<lparr>rd_w = w, rd_name = n, rd_to = no_name, rd_move = False, rd_at = Output w\<rparr>;
          homeGone = (scr \<noteq> [] \<and> monitor n \<notin> set scr)
      in if Output w = [] then
           (if homeGone then (r, True, None) else (r\<lparr>rd_at := monitor n\<rparr>, False, None))
         else if Output w = monitor n then (r, False, None)
         else if scr = [] then (r, False, None)
         else if homeGone then (r, True, None)
         else if Output w \<notin> set scr then (r, False, Some NotShowing)
         else if 1 < held (String n) then (r, False, None)
         else (case NewName (desk n) (Output w) (slot n) of
                 Inl e \<Rightarrow> (r, False, Some (Unmintable e))
               | Inr truthful \<Rightarrow> (r\<lparr>rd_to := truthful, rd_move := True\<rparr>, False, None)))"

definition read_step ::
  "string list \<Rightarrow> (string \<Rightarrow> nat) \<Rightarrow> workspace \<Rightarrow> desk_map \<times> (string \<Rightarrow> bool) \<times> reading list
   \<Rightarrow> desk_map \<times> (string \<Rightarrow> bool) \<times> reading list" where
  "read_step scr held w = (\<lambda>(m, kept, read).
     (case ParseName (Name w) of
        Inl _ \<Rightarrow> (m\<lparr>foreign := foreign m @ [w]\<rparr>, kept, read)
      | Inr n \<Rightarrow>
          if kept (String n) then
            (m\<lparr>conflicts := conflicts m @ [\<lparr>Workspace = w, Reason = AlreadyNamed (String n)\<rparr>],
               foreign := foreign m @ [w]\<rparr>, kept, read)
          else
            (case read_one scr held w n of
               (r, away, why) \<Rightarrow>
                 (m\<lparr>displaced := displaced m @ (if away then [n] else []),
                    conflicts := conflicts m @
                      (case why of None \<Rightarrow> [] | Some e \<Rightarrow> [\<lparr>Workspace = w, Reason = e\<rparr>])\<rparr>,
                  kept(String n := True), read @ [r]))))"

definition moves_of :: "reading list \<Rightarrow> rename list" where
  "moves_of read = map (\<lambda>r. \<lparr>From = rd_name r, To = rd_to r\<rparr>) (filter rd_move read)"

definition truthful_of :: "rename list \<Rightarrow> string \<rightharpoonup> name" where
  "truthful_of granted = fold (\<lambda>mv t. t(from_of mv \<mapsto> To mv)) granted Map.empty"

definition settle_step ::
  "(string \<rightharpoonup> name) \<Rightarrow> (string \<rightharpoonup> reason) \<Rightarrow> reading \<Rightarrow> desk_map \<Rightarrow> desk_map" where
  "settle_step truthful refused r m =
     (let (n, m) =
        (if rd_move r then
           (case truthful (String (rd_name r)) of
              Some to \<Rightarrow> (to, m)
            | None \<Rightarrow> (rd_name r,
                m\<lparr>conflicts := conflicts m @
                    [\<lparr>Workspace = rd_w r, Reason = the (refused (String (rd_name r)))\<rparr>]\<rparr>))
         else (rd_name r, m))
      in m\<lparr>desks := AList.update (desk n) (aget [] (desks m) (desk n) @ [n]) (desks m),
           at := (at m)(String n := rd_at r),
           idx := (idx m)(String n := Idx (rd_w r))\<rparr>)"

definition band_less :: "(string \<Rightarrow> 8 word) \<Rightarrow> name \<Rightarrow> name \<Rightarrow> bool" where
  "band_less ix a b =
     (if monitor a \<noteq> monitor b then monitor a < monitor b
      else if ix (String a) \<noteq> ix (String b) then ix (String a) < ix (String b)
      else less a b)"

definition foreign_less :: "workspace \<Rightarrow> workspace \<Rightarrow> bool" where
  "foreign_less a b =
     (if Output a \<noteq> Output b then Output a < Output b else Name a < Name b)"

definition empty_map :: "string list \<Rightarrow> desk_map" where
  "empty_map scr = \<lparr>desks = [], at = (\<lambda>_. []), idx = (\<lambda>_. 0), screens = scr, foreign = [],
     renames = [], conflicts = [], displaced = []\<rparr>"

definition read_all :: "workspace list \<Rightarrow> string list \<Rightarrow> desk_map \<times> (string \<Rightarrow> bool) \<times> reading list" where
  "read_all inp scr =
     fold (read_step scr (fold held_step inp (\<lambda>_. 0))) inp (empty_map (sort_strings scr), (\<lambda>_. False), [])"

definition Rebuild :: "workspace list \<Rightarrow> string list \<Rightarrow> desk_map" where
  "Rebuild workspaces scr =
     (let inp = sort_by earlier workspaces;
          held = fold held_step inp (\<lambda>_. 0);
          (m, kept, read) = read_all inp scr;
          (granted, refused) = grantMoves (moves_of read) held;
          m = fold (settle_step (truthful_of granted) refused) read (m\<lparr>renames := granted\<rparr>)
      in m\<lparr>desks := map (\<lambda>(d, band). (d, sort_by (band_less (idx m)) band)) (desks m),
           foreign := sort_by foreign_less (foreign m),
           displaced := sort_by less (displaced m),
           conflicts := sort_by (\<lambda>a b. Name (Workspace a) < Name (Workspace b)) (conflicts m)\<rparr>)"

definition Screens :: "desk_map \<Rightarrow> string list" where "Screens m = screens m"

definition DeskNames :: "desk_map \<Rightarrow> string list" where
  "DeskNames m = sort_strings (map fst (desks m))"

definition Workspaces :: "desk_map \<Rightarrow> string \<Rightarrow> name list" where
  "Workspaces m d = aget [] (desks m) d"

definition Band :: "desk_map \<Rightarrow> string \<Rightarrow> string \<Rightarrow> name list" where
  "Band m d output =
     (if output = [] then []
      else sort_by (\<lambda>a b. idx m (String a) < idx m (String b))
             (filter (\<lambda>n. at m (String n) = output) (aget [] (desks m) d)))"

definition map_Regulars :: "desk_map \<Rightarrow> name list" where
  "map_Regulars m = Workspaces m Regulars"


section \<open>The order the reply is read in\<close>

definition workspace_key :: "workspace \<Rightarrow> string \<times> string \<times> 8 word \<times> 64 word" where
  "workspace_key w = (Name w, Output w, Idx w, ID w)"

lemma earlier_key: "earlier a b \<longleftrightarrow> workspace_key a < workspace_key b"
  by (simp add: earlier_def workspace_key_def less_prod_def')

lemma workspace_key_inj: "workspace_key a = workspace_key b \<Longrightarrow> a = b"
  by (simp add: workspace_key_def)

interpretation by_earlier: total_comparator earlier
  by unfold_locales (auto simp: earlier_key intro: workspace_key_inj)

lemma foreign_less_key: "foreign_less a b \<longleftrightarrow> (Output a, Name a) < (Output b, Name b)"
  by (simp add: foreign_less_def less_prod_def')

interpretation by_foreign: comparator foreign_less
  by unfold_locales (auto simp: foreign_less_key)

lemma band_less_key:
  "band_less ix a b \<longleftrightarrow> (monitor a, ix (String a), name_key a) < (monitor b, ix (String b), name_key b)"
  by (simp add: band_less_def less_prod_def' less_key)

interpretation by_band: comparator "band_less ix"
  by unfold_locales (auto simp: band_less_key)


section \<open>What the first half reads\<close>

definition is_zde :: "workspace \<Rightarrow> bool" where
  "is_zde w = (case ParseName (Name w) of Inl _ \<Rightarrow> False | Inr _ \<Rightarrow> True)"

definition znames :: "workspace list \<Rightarrow> string list" where
  "znames ws = map Name (filter is_zde ws)"

lemma is_zde_iff: "is_zde w \<longleftrightarrow> (\<exists>n. ParseName (Name w) = Inr n)"
  by (cases "ParseName (Name w)") (simp_all add: is_zde_def)

lemma held_fold: "fold held_step xs h s = h s + count_list (znames xs) s"
  by (induction xs arbitrary: h) (auto simp: held_step_def znames_def is_zde_def split: sum.splits)

lemma held_names: "fold held_step xs (\<lambda>_. 0) = count_list (znames xs)"
  by (rule ext) (simp add: held_fold)

lemma znames_valid: "s \<in> set (znames ws) \<Longrightarrow> \<exists>n. valid_name n \<and> String n = s"
  by (auto simp: znames_def is_zde_iff ParseName_iff)

definition away :: "string list \<Rightarrow> (string \<Rightarrow> nat) \<Rightarrow> reading \<Rightarrow> bool" where
  "away scr held r = fst (snd (read_one scr held (rd_w r) (rd_name r)))"

definition objection :: "string list \<Rightarrow> (string \<Rightarrow> nat) \<Rightarrow> reading \<Rightarrow> reason option" where
  "objection scr held r = snd (snd (read_one scr held (rd_w r) (rd_name r)))"

definition reads_ok ::
  "string list \<Rightarrow> (string \<Rightarrow> nat) \<Rightarrow> desk_map \<Rightarrow> workspace list \<Rightarrow> desk_map \<times> (string \<Rightarrow> bool) \<times> reading list \<Rightarrow> bool" where
  "reads_ok scr held m0 xs = (\<lambda>(m, kept, read).
     (\<forall>s. kept s \<longleftrightarrow> s \<in> set (znames xs))
   \<and> distinct (map (String \<circ> rd_name) read) \<and> (String \<circ> rd_name) ` set read = set (znames xs)
   \<and> (\<forall>r \<in> set read. rd_w r \<in> set xs \<and> ParseName (Name (rd_w r)) = Inr (rd_name r)
        \<and> r = fst (read_one scr held (rd_w r) (rd_name r)))
   \<and> mset xs = mset (foreign m) + mset (map rd_w read)
   \<and> (\<forall>w \<in> set (foreign m). is_zde w \<longrightarrow> 1 < count_list (znames xs) (Name w)
        \<and> \<lparr>Workspace = w, Reason = AlreadyNamed (Name w)\<rparr> \<in> set (conflicts m))
   \<and> (\<forall>r \<in> set read. \<forall>e. objection scr held r = Some e \<longrightarrow> \<lparr>Workspace = rd_w r, Reason = e\<rparr> \<in> set (conflicts m))
   \<and> displaced m = map rd_name (filter (away scr held) read)
   \<and> desks m = desks m0 \<and> at m = at m0 \<and> idx m = idx m0 \<and> screens m = screens m0)"

lemma read_one_keeps [simp]:
  "rd_w (fst (read_one scr held w n)) = w" "rd_name (fst (read_one scr held w n)) = n"
  by (auto simp: read_one_def Let_def split: sum.split)

lemma znames_snoc: "znames (xs @ [x]) = znames xs @ (if is_zde x then [Name x] else [])"
  by (simp add: znames_def)

lemma reads_ok_step:
  assumes "reads_ok scr held m0 xs s"
  shows "reads_ok scr held m0 (xs @ [x]) (read_step scr held x s)"
proof -
  obtain m kept read where s: "s = (m, kept, read)" by (metis prod_cases3)
  note ok = assms [unfolded s reads_ok_def split]
  show ?thesis
  proof (cases "ParseName (Name x)")
    case (Inl e)
    then have "\<not> is_zde x" by (simp add: is_zde_def)
    then show ?thesis
      using ok by (simp add: s reads_ok_def read_step_def Inl znames_snoc)
  next
    case (Inr n)
    then have z: "is_zde x" and sn: "String n = Name x" by (auto simp: is_zde_iff ParseName_iff)
    show ?thesis
    proof (cases "kept (String n)")
      case True
      then have "Name x \<in> set (znames xs)" using ok sn by auto
      then have c: "count_list (znames xs) (Name x) \<noteq> 0" by (simp add: count_list_0_iff)
      show ?thesis
        using ok True \<open>Name x \<in> set (znames xs)\<close> c
        by (auto simp: s reads_ok_def read_step_def Inr znames_snoc z sn)
    next
      case False
      obtain r a why where r: "read_one scr held x n = (r, a, why)" by (metis prod_cases3)
      then have rk: "rd_w r = x" "rd_name r = n" using read_one_keeps [of scr held x n] by simp_all
      have new: "Name x \<notin> set (znames xs)" using ok False sn by auto
      show ?thesis
        using ok False new
        by (auto simp: s reads_ok_def read_step_def Inr znames_snoc z sn r rk away_def objection_def)
    qed
  qed
qed

lemma reads_ok_fold:
  "reads_ok scr held m0 ys s \<Longrightarrow> reads_ok scr held m0 (ys @ xs) (fold (read_step scr held) xs s)"
proof (induction xs arbitrary: ys s)
  case (Cons x xs)
  then show ?case using Cons.IH [OF reads_ok_step [OF Cons.prems, of x]] by simp
qed simp

lemma reads_ok_all:
  "reads_ok scr (count_list (znames inp)) (empty_map (sort_strings scr)) inp (read_all inp scr)"
  using reads_ok_fold [of scr "count_list (znames inp)" "empty_map (sort_strings scr)" "[]"
      "(empty_map (sort_strings scr), (\<lambda>_. False), [])" inp]
  by (simp add: read_all_def held_names reads_ok_def empty_map_def znames_def)


section \<open>What one reading says\<close>

lemma count_dots_String: "valid_name n \<Longrightarrow> count_list (String n) (CHR ''.'') = 2"
  by (auto simp: String_def valid_name_def ValidDesk_def valid_slot_def count_list_append
      count_notin dest!: namePart_no_dot monitorPart_no_dot)

lemma NewName_exact:
  assumes "valid_name n" "NewName (desk n) out (slot n) = Inr t"
  shows "t = n\<lparr>monitor := out\<rparr> \<and> valid_name t"
proof -
  have t: "valid_name t" "String t = desk n @ ''.'' @ out @ ''.'' @ slot n"
    using assms(2) by (simp_all add: NewName_iff)
  have nd: "CHR ''.'' \<notin> set (desk n)" "CHR ''.'' \<notin> set (slot n)"
    using assms(1) namePart_no_dot by (auto simp: valid_name_def ValidDesk_def valid_slot_def)
  have "count_list out (CHR ''.'') = 0"
    using count_dots_String [OF t(1)] nd by (simp add: t(2) count_list_append count_notin)
  then have "CHR ''.'' \<notin> set out" by (simp add: count_list_0_iff)
  with NewName_parts [OF nd(1) _ nd(2)] assms(2) have "t = n\<lparr>monitor := out\<rparr>" by simp
  with t show ?thesis by simp
qed

lemma read_one_moveD:
  assumes "rd_move (fst (read_one scr held w n))"
  shows "Output w \<noteq> [] \<and> Output w \<noteq> monitor n \<and> monitor n \<in> set scr \<and> Output w \<in> set scr
    \<and> held (String n) \<le> 1 \<and> (\<exists>t. NewName (desk n) (Output w) (slot n) = Inr t
      \<and> read_one scr held w n = (\<lparr>rd_w = w, rd_name = n, rd_to = t, rd_move = True, rd_at = Output w\<rparr>, False, None))"
  using assms by (simp add: read_one_def Let_def not_less split: if_splits sum.splits)

lemma read_one_move:
  assumes "valid_name n" "r = fst (read_one scr held w n)" "rd_move r"
  shows "Output w \<noteq> []" "Output w \<noteq> monitor n" "monitor n \<in> set scr" "Output w \<in> set scr"
    "held (String n) \<le> 1" "rd_to r = n\<lparr>monitor := Output w\<rparr>" "valid_name (rd_to r)"
    "away scr held r = False" "rd_at r = Output w"
  using read_one_moveD [of scr held w n] assms NewName_exact [OF assms(1), of "Output w"]
  by (auto simp: away_def)

text \<open>A workspace asks for a move exactly when both monitors are screens and nothing is unclear.\<close>

lemma read_one_moves_iff:
  assumes "valid_name n"
  shows "rd_move (fst (read_one scr held w n)) \<longleftrightarrow>
    Output w \<noteq> [] \<and> Output w \<noteq> monitor n \<and> monitor n \<in> set scr \<and> Output w \<in> set scr
    \<and> held (String n) \<le> 1 \<and> valid_name (n\<lparr>monitor := Output w\<rparr>)"
proof -
  have "(\<exists>t. NewName (desk n) (Output w) (slot n) = Inr t) \<longleftrightarrow> valid_name (n\<lparr>monitor := Output w\<rparr>)"
    using NewName_exact [OF assms, of "Output w"] by (auto simp: NewName_iff String_def)
  then show ?thesis
    by (cases "NewName (desk n) (Output w) (slot n)") (auto simp: read_one_def Let_def)
qed

lemma away_iff:
  "valid_name n \<Longrightarrow> fst (snd (read_one scr held w n)) \<longleftrightarrow>
     scr \<noteq> [] \<and> monitor n \<notin> set scr \<and> Output w \<noteq> monitor n"
  by (auto simp: read_one_def Let_def valid_name_def split: sum.split)


section \<open>What the second half settles\<close>

definition final :: "(string \<rightharpoonup> name) \<Rightarrow> reading \<Rightarrow> name" where
  "final truthful r =
     (if rd_move r then (case truthful (String (rd_name r)) of Some to \<Rightarrow> to | None \<Rightarrow> rd_name r)
      else rd_name r)"

lemma settle_step_alt:
  "settle_step T R r m = m\<lparr>
     conflicts := conflicts m @ (if rd_move r \<and> T (String (rd_name r)) = None
        then [\<lparr>Workspace = rd_w r, Reason = the (R (String (rd_name r)))\<rparr>] else []),
     desks := AList.update (desk (final T r)) (aget [] (desks m) (desk (final T r)) @ [final T r]) (desks m),
     at := (at m)(String (final T r) := rd_at r),
     idx := (idx m)(String (final T r) := Idx (rd_w r))\<rparr>"
  by (simp add: settle_step_def final_def split: option.split)

lemma settle_fold:
  "fold (settle_step T R) rs m = m\<lparr>
     conflicts := conflicts m @ map (\<lambda>r. \<lparr>Workspace = rd_w r, Reason = the (R (String (rd_name r)))\<rparr>)
        (filter (\<lambda>r. rd_move r \<and> T (String (rd_name r)) = None) rs),
     desks := fold (\<lambda>n ds. AList.update (desk n) (aget [] ds (desk n) @ [n]) ds) (map (final T) rs) (desks m),
     at := fold (\<lambda>r f. f(String (final T r) := rd_at r)) rs (at m),
     idx := fold (\<lambda>r f. f(String (final T r) := Idx (rd_w r))) rs (idx m)\<rparr>"
  by (induction rs arbitrary: m) (simp_all add: settle_step_alt)

lemma desks_fold:
  "aget [] (fold (\<lambda>n ds. AList.update (desk n) (aget [] ds (desk n) @ [n]) ds) ns ds) d =
     aget [] ds d @ filter (\<lambda>n. desk n = d) ns"
  by (induction ns arbitrary: ds) auto

lemma desks_fold_keys:
  "fst ` set (fold (\<lambda>n ds. AList.update (desk n) (aget [] ds (desk n) @ [n]) ds) ns ds) =
     fst ` set ds \<union> desk ` set ns"
  by (induction ns arbitrary: ds) auto

lemma desks_fold_distinct:
  "distinct (map fst ds) \<Longrightarrow>
   distinct (map fst (fold (\<lambda>n ds. AList.update (desk n) (aget [] ds (desk n) @ [n]) ds) ns ds))"
  by (induction ns arbitrary: ds) (auto simp: distinct_update)

lemma upd_fold_other: "s \<notin> k ` set rs \<Longrightarrow> fold (\<lambda>r f. f(k r := v r)) rs f s = f s"
  by (induction rs arbitrary: f) auto

lemma upd_fold_at:
  "distinct (map k rs) \<Longrightarrow> r \<in> set rs \<Longrightarrow> fold (\<lambda>r f. f(k r := v r)) rs f (k r) = v r"
proof (induction rs arbitrary: f)
  case (Cons x rs)
  show ?case
  proof (cases "r \<in> set rs")
    case False
    with Cons.prems have "r = x" and "k x \<notin> k ` set rs" by auto
    have "fold (\<lambda>r f. f(k r := v r)) rs (f(k x := v x)) (k x) = (f(k x := v x)) (k x)"
      by (rule upd_fold_other) (rule \<open>k x \<notin> k ` set rs\<close>)
    then show ?thesis by (simp only: \<open>r = x\<close> fold_simps(2) fun_upd_same)
  qed (use Cons in simp)
qed simp

lemma truthful_of_map_of: "truthful_of G = map_of (map (\<lambda>mv. (from_of mv, To mv)) (rev G))"
  by (induction G rule: rev_induct) (simp_all add: truthful_of_def)

lemma truthful_of_iff:
  assumes "distinct (map from_of G)"
  shows "truthful_of G s = Some t \<longleftrightarrow> (\<exists>mv \<in> set G. from_of mv = s \<and> To mv = t)"
proof -
  have "distinct (map fst (map (\<lambda>mv. (from_of mv, To mv)) (rev G)))"
    using assms by (simp add: comp_def) (simp add: rev_map [symmetric])
  then show ?thesis by (auto simp: truthful_of_map_of map_of_eq_Some_iff)
qed


section \<open>The parts of a rebuilt map\<close>

definition readings :: "workspace list \<Rightarrow> string list \<Rightarrow> reading list" where
  "readings ws scr = snd (snd (read_all (sort_by earlier ws) scr))"

definition first_half :: "workspace list \<Rightarrow> string list \<Rightarrow> desk_map" where
  "first_half ws scr = fst (read_all (sort_by earlier ws) scr)"

definition ruling :: "workspace list \<Rightarrow> string list \<Rightarrow> rename list \<times> (string \<rightharpoonup> reason)" where
  "ruling ws scr = grantMoves (moves_of (readings ws scr)) (count_list (znames ws))"

definition settled :: "workspace list \<Rightarrow> string list \<Rightarrow> reading \<Rightarrow> name" where
  "settled ws scr = final (truthful_of (fst (ruling ws scr)))"

lemma mset_znames_cong: "mset ws = mset ws' \<Longrightarrow> mset (znames ws) = mset (znames ws')"
  by (simp add: znames_def)

lemma count_list_mset: "count_list xs s = count (mset xs) s"
  by (induction xs) auto

lemma count_znames_sort: "count_list (znames (sort_by lt ws)) = count_list (znames ws)"
  by (rule ext) (simp add: count_list_mset znames_def)

lemma set_znames_sort: "set (znames (sort_by lt ws)) = set (znames ws)"
  by (simp add: znames_def)

lemma first_half_ok:
  "reads_ok scr (count_list (znames ws)) (empty_map (sort_strings scr)) (sort_by earlier ws)
     (first_half ws scr, fst (snd (read_all (sort_by earlier ws) scr)), readings ws scr)"
  using reads_ok_all [of scr "sort_by earlier ws"]
  by (simp add: count_znames_sort readings_def first_half_def)

lemma Rebuild_parts:
  "Rebuild ws scr =
    (let m = fold (settle_step (truthful_of (fst (ruling ws scr))) (snd (ruling ws scr))) (readings ws scr)
               ((first_half ws scr)\<lparr>renames := fst (ruling ws scr)\<rparr>)
     in m\<lparr>desks := map (\<lambda>(d, band). (d, sort_by (band_less (idx m)) band)) (desks m),
          foreign := sort_by foreign_less (foreign m),
          displaced := sort_by less (displaced m),
          conflicts := sort_by (\<lambda>a b. Name (Workspace a) < Name (Workspace b)) (conflicts m)\<rparr>)"
  by (simp add: Rebuild_def Let_def ruling_def first_half_def readings_def held_names count_znames_sort
      split: prod.split)

lemma readings_ok:
  shows "distinct (map (String \<circ> rd_name) (readings ws scr))"
    and "(String \<circ> rd_name) ` set (readings ws scr) = set (znames ws)"
    and "r \<in> set (readings ws scr) \<Longrightarrow> rd_w r \<in> set ws"
    and "r \<in> set (readings ws scr) \<Longrightarrow> valid_name (rd_name r) \<and> Name (rd_w r) = String (rd_name r)"
    and "r \<in> set (readings ws scr) \<Longrightarrow> r = fst (read_one scr (count_list (znames ws)) (rd_w r) (rd_name r))"
    and "mset ws = mset (foreign (first_half ws scr)) + mset (map rd_w (readings ws scr))"
    and "w \<in> set (foreign (first_half ws scr)) \<Longrightarrow> is_zde w \<Longrightarrow> 1 < count_list (znames ws) (Name w)
      \<and> \<lparr>Workspace = w, Reason = AlreadyNamed (Name w)\<rparr> \<in> set (conflicts (first_half ws scr))"
    and "r \<in> set (readings ws scr) \<Longrightarrow> objection scr (count_list (znames ws)) r = Some e \<Longrightarrow>
      \<lparr>Workspace = rd_w r, Reason = e\<rparr> \<in> set (conflicts (first_half ws scr))"
    and "displaced (first_half ws scr) = map rd_name (filter (away scr (count_list (znames ws))) (readings ws scr))"
    and "desks (first_half ws scr) = []" "at (first_half ws scr) = (\<lambda>_. [])" "idx (first_half ws scr) = (\<lambda>_. 0)"
    and "screens (first_half ws scr) = sort_strings scr"
  using first_half_ok [of scr ws] unfolding reads_ok_def split set_znames_sort count_znames_sort
  by (auto simp: ParseName_iff empty_map_def)

lemma readings_moves:
  assumes "r \<in> set (readings ws scr)" "rd_move r"
  shows "Output (rd_w r) \<noteq> []" "Output (rd_w r) \<noteq> monitor (rd_name r)" "monitor (rd_name r) \<in> set scr"
    "Output (rd_w r) \<in> set scr" "count_list (znames ws) (String (rd_name r)) = 1"
    "rd_to r = (rd_name r)\<lparr>monitor := Output (rd_w r)\<rparr>" "valid_name (rd_to r)" "rd_at r = Output (rd_w r)"
proof -
  note ok = readings_ok(3-5) [OF assms(1)]
  note mv = read_one_move [OF conjunct1 [OF ok(2)] ok(3) assms(2)]
  show "Output (rd_w r) \<noteq> []" "Output (rd_w r) \<noteq> monitor (rd_name r)" "monitor (rd_name r) \<in> set scr"
    "Output (rd_w r) \<in> set scr"
    "rd_to r = (rd_name r)\<lparr>monitor := Output (rd_w r)\<rparr>" "valid_name (rd_to r)" "rd_at r = Output (rd_w r)"
    using mv by blast+
  have "String (rd_name r) \<in> set (znames ws)" using readings_ok(2) assms(1) by (metis comp_apply imageI)
  then have "count_list (znames ws) (String (rd_name r)) \<noteq> 0" by (simp add: count_list_0_iff)
  with mv(5) show "count_list (znames ws) (String (rd_name r)) = 1" by simp
qed

lemma set_moves_of:
  "set (moves_of rs) = (\<lambda>r. \<lparr>From = rd_name r, To = rd_to r\<rparr>) ` {r \<in> set rs. rd_move r}"
  by (simp add: moves_of_def)

lemma moves_facts:
  shows "distinct (map from_of (moves_of (readings ws scr)))"
    and "mv \<in> set (moves_of (readings ws scr)) \<Longrightarrow> count_list (znames ws) (from_of mv) = 1"
proof -
  have "map from_of (moves_of rs) = map (String \<circ> rd_name) (filter rd_move rs)" for rs
    by (simp add: moves_of_def)
  then show "distinct (map from_of (moves_of (readings ws scr)))"
    using readings_ok(1) [of ws scr] by (simp add: distinct_map_filter_inj)
  show "mv \<in> set (moves_of (readings ws scr)) \<Longrightarrow> count_list (znames ws) (from_of mv) = 1"
    using readings_moves(5) by (auto simp: set_moves_of)
qed

lemma ruling_eq: "grantMoves (moves_of (readings ws scr)) (count_list (znames ws)) =
    (fst (ruling ws scr), snd (ruling ws scr))"
  by (simp add: ruling_def)

lemmas ruling_ok = grantMoves_ok [OF moves_facts(1) [of ws scr] moves_facts(2) [of _ ws scr] ruling_eq [of ws scr]]
  for ws scr


lemma from_of_reading:
  assumes r: "r \<in> set (readings ws scr)" and mv: "mv \<in> set (moves_of (readings ws scr))"
    and eq: "from_of mv = String (rd_name r)"
  shows "rd_move r \<and> mv = \<lparr>From = rd_name r, To = rd_to r\<rparr>"
proof -
  from mv obtain q where q: "q \<in> set (readings ws scr)" "rd_move q" "mv = \<lparr>From = rd_name q, To = rd_to q\<rparr>"
    by (auto simp: set_moves_of)
  then have "(String \<circ> rd_name) q = (String \<circ> rd_name) r" using eq by simp
  with readings_ok(1) [of ws scr] q(1) r have "q = r"
    by (metis distinct_map inj_onD)
  with q show ?thesis by simp
qed

lemma settled_cases:
  assumes r: "r \<in> set (readings ws scr)"
  shows "settled ws scr r = rd_name r \<and> String (rd_name r) \<notin> from_of ` set (fst (ruling ws scr))
    \<or> rd_move r \<and> settled ws scr r = rd_to r \<and> \<lparr>From = rd_name r, To = rd_to r\<rparr> \<in> set (fst (ruling ws scr))"
proof (cases "String (rd_name r) \<in> from_of ` set (fst (ruling ws scr))")
  case True
  then obtain mv where mv: "mv \<in> set (fst (ruling ws scr))" "from_of mv = String (rd_name r)" by auto
  then have e: "rd_move r \<and> mv = \<lparr>From = rd_name r, To = rd_to r\<rparr>"
    using from_of_reading [OF r] ruling_ok(1) by blast
  with mv have "truthful_of (fst (ruling ws scr)) (String (rd_name r)) = Some (rd_to r)"
    using truthful_of_iff [OF ruling_ok(2), of ws scr] by (metis rename.select_convs(2))
  with e mv show ?thesis by (simp add: settled_def final_def)
next
  case False
  have "truthful_of (fst (ruling ws scr)) (String (rd_name r)) = None"
  proof (cases "truthful_of (fst (ruling ws scr)) (String (rd_name r))")
    case (Some t)
    then have "\<exists>mv \<in> set (fst (ruling ws scr)). from_of mv = String (rd_name r)"
      using truthful_of_iff [OF ruling_ok(2), of ws scr] by blast
    with False show ?thesis by (metis imageI)
  qed
  with False show ?thesis by (simp add: settled_def final_def)
qed

lemma String_settled:
  assumes r: "r \<in> set (readings ws scr)"
  shows "String (settled ws scr r) = renamed (fst (ruling ws scr)) (String (rd_name r))"
  using settled_cases [OF r]
proof (elim disjE conjE)
  assume g: "settled ws scr r = rd_to r" "\<lparr>From = rd_name r, To = rd_to r\<rparr> \<in> set (fst (ruling ws scr))"
  from renamed_at [OF ruling_ok(2) g(2)] g(1) show ?thesis by simp
qed (simp add: renamed_other)

lemma settled_valid:
  assumes r: "r \<in> set (readings ws scr)"
  shows "valid_name (settled ws scr r)" "desk (settled ws scr r) = desk (rd_name r)"
    "slot (settled ws scr r) = slot (rd_name r)"
  using settled_cases [OF r] readings_ok(4) [OF r] readings_moves(6,7) [OF r] by auto

lemma settled_distinct: "distinct (map (String \<circ> settled ws scr) (readings ws scr))"
proof -
  have "inj_on (renamed (fst (ruling ws scr))) (set (map (String \<circ> rd_name) (readings ws scr)))"
    using ruling_ok(4) [of ws scr] readings_ok(2) [of ws scr] by simp
  then have "distinct (map (renamed (fst (ruling ws scr))) (map (String \<circ> rd_name) (readings ws scr)))"
    using readings_ok(1) [of ws scr] by (simp only: distinct_map)
  moreover have "map (String \<circ> settled ws scr) (readings ws scr)
      = map (renamed (fst (ruling ws scr))) (map (String \<circ> rd_name) (readings ws scr))"
    by (simp add: String_settled)
  ultimately show ?thesis by (simp only:)
qed

lemma renames_Rebuild [simp]: "renames (Rebuild ws scr) = fst (ruling ws scr)"
  by (simp add: Rebuild_parts Let_def settle_fold)

lemma screens_Rebuild [simp]: "screens (Rebuild ws scr) = sort_strings scr"
  by (simp add: Rebuild_parts Let_def settle_fold readings_ok)

lemma foreign_Rebuild: "foreign (Rebuild ws scr) = sort_by foreign_less (foreign (first_half ws scr))"
  by (simp add: Rebuild_parts Let_def settle_fold)

lemma displaced_Rebuild:
  "displaced (Rebuild ws scr) =
     sort_by less (map rd_name (filter (away scr (count_list (znames ws))) (readings ws scr)))"
  by (simp add: Rebuild_parts Let_def settle_fold readings_ok)

lemma set_conflicts_Rebuild:
  "set (conflicts (Rebuild ws scr)) = set (conflicts (first_half ws scr)) \<union>
     (\<lambda>r. \<lparr>Workspace = rd_w r, Reason = the (snd (ruling ws scr) (String (rd_name r)))\<rparr>) `
       {r \<in> set (readings ws scr). rd_move r \<and> truthful_of (fst (ruling ws scr)) (String (rd_name r)) = None}"
  by (simp add: Rebuild_parts Let_def settle_fold)

lemma at_Rebuild:
  assumes "r \<in> set (readings ws scr)"
  shows "at (Rebuild ws scr) (String (settled ws scr r)) = rd_at r"
    "idx (Rebuild ws scr) (String (settled ws scr r)) = Idx (rd_w r)"
  using upd_fold_at [of "String \<circ> settled ws scr" "readings ws scr" r rd_at]
    upd_fold_at [of "String \<circ> settled ws scr" "readings ws scr" r "Idx \<circ> rd_w"]
    settled_distinct [of ws scr] assms
  by (simp_all add: Rebuild_parts Let_def settle_fold comp_def settled_def [symmetric])

lemma aget_map_snd: "f z = z \<Longrightarrow> aget z (map (\<lambda>(k, v). (k, f v)) m) k = f (aget z m k)"
  by (induction m) (auto simp: aget_def)

lemma map_fst_map_snd: "map fst (map (\<lambda>(k, v). (k, f v)) m) = map fst m"
  by (induction m) auto

lemma desks_Rebuild:
  "desks (Rebuild ws scr) = map (\<lambda>(d, band). (d, sort_by (band_less (idx (Rebuild ws scr))) band))
     (fold (\<lambda>n ds. AList.update (desk n) (aget [] ds (desk n) @ [n]) ds)
        (map (settled ws scr) (readings ws scr)) [])"
  by (simp add: Rebuild_parts Let_def settle_fold readings_ok settled_def [symmetric])

lemma aget_desks:
  "aget [] (desks (Rebuild ws scr)) d = sort_by (band_less (idx (Rebuild ws scr)))
     (filter (\<lambda>n. desk n = d) (map (settled ws scr) (readings ws scr)))"
  unfolding desks_Rebuild by (simp add: aget_map_snd desks_fold)

lemma Workspaces_Rebuild: "Workspaces (Rebuild ws scr) d = sort_by (band_less (idx (Rebuild ws scr)))
     (filter (\<lambda>n. desk n = d) (map (settled ws scr) (readings ws scr)))"
  by (simp add: Workspaces_def aget_desks)

lemma keys_Rebuild: "fst ` set (desks (Rebuild ws scr)) = desk ` set (map rd_name (readings ws scr))"
proof -
  have "fst ` set (desks (Rebuild ws scr)) = set (map fst (desks (Rebuild ws scr)))" by simp
  also have "\<dots> = desk ` set (map (settled ws scr) (readings ws scr))"
    unfolding desks_Rebuild map_fst_map_snd by (simp add: desks_fold_keys)
  also have "\<dots> = desk ` set (map rd_name (readings ws scr))"
    using settled_valid(2) by (simp add: image_image cong: image_cong_simp)
  finally show ?thesis .
qed

lemma distinct_keys_Rebuild: "distinct (map fst (desks (Rebuild ws scr)))"
  unfolding desks_Rebuild map_fst_map_snd by (rule desks_fold_distinct) simp


section \<open>What Rebuild promises\<close>

lemma read_step_cong:
  "set scr = set scr' \<Longrightarrow> read_step scr = read_step scr'"
proof -
  assume a: "set scr = set scr'"
  then have "scr = [] \<longleftrightarrow> scr' = []" by auto
  with a have "read_one scr held w n = read_one scr' held w n" for held w n
    by (simp add: read_one_def Let_def)
  then have "read_one scr = read_one scr'" by (intro ext)
  then show ?thesis by (intro ext) (simp only: read_step_def)
qed

text \<open>The desk map is a function of which workspaces and screens there are: no order niri
  lists them in changes anything in it, renames and conflicts included.\<close>

theorem Rebuild_order_free:
  assumes "mset ws = mset ws'" "mset scr = mset scr'"
  shows "Rebuild ws scr = Rebuild ws' scr'"
proof -
  have "sort_by earlier ws = sort_by earlier ws'"
    using assms(1) by (rule by_earlier.sort_by_cong)
  moreover have "read_step scr = read_step scr'"
    using assms(2) by (intro read_step_cong) (metis set_mset_mset)
  moreover have "sort_strings scr = sort_strings scr'" using assms(2) by (rule sort_strings_cong)
  ultimately show ?thesis unfolding Rebuild_def read_all_def by simp
qed

lemma Rebuild_order_free_witness:
  "let a = \<lparr>ID = 1, Idx = 1, Name = ''d.DP-1.1'', Output = ''DP-1''\<rparr>;
       b = \<lparr>ID = 2, Idx = 2, Name = [], Output = ''DP-2''\<rparr>
   in Rebuild [a, b] [''DP-1'', ''DP-2''] = Rebuild [b, a] [''DP-2'', ''DP-1'']"
  unfolding Let_def by (rule Rebuild_order_free) simp_all

lemma zde_of_reading:
  assumes "w \<in> set ws" "ParseName (Name w) = Inr n"
  obtains r where "r \<in> set (readings ws scr)" "rd_name r = n" "Name (rd_w r) = Name w"
proof -
  have v: "valid_name n" "String n = Name w" using assms(2) by (simp_all add: ParseName_iff)
  have "Name w \<in> set (znames ws)" using assms by (auto simp: znames_def is_zde_iff)
  then obtain r where r: "r \<in> set (readings ws scr)" "String (rd_name r) = Name w"
    using readings_ok(2) [of ws scr] by (metis comp_apply imageE)
  moreover have "rd_name r = n"
    using r readings_ok(4) [OF r(1)] v String_inj by metis
  moreover have "Name (rd_w r) = Name w" using readings_ok(4) [OF r(1)] r(2) by simp
  ultimately show ?thesis using that by blast
qed

lemma unique_workspace:
  assumes "w \<in> set ws" "v \<in> set ws" "Name w = Name v" "is_zde w" "count_list (znames ws) (Name w) = 1"
  shows "w = v"
proof (rule ccontr)
  assume ne: "w \<noteq> v"
  have z: "is_zde v" using assms(3,4) by (simp add: is_zde_def)
  have "w \<in> set ws \<Longrightarrow> v \<in> set ws \<Longrightarrow> 2 \<le> count_list (znames ws) (Name w)" for ws
  proof (induction ws)
    case (Cons x xs)
    have one: "u \<in> set xs \<Longrightarrow> is_zde u \<Longrightarrow> count_list (znames xs) (Name u) \<noteq> 0" for u
      by (auto simp: count_list_0_iff znames_def)
    from Cons one [of w] one [of v] ne z assms(3,4) show ?case
      by (auto simp: znames_def)
  qed simp
  with assms show False by force
qed

lemma reading_of_unique:
  assumes "w \<in> set ws" "ParseName (Name w) = Inr n" "count_list (znames ws) (Name w) = 1"
  obtains r where "r \<in> set (readings ws scr)" "rd_name r = n" "rd_w r = w"
proof -
  obtain r where r: "r \<in> set (readings ws scr)" "rd_name r = n" "Name (rd_w r) = Name w"
    by (rule zde_of_reading [OF assms(1,2)])
  have "rd_w r \<in> set ws" using readings_ok(3) [OF r(1)] .
  moreover have "is_zde w" using assms(2) by (auto simp: is_zde_iff)
  ultimately have "w = rd_w r" using unique_workspace [OF assms(1), of "rd_w r"] r(3) assms(3) by simp
  with r that show ?thesis by blast
qed

lemma ruling_reading:
  assumes "mv \<in> set (fst (ruling ws scr))"
  obtains r where "r \<in> set (readings ws scr)" "rd_move r" "From mv = rd_name r" "To mv = rd_to r"
  using assms ruling_ok(1) [of ws scr] by (auto simp: set_moves_of)

definition rename_ws :: "rename list \<Rightarrow> workspace \<Rightarrow> workspace" where
  "rename_ws rs w = w\<lparr>Name := renamed rs (Name w)\<rparr>"

lemma ruling_valid:
  assumes "mv \<in> set (fst (ruling ws scr))"
  shows "valid_name (From mv)" "valid_name (To mv)"
  using assms by (auto elim!: ruling_reading dest: readings_ok(4) readings_moves(7))

lemma is_zde_renamed: "is_zde (rename_ws (fst (ruling ws scr)) w) \<longleftrightarrow> is_zde w"
  using renamed_cases [of "Name w" "fst (ruling ws scr)"]
proof
  assume "\<exists>p \<in> set (fst (ruling ws scr)). from_of p = Name w \<and> renamed (fst (ruling ws scr)) (Name w) = to_of p"
  then obtain p where p: "p \<in> set (fst (ruling ws scr))" "from_of p = Name w"
    "renamed (fst (ruling ws scr)) (Name w) = to_of p" by blast
  from p ruling_valid [OF p(1)] show ?thesis
    unfolding is_zde_iff rename_ws_def ParseName_iff by auto
qed (simp add: is_zde_iff rename_ws_def)

lemma znames_renamed:
  "znames (map (rename_ws (fst (ruling ws scr))) xs) = map (renamed (fst (ruling ws scr))) (znames xs)"
  by (induction xs) (auto simp: znames_def is_zde_renamed, simp_all add: rename_ws_def)

text \<open>C1: Every rename a rebuild asks for only corrects a monitor: it keeps desk and slot, both
  monitors are screens, the workspace it addresses carries the old name alone and sits on
  the monitor the new name says. And the renames can be made one at a time in the order
  given, against all the names niri has, foreign ones included.\<close>

theorem Rebuild_renames_safe:
  "(\<forall>mv \<in> set (renames (Rebuild ws scr)).
      valid_name (From mv) \<and> To mv = (From mv)\<lparr>monitor := monitor (To mv)\<rparr> \<and> valid_name (To mv)
      \<and> monitor (From mv) \<noteq> monitor (To mv) \<and> {monitor (From mv), monitor (To mv)} \<subseteq> set scr
      \<and> (\<exists>!w. w \<in> set ws \<and> Name w = from_of mv \<and> Output w = monitor (To mv)))
   \<and> rename_all (renames (Rebuild ws scr)) (map Name ws) \<noteq> None"
proof
  show "\<forall>mv \<in> set (renames (Rebuild ws scr)).
      valid_name (From mv) \<and> To mv = (From mv)\<lparr>monitor := monitor (To mv)\<rparr> \<and> valid_name (To mv)
      \<and> monitor (From mv) \<noteq> monitor (To mv) \<and> {monitor (From mv), monitor (To mv)} \<subseteq> set scr
      \<and> (\<exists>!w. w \<in> set ws \<and> Name w = from_of mv \<and> Output w = monitor (To mv))"
  proof
    fix mv assume "mv \<in> set (renames (Rebuild ws scr))"
    then obtain r where r: "r \<in> set (readings ws scr)" "rd_move r" "From mv = rd_name r" "To mv = rd_to r"
      by (auto elim: ruling_reading)
    note ok = readings_ok(3,4) [OF r(1)] and mv = readings_moves [OF r(1,2)]
    have "is_zde (rd_w r)" using ok by (auto simp: is_zde_iff ParseName_iff)
    then have u: "w = rd_w r" if "w \<in> set ws" "Name w = String (rd_name r)" for w
      using unique_workspace [of "rd_w r" ws w] ok mv(5) that by metis
    have "rd_w r \<in> set ws \<and> Name (rd_w r) = from_of mv \<and> Output (rd_w r) = monitor (To mv)"
      using ok r mv(6) by simp
    then have "\<exists>!w. w \<in> set ws \<and> Name w = from_of mv \<and> Output w = monitor (To mv)"
      using u r(3) by (intro ex1I [of _ "rd_w r"]) metis+
    with ok r mv show "valid_name (From mv) \<and> To mv = (From mv)\<lparr>monitor := monitor (To mv)\<rparr>
      \<and> valid_name (To mv) \<and> monitor (From mv) \<noteq> monitor (To mv) \<and> {monitor (From mv), monitor (To mv)} \<subseteq> set scr
      \<and> (\<exists>!w. w \<in> set ws \<and> Name w = from_of mv \<and> Output w = monitor (To mv))" by simp
  qed
next
  let ?P = "\<lambda>s. \<exists>n. ParseName s = Inr n"
  have "filter ?P (map Name ws) = znames ws"
    by (induction ws) (auto simp: znames_def is_zde_iff)
  moreover have "?P (from_of r) \<and> ?P (to_of r)" if "r \<in> set (fst (ruling ws scr))" for r
    using ruling_valid [OF that] ParseName_String by blast
  ultimately show "rename_all (renames (Rebuild ws scr)) (map Name ws) \<noteq> None"
    using rename_all_filter [of "fst (ruling ws scr)" ?P "map Name ws"] ruling_ok(3) [of ws scr] by simp
qed

text \<open>C13: Once the renames a rebuild asked for have been made, the next rebuild of the same
  workspaces on the same screens asks for none: reconciling settles in one round.\<close>

theorem Rebuild_settles:
  "renames (Rebuild (map (rename_ws (renames (Rebuild ws scr))) ws) scr) = []"
proof -
  define G where "G = fst (ruling ws scr)"
  define vs where "vs = map (rename_ws G) ws"
  have zn: "znames vs = map (renamed G) (znames ws)" by (simp add: vs_def G_def znames_renamed)
  have "to_of mv \<in> set (znames vs)" if m: "mv \<in> set (moves_of (readings vs scr))" for mv
  proof -
    from m obtain q where q: "q \<in> set (readings vs scr)" "rd_move q" "mv = \<lparr>From = rd_name q, To = rd_to q\<rparr>"
      by (auto simp: set_moves_of)
    note ok = readings_ok(3,4) [OF q(1)] and mvs = readings_moves [OF q(1,2)]
    obtain w where w: "w \<in> set ws" "rd_w q = rename_ws G w" using ok(1) by (auto simp: vs_def)
    have z: "is_zde w" using ok(2) w(2) is_zde_renamed [of ws scr w] by (auto simp: G_def is_zde_iff ParseName_iff)
    then obtain n where n: "ParseName (Name w) = Inr n" by (auto simp: is_zde_iff)
    have zin: "Name w \<in> set (znames ws)" using w(1) z by (simp add: znames_def)
    have "count_list (znames ws) (Name w) \<le> count_list (map (renamed G) (znames ws)) (renamed G (Name w))"
      by (rule count_list_map_le)
    also have "\<dots> = 1" using mvs(5) ok(2) w(2) by (simp add: zn rename_ws_def)
    finally have one: "count_list (znames ws) (Name w) = 1"
      using zin by (metis count_list_0_iff le_eq_less_or_eq less_one)
    obtain r where r: "r \<in> set (readings ws scr)" "rd_name r = n" "rd_w r = w"
      by (rule reading_of_unique [OF w(1) n one])
    note S = settled_cases [OF r(1), folded G_def]
    have name: "String (rd_name q) = renamed G (String n)"
      using ok(2) w(2) n by (simp add: rename_ws_def ParseName_iff)
    then have same: "rd_name q = settled ws scr r"
      using String_settled [OF r(1)] settled_valid(1) [OF r(1)] ok(2) String_inj r(2) by (metis G_def)
    have "Output (rd_w q) = Output w" using w(2) by (simp add: rename_ws_def)
    then have st: "settled ws scr r = rd_name r" "String n \<notin> from_of ` set G"
      using S same mvs(2) readings_moves(6) [OF r(1)] r by auto
    have "rd_move r"
      using read_one_moves_iff [of n scr "count_list (znames ws)" w] readings_ok(4,5) [OF r(1)] r(2,3)
        mvs st(1) same one n \<open>Output (rd_w q) = Output w\<close> by (simp add: ParseName_iff)
    have "to_of mv = to_of \<lparr>From = rd_name r, To = rd_to r\<rparr>"
      using q(3) mvs(6) readings_moves(6) [OF r(1) \<open>rd_move r\<close>] same st r(3) \<open>Output (rd_w q) = Output w\<close> by simp
    moreover have "\<lparr>From = rd_name r, To = rd_to r\<rparr> \<in> set (moves_of (readings ws scr))"
      using r(1) \<open>rd_move r\<close> by (auto simp: set_moves_of)
    moreover have "\<lparr>From = rd_name r, To = rd_to r\<rparr> \<notin> set G" using st(2) r(2) by force
    ultimately have "to_of mv \<in> renamed G ` set (znames ws)"
      using ruling_ok(6) [where ws = ws and scr = scr] unfolding G_def by metis
    then show ?thesis by (simp add: zn)
  qed
  note in_use = this
  have "fst (ruling vs scr) = []"
    by (rule ruling_ok(7) [where ws = vs and scr = scr], assumption) (rule in_use)
  then show ?thesis by (simp add: vs_def G_def)
qed

lemma set_Workspaces:
  "set (Workspaces (Rebuild ws scr) d) = {settled ws scr r |r. r \<in> set (readings ws scr) \<and> desk (rd_name r) = d}"
  using settled_valid(2) by (force simp: Workspaces_Rebuild)

lemma sum_list_desks:
  assumes "distinct ks" "\<And>n. n \<in> set ns \<Longrightarrow> desk n \<in> set ks"
  shows "(\<Sum>d \<leftarrow> ks. length (filter (\<lambda>n. desk n = d) ns)) = length ns"
  using assms(2)
proof (induction ns)
  case (Cons n ns)
  have "(\<Sum>d \<leftarrow> ks. length (filter (\<lambda>m. desk m = d) (n # ns)))
      = (\<Sum>d \<leftarrow> ks. (if desk n = d then 1 else 0) + length (filter (\<lambda>m. desk m = d) ns))"
    by (rule arg_cong [where f = sum_list]) (rule map_cong, auto)
  also have "\<dots> = (\<Sum>d \<leftarrow> ks. if desk n = d then 1 else 0) + (\<Sum>d \<leftarrow> ks. length (filter (\<lambda>m. desk m = d) ns))"
    by (simp add: sum_list_addf)
  also have "(\<Sum>d \<leftarrow> ks. if desk n = d then 1 else (0::nat)) = count_list ks (desk n)"
    by (induction ks) auto
  also have "\<dots> = 1" using assms(1) Cons.prems by (simp add: count_list_distinct)
  finally show ?case using Cons by simp
qed simp

text \<open>C14: Nothing is lost and nothing made up. Every workspace niri reports is in the map once,
  as a foreign one or on one desk; a desk's names are valid, distinct and its own; together
  they are the zde names niri reports with the renames made; and a workspace is foreign only
  when its name is not a zde name or is shared with another.\<close>

theorem Rebuild_partition:
  "let m = Rebuild ws scr in
     length (foreign m) + (\<Sum>d \<leftarrow> DeskNames m. length (Workspaces m d)) = length ws
   \<and> (\<forall>d. distinct (Workspaces m d) \<and> (\<forall>n \<in> set (Workspaces m d). valid_name n \<and> desk n = d)
          \<and> (Workspaces m d \<noteq> [] \<longleftrightarrow> d \<in> set (DeskNames m)))
   \<and> String ` (\<Union>d. set (Workspaces m d)) = renamed (renames m) ` set (znames ws)
   \<and> set (foreign m) \<subseteq> {w \<in> set ws. is_zde w \<longrightarrow> 1 < count_list (znames ws) (Name w)}
   \<and> {w \<in> set ws. \<not> is_zde w} \<subseteq> set (foreign m)"
proof -
  let ?m = "Rebuild ws scr"
  have d: "set (DeskNames ?m) = desk ` set (map rd_name (readings ws scr))" "distinct (DeskNames ?m)"
    using keys_Rebuild [of ws scr] distinct_keys_Rebuild [of ws scr] by (simp_all add: DeskNames_def sort_strings_def)
  have len: "length (foreign ?m) + (\<Sum>d \<leftarrow> DeskNames ?m. length (Workspaces ?m d)) = length ws"
  proof -
    have "(\<Sum>d \<leftarrow> DeskNames ?m. length (Workspaces ?m d)) = length (map (settled ws scr) (readings ws scr))"
      unfolding Workspaces_Rebuild length_sort_by
      by (rule sum_list_desks) (use d settled_valid(2) in auto)
    moreover have "size (mset ws) = size (mset (foreign (first_half ws scr)) + mset (map rd_w (readings ws scr)))"
      using readings_ok(6) [of ws scr] by (rule arg_cong)
    ultimately show ?thesis by (simp add: foreign_Rebuild)
  qed
  have dist: "distinct (Workspaces ?m d)" for d
  proof -
    have "distinct (map String (map (settled ws scr) (readings ws scr)))"
      using settled_distinct [of ws scr] by (simp add: comp_def)
    then have "distinct (map (settled ws scr) (readings ws scr))" by (simp only: distinct_map)
    then show ?thesis by (simp add: Workspaces_Rebuild)
  qed
  have own: "\<forall>n \<in> set (Workspaces ?m d). valid_name n \<and> desk n = d" for d
    by (auto simp: set_Workspaces settled_valid)
  have ne: "Workspaces ?m d \<noteq> [] \<longleftrightarrow> d \<in> set (DeskNames ?m)" for d
    unfolding d(1) set_empty [symmetric] set_Workspaces by auto
  have "(\<Union>d. set (Workspaces ?m d)) = settled ws scr ` set (readings ws scr)"
    by (auto simp: set_Workspaces)
  then have "String ` (\<Union>d. set (Workspaces ?m d)) = renamed (renames ?m) ` (String \<circ> rd_name) ` set (readings ws scr)"
    by (simp add: image_image String_settled cong: image_cong_simp)
  then have names: "String ` (\<Union>d. set (Workspaces ?m d)) = renamed (renames ?m) ` set (znames ws)"
    by (simp only: readings_ok(2))
  have sub: "set (foreign (first_half ws scr)) \<subseteq> set ws"
    using readings_ok(6) [of ws scr] by (metis set_mset_mset set_mset_union Un_upper1)
  have nz: "{w \<in> set ws. \<not> is_zde w} \<subseteq> set (foreign (first_half ws scr))"
  proof
    fix w assume w: "w \<in> {w \<in> set ws. \<not> is_zde w}"
    then have "w \<in># mset (foreign (first_half ws scr)) + mset (map rd_w (readings ws scr))"
      using readings_ok(6) [of ws scr] by (metis mem_Collect_eq set_mset_mset)
    moreover have "w \<noteq> rd_w r" if "r \<in> set (readings ws scr)" for r
      using readings_ok(4) [OF that] w by (auto simp: is_zde_iff ParseName_iff)
    ultimately show "w \<in> set (foreign (first_half ws scr))" by auto
  qed
  show ?thesis
    unfolding Let_def
    by (intro conjI allI len dist own ne names)
      (use sub readings_ok(7) nz in \<open>auto simp: foreign_Rebuild\<close>)
qed

text \<open>Home is never erased. A workspace whose monitor is not a screen keeps its name, parked
  on a survivor or on no screen at all, and is reported displaced; with no screen list nothing
  is renamed and nothing is called displaced.\<close>

theorem Rebuild_keeps_home:
  assumes "w \<in> set ws" "ParseName (Name w) = Inr n" "monitor n \<notin> set scr"
  shows "renamed (renames (Rebuild ws scr)) (Name w) = Name w
    \<and> n \<in> set (Workspaces (Rebuild ws scr) (desk n))
    \<and> (count_list (znames ws) (Name w) = 1 \<longrightarrow>
         (n \<in> set (displaced (Rebuild ws scr)) \<longleftrightarrow> scr \<noteq> [] \<and> Output w \<noteq> monitor n))
    \<and> (scr = [] \<longrightarrow> renames (Rebuild ws scr) = [] \<and> displaced (Rebuild ws scr) = [])"
proof -
  obtain r where r: "r \<in> set (readings ws scr)" "rd_name r = n" by (rule zde_of_reading [OF assms(1,2)])
  have v: "valid_name n" "String n = Name w" using assms(2) by (simp_all add: ParseName_iff)
  have nm: "\<not> rd_move r" using readings_moves(3) [OF r(1)] r(2) assms(3) by blast
  then have st: "settled ws scr r = n" "Name w \<notin> from_of ` set (fst (ruling ws scr))"
    using settled_cases [OF r(1)] r(2) v by auto
  have "n \<in> set (Workspaces (Rebuild ws scr) (desk n))"
    unfolding set_Workspaces using r st(1) by (intro CollectI exI [of _ r]) simp
  moreover have "n \<in> set (displaced (Rebuild ws scr)) \<longleftrightarrow> scr \<noteq> [] \<and> Output w \<noteq> monitor n"
    if one: "count_list (znames ws) (Name w) = 1"
  proof -
    obtain q where q: "q \<in> set (readings ws scr)" "rd_name q = n" "rd_w q = w"
      by (rule reading_of_unique [OF assms(1,2) one])
    have u: "q' = q" if "q' \<in> set (readings ws scr)" "rd_name q' = n" for q'
      using readings_ok(1) [of ws scr] that q(1,2) by (metis comp_apply distinct_map inj_onD)
    have "n \<in> set (displaced (Rebuild ws scr)) \<longleftrightarrow>
        (\<exists>q' \<in> set (readings ws scr). rd_name q' = n \<and> away scr (count_list (znames ws)) q')"
      by (auto simp: displaced_Rebuild)
    then have "n \<in> set (displaced (Rebuild ws scr)) \<longleftrightarrow> away scr (count_list (znames ws)) q"
      using u q(1,2) by metis
    then show ?thesis using away_iff [OF v(1)] q assms(3) by (simp add: away_def)
  qed
  moreover have "renames (Rebuild ws []) = [] \<and> displaced (Rebuild ws []) = []"
  proof -
    have "\<not> rd_move r" "\<not> away [] h r" if "r \<in> set (readings ws [])" for r h
      using readings_moves(3) [OF that] readings_ok(4) [OF that] by (auto simp: away_def away_iff)
    then show ?thesis
      by (auto simp: displaced_Rebuild ruling_def moves_of_def grantMoves_def cong: filter_cong)
  qed
  ultimately show ?thesis using st(2) renamed_other by auto
qed

lemma Rebuild_keeps_home_witness:
  "let w = \<lparr>ID = 7, Idx = 1, Name = ''vshop.DP-1.code'', Output = ''eDP-1''\<rparr>
   in Name w = renamed (renames (Rebuild [w] [''eDP-1''])) (Name w)
    \<and> \<lparr>desk = ''vshop'', monitor = ''DP-1'', slot = ''code''\<rparr> \<in> set (displaced (Rebuild [w] [''eDP-1'']))"
proof -
  define w where "w = \<lparr>ID = 7, Idx = 1, Name = ''vshop.DP-1.code'', Output = ''eDP-1''\<rparr>"
  define n where "n = \<lparr>desk = ''vshop'', monitor = ''DP-1'', slot = ''code''\<rparr>"
  have p: "ParseName (Name w) = Inr n" unfolding w_def n_def by code_simp
  have z: "count_list (znames [w]) (Name w) = 1" unfolding w_def by code_simp
  have "monitor n \<notin> set [''eDP-1'']" "Output w \<noteq> monitor n" by (simp_all add: n_def w_def)
  with Rebuild_keeps_home [of w "[w]" n "[''eDP-1'']"] p z show ?thesis
    by (simp add: w_def n_def)
qed

text \<open>A workspace is in the band of the screen it is on and of no other, on its own desk and
  with niri's index, wherever its name says it belongs; and a band runs down the strip in the
  order of those indices.\<close>

theorem Band_is_the_strip:
  fixes ws :: "workspace list" and scr :: "string list"
  defines "m \<equiv> Rebuild ws scr"
  assumes "w \<in> set ws" "ParseName (Name w) = Inr n" "count_list (znames ws) (Name w) = 1" "Output w \<noteq> []"
  shows "\<exists>k. String k = renamed (renames m) (Name w) \<and> desk k = desk n \<and> idx m (String k) = Idx w
    \<and> (\<forall>d out. k \<in> set (Band m d out) \<longleftrightarrow> d = desk n \<and> out = Output w)
    \<and> sorted_wrt (\<lambda>a b. idx m (String a) \<le> idx m (String b)) (Band m (desk n) (Output w))"
proof -
  obtain r where r: "r \<in> set (readings ws scr)" "rd_name r = n" "rd_w r = w"
    by (rule reading_of_unique [OF assms(2-4)])
  define k where "k = settled ws scr r"
  have at: "at m (String k) = Output w" "idx m (String k) = Idx w"
  proof -
    have "rd_at r = Output w"
      using readings_ok(5) [OF r(1)] assms(5) r(2,3) by (simp add: read_one_def Let_def split: if_splits sum.splits)
    then show "at m (String k) = Output w" "idx m (String k) = Idx w"
      using at_Rebuild [OF r(1)] r(3) by (simp_all add: k_def m_def)
  qed
  have "String k = renamed (renames m) (Name w)"
    using String_settled [OF r(1)] readings_ok(4) [OF r(1)] r by (simp add: k_def m_def)
  moreover have "desk k = desk n" using settled_valid(2) [OF r(1)] r(2) by (simp add: k_def)
  moreover have "k \<in> set (Band m d out) \<longleftrightarrow> d = desk n \<and> out = Output w" for d out
  proof -
    have "k \<in> set (Workspaces m d) \<longleftrightarrow> d = desk n"
    proof
      assume "k \<in> set (Workspaces m d)"
      then obtain q where "q \<in> set (readings ws scr)" "k = settled ws scr q" "desk (rd_name q) = d"
        by (auto simp: m_def set_Workspaces)
      then show "d = desk n" using settled_valid(2) \<open>desk k = desk n\<close> by metis
    next
      assume "d = desk n"
      with r show "k \<in> set (Workspaces m d)"
        unfolding m_def set_Workspaces k_def by (intro CollectI exI [of _ r]) simp
    qed
    then show ?thesis using at(1) assms(5) by (auto simp: Band_def Workspaces_def [symmetric])
  qed
  moreover have "sorted_wrt (\<lambda>a b. idx m (String a) \<le> idx m (String b)) (Band m (desk n) (Output w))"
    using comparator.sorted_sort_by [OF comparator_key, of "\<lambda>n. idx m (String n)"]
    by (simp add: Band_def not_less)
  ultimately show ?thesis using at(2) by blast
qed

lemma Band_is_the_strip_witness:
  "let w = \<lparr>ID = 7, Idx = 3, Name = ''vshop.DP-1.code'', Output = ''eDP-1''\<rparr>
   in \<exists>k. k \<in> set (Band (Rebuild [w] [''eDP-1'']) ''vshop'' ''eDP-1'')"
proof -
  define w where "w = \<lparr>ID = 7, Idx = 3, Name = ''vshop.DP-1.code'', Output = ''eDP-1''\<rparr>"
  have p: "ParseName (Name w) = Inr \<lparr>desk = ''vshop'', monitor = ''DP-1'', slot = ''code''\<rparr>"
    unfolding w_def by code_simp
  have z: "count_list (znames [w]) (Name w) = 1" unfolding w_def by code_simp
  have o: "Output w \<noteq> []" "Output w = ''eDP-1''" by (simp_all add: w_def)
  have "\<exists>k. k \<in> set (Band (Rebuild [w] [''eDP-1'']) ''vshop'' (Output w))"
    using Band_is_the_strip [of w "[w]", OF _ p z o(1), of "[''eDP-1'']"] by auto
  then show ?thesis by (simp add: o w_def)
qed

lemma Rebuild_renames_safe_witness:
  "let w = \<lparr>ID = 7, Idx = 1, Name = ''vshop.DP-1.code'', Output = ''DP-2''\<rparr>;
       mv = \<lparr>From = \<lparr>desk = ''vshop'', monitor = ''DP-1'', slot = ''code''\<rparr>,
             To = \<lparr>desk = ''vshop'', monitor = ''DP-2'', slot = ''code''\<rparr>\<rparr>
   in mv \<in> set (renames (Rebuild [w] [''DP-1'', ''DP-2'']))
    \<and> rename_all (renames (Rebuild [w] [''DP-1'', ''DP-2''])) [Name w] \<noteq> None
    \<and> (\<exists>!v. v \<in> set [w] \<and> Name v = from_of mv \<and> Output v = monitor (To mv))"
proof -
  define w where "w = \<lparr>ID = 7, Idx = 1, Name = ''vshop.DP-1.code'', Output = ''DP-2''\<rparr>"
  define mv where "mv = \<lparr>From = \<lparr>desk = ''vshop'', monitor = ''DP-1'', slot = ''code''\<rparr>,
             To = \<lparr>desk = ''vshop'', monitor = ''DP-2'', slot = ''code''\<rparr>\<rparr>"
  have e: "renames (Rebuild [w] [''DP-1'', ''DP-2'']) = [mv]" unfolding w_def mv_def by code_simp
  from Rebuild_renames_safe [of "[w]" "[''DP-1'', ''DP-2'']"] show ?thesis
    unfolding e w_def [symmetric] mv_def [symmetric] Let_def by simp
qed

lemma Rebuild_partition_witness:
  "\<lparr>ID = 1, Idx = 1, Name = [], Output = ''DP-1''\<rparr>
     \<in> set (foreign (Rebuild [\<lparr>ID = 1, Idx = 1, Name = [], Output = ''DP-1''\<rparr>] [''DP-1'']))"
proof -
  define w where "w = \<lparr>ID = 1, Idx = 1, Name = [], Output = ''DP-1''\<rparr>"
  have "{v \<in> set [w]. \<not> is_zde v} \<subseteq> set (foreign (Rebuild [w] [''DP-1'']))"
    using Rebuild_partition [of "[w]" "[''DP-1'']"] unfolding Let_def by blast
  moreover have "\<not> is_zde w" unfolding w_def by code_simp
  ultimately show ?thesis by (auto simp: w_def [symmetric])
qed

end
