(* ===== verification/Desk_Plan.thy ===== *)
theory Desk_Plan
  imports Desk_Map "HOL-Library.Signed_Division"
begin

text \<open>
  What is decided over a desk map, without touching the compositor: the rotation
  (\<open>rotate.go\<close>), a step inside a band (\<open>scroll.go\<close>), what a switch focuses (\<open>switch.go\<close>),
  the name a carried workspace gets (\<open>move.go\<close>), and the names adoption and a manifest hand
  out (\<open>adopt.go\<close>).
\<close>

section \<open>Rotation\<close>

definition Rotation :: "desk_map \<Rightarrow> string list" where
  "Rotation m = filter (\<lambda>d. d \<noteq> Regulars) (DeskNames m)"

text \<open>The first index of a value, as the loops that return from inside a \<open>range\<close> find it.\<close>

fun index_of :: "'a \<Rightarrow> 'a list \<Rightarrow> nat option" where
  "index_of x [] = None"
| "index_of x (y # ys) = (if y = x then Some 0 else map_option Suc (index_of x ys))"

definition step :: "string list \<Rightarrow> string \<Rightarrow> int \<Rightarrow> string" where
  "step rotation from by =
     (if rotation = [] then []
      else (case index_of from rotation of
              Some i \<Rightarrow>
                (let n = int (length rotation)
                 in rotation ! nat (((int i + by) smod n + n) smod n))
            | None \<Rightarrow> if by > 0 then rotation ! 0 else rotation ! (length rotation - 1)))"

definition Next :: "string list \<Rightarrow> string \<Rightarrow> string" where "Next rotation from = step rotation from 1"
definition Prev :: "string list \<Rightarrow> string \<Rightarrow> string" where "Prev rotation from = step rotation from (-1)"

definition BandStep :: "name list \<Rightarrow> name \<Rightarrow> int \<Rightarrow> name option" where
  "BandStep band from by =
     (if band = [] then None
      else (case index_of from band of
              Some i \<Rightarrow>
                (let next = int i + by
                 in if next < 0 \<or> int (length band) \<le> next then None else Some (band ! nat next))
            | None \<Rightarrow> if by > 0 then Some (band ! 0) else Some (band ! (length band - 1))))"

lemma index_of_Some: "index_of x xs = Some i \<Longrightarrow> i < length xs \<and> xs ! i = x"
  by (induction xs arbitrary: i) (auto split: if_splits)

lemma index_of_None: "index_of x xs = None \<longleftrightarrow> x \<notin> set xs"
  by (induction xs) auto

lemma index_of_nth: "distinct xs \<Longrightarrow> i < length xs \<Longrightarrow> index_of (xs ! i) xs = Some i"
  by (induction xs arbitrary: i) (auto simp: nth_Cons split: nat.split)

text \<open>Go's remainder truncates; the code adds the length and takes it again, which is \<open>mod\<close>.\<close>

lemma wrapped_index: "0 < (n::int) \<Longrightarrow> (k smod n + n) smod n = k mod n"
proof -
  assume n: "0 < n"
  obtain q where q: "k smod n = k + n * q"
    using mult_sdiv_smod_eq [of n k] by (metis add.commute add_diff_cancel_right' diff_conv_add_uminus mult_minus_right)
  have "- n < k smod n" using n smod_int_range [of n k] by auto
  then have "(k smod n + n) smod n = (k smod n + n) mod n"
    using n by (simp add: smod_int_alt_def sgn_if)
  also have "\<dots> = k mod n" by (simp add: q)
  finally show ?thesis .
qed

lemma step_in:
  assumes "distinct rot" "i < length rot"
  shows "step rot (rot ! i) by = rot ! nat ((int i + by) mod int (length rot))"
proof -
  have "rot \<noteq> []" "0 < int (length rot)" using assms(2) by auto
  then show ?thesis using assms by (simp add: step_def index_of_nth Let_def wrapped_index)
qed

lemma step_bounds: "i < length rot \<Longrightarrow> nat ((int i + by) mod int (length rot)) < length rot"
  by (metis gr_implies_not0 linorder_neqE_nat nat_less_iff of_nat_0_less_iff pos_mod_bound pos_mod_sign)

lemma funpow_Next:
  assumes "distinct rot" "i < length rot"
  shows "(Next rot ^^ k) (rot ! i) = rot ! ((i + k) mod length rot)"
proof (induction k)
  case 0
  then show ?case using assms(2) by simp
next
  case (Suc k)
  have lt: "(i + k) mod length rot < length rot" using assms(2) by (intro mod_less_divisor) auto
  have "(Next rot ^^ Suc k) (rot ! i) = Next rot (rot ! ((i + k) mod length rot))" using Suc by simp
  also have "\<dots> = rot ! nat ((int ((i + k) mod length rot) + 1) mod int (length rot))"
    unfolding Next_def by (rule step_in [OF assms(1) lt])
  also have "(int ((i + k) mod length rot) + 1) mod int (length rot) = int ((i + Suc k) mod length rot)"
    by (simp add: zmod_int mod_simps) (simp add: ac_simps)
  finally show ?case by simp
qed

text \<open>Rotating forwards and backwards undo each other, and rotating forwards visits every
  desk of the rotation, and only those, before it comes back to where it started.\<close>

theorem rotation_is_a_ring:
  assumes "distinct rot" "d \<in> set rot"
  shows "Prev rot (Next rot d) = d \<and> Next rot (Prev rot d) = d
    \<and> {(Next rot ^^ k) d |k. k < length rot} = set rot \<and> (Next rot ^^ length rot) d = d"
proof -
  obtain i where i: "i < length rot" "d = rot ! i" using assms(2) by (metis in_set_conv_nth)
  let ?n = "int (length rot)"
  have pos: "0 < ?n" using i by auto
  have undo: "step rot (step rot d by) (- by) = d" for "by"
  proof -
    have "step rot (step rot d by) (- by) = rot ! nat ((int (nat ((int i + by) mod ?n)) + - by) mod ?n)"
      using step_in [OF assms(1) i(1), of "by"] step_in [OF assms(1) step_bounds [OF i(1)], of "by" "- by"] i(2) by simp
    also have "(int (nat ((int i + by) mod ?n)) + - by) mod ?n = int i mod ?n"
      using pos by (simp add: mod_simps)
    also have "\<dots> = int i" using i(1) by simp
    finally show ?thesis using i(2) by simp
  qed
  have "{(Next rot ^^ k) d |k. k < length rot} = set rot"
  proof -
    have "\<exists>k < length rot. rot ! j = (Next rot ^^ k) d" if j: "j < length rot" for j
    proof (rule exI [of _ "(j + (length rot - i)) mod length rot"], intro conjI)
      have "(i + (j + (length rot - i)) mod length rot) mod length rot = (j + length rot) mod length rot"
        using i(1) by (simp add: mod_simps)
      then show "rot ! j = (Next rot ^^ ((j + (length rot - i)) mod length rot)) d"
        using funpow_Next [OF assms(1) i(1)] i(2) j by simp
      have "0 < length rot" using i(1) by linarith
      then show "(j + (length rot - i)) mod length rot < length rot" by simp
    qed
    moreover have "(Next rot ^^ k) d \<in> set rot" for k
      using funpow_Next [OF assms(1) i(1)] i pos by (simp add: i(2) nth_mem)
    ultimately show ?thesis by (auto simp: in_set_conv_nth) metis
  qed
  with undo [of 1] undo [of "- 1"] funpow_Next [OF assms(1) i(1), of "length rot"] i show ?thesis
    by (simp add: Next_def Prev_def)
qed

lemma rotation_is_a_ring_witness:
  "Prev [''a'', ''b'', ''c''] (Next [''a'', ''b'', ''c''] ''c'') = ''c''"
  using rotation_is_a_ring [of "[''a'', ''b'', ''c'']" "''c''"] by simp

lemma Rotation_facts: "distinct (map fst (desks m)) \<Longrightarrow> distinct (Rotation m) \<and> Regulars \<notin> set (Rotation m)"
  by (simp add: Rotation_def DeskNames_def sort_strings_def)

text \<open>A scroll stays in its band: the step lands on the neighbour, ends where the band ends,
  and the way back is the way it came.\<close>

theorem BandStep_clamps:
  assumes "distinct band" "i < length band" "by = 1 \<or> by = -1"
  shows "BandStep band (band ! i) by =
      (if 0 \<le> int i + by \<and> int i + by < int (length band) then Some (band ! nat (int i + by)) else None)
    \<and> (\<forall>n. BandStep band (band ! i) by = Some n \<longrightarrow> BandStep band n (- by) = Some (band ! i))"
proof -
  have one: "BandStep band (band ! j) b =
      (if 0 \<le> int j + b \<and> int j + b < int (length band) then Some (band ! nat (int j + b)) else None)"
    if "j < length band" for j b
    using assms(1) that by (auto simp: BandStep_def index_of_nth Let_def)
  have "BandStep band n (- by) = Some (band ! i)" if "BandStep band (band ! i) by = Some n" for n
  proof -
    have b: "0 \<le> int i + by" "int i + by < int (length band)" "n = band ! nat (int i + by)"
      using that one [OF assms(2), of "by"] by (auto split: if_splits)
    then show ?thesis using one [of "nat (int i + by)" "- by"] assms(2) by auto
  qed
  with one [OF assms(2)] show ?thesis by blast
qed

lemma BandStep_clamps_witness:
  "BandStep [\<lparr>desk = ''d'', monitor = ''A'', slot = ''1''\<rparr>, \<lparr>desk = ''d'', monitor = ''A'', slot = ''2''\<rparr>]
     \<lparr>desk = ''d'', monitor = ''A'', slot = ''2''\<rparr> 1 = None"
  using BandStep_clamps [of "[\<lparr>desk = ''d'', monitor = ''A'', slot = ''1''\<rparr>, \<lparr>desk = ''d'', monitor = ''A'', slot = ''2''\<rparr>]" 1 1]
  by simp


section \<open>The name a carried workspace gets\<close>

definition suffixed :: "string \<Rightarrow> nat \<Rightarrow> string" where
  "suffixed s i = (if 1 < i then s @ ''-'' @ itoa i else s)"

text \<open>A name that could be built is short, so the counter that made it is small.\<close>

lemma NewName_length: "NewName d m s = Inr n \<Longrightarrow> length s \<le> 194"
proof -
  assume a: "NewName d m s = Inr n"
  then have "valid_name n" "String n = d @ ''.'' @ m @ ''.'' @ s" by (simp_all add: NewName_iff)
  moreover have "valid_name n \<Longrightarrow> length (String n) \<le> 194"
    by (simp add: String_def valid_name_def ValidDesk_def valid_slot_def partMax_def)
  ultimately show ?thesis by simp
qed

lemma suffixed_bound: "NewName d m (suffixed s i) = Inr n \<Longrightarrow> i < 10 ^ 194"
proof (cases "1 < i")
  case True
  assume a: "NewName d m (suffixed s i) = Inr n"
  then have "length (itoa i) \<le> 194" using NewName_length [OF a] True by (simp add: suffixed_def)
  then show ?thesis by (rule itoa_length_bound)
next
  case False
  have "(1::nat) < 10 ^ 194" by (rule one_less_power) auto
  with False show ?thesis by linarith
qed

function suffix_loop :: "string list \<Rightarrow> string \<Rightarrow> string \<Rightarrow> string \<Rightarrow> nat \<Rightarrow> name option" where
  "suffix_loop taken band mon s i =
     (case NewName band mon (suffixed s i) of
        Inl _ \<Rightarrow> None
      | Inr n \<Rightarrow> if String n \<notin> set taken then Some n else suffix_loop taken band mon s (i + 1))"
  by pat_completeness auto
termination
  by (relation "measure (\<lambda>(taken, band, mon, s, i). 10 ^ 194 - i)") (auto dest: suffixed_bound)

declare suffix_loop.simps [simp del]

definition MoveTo :: "desk_map option \<Rightarrow> name \<Rightarrow> string \<Rightarrow> name option" where
  "MoveTo m from band =
     (let taken = (case m of None \<Rightarrow> [] | Some m \<Rightarrow> map String (Workspaces m band))
      in suffix_loop taken band (monitor from) (slot from) 1)"

lemma suffix_loop_Some:
  "suffix_loop taken band mon s i = Some n \<Longrightarrow>
   String n \<notin> set taken \<and> (\<exists>j \<ge> i. NewName band mon (suffixed s j) = Inr n
     \<and> (\<forall>k. i \<le> k \<and> k < j \<longrightarrow> band @ ''.'' @ mon @ ''.'' @ suffixed s k \<in> set taken))"
proof (induction taken band mon s i rule: suffix_loop.induct)
  case (1 taken band mon s i)
  show ?case
  proof (cases "NewName band mon (suffixed s i)")
    case (Inl e)
    with 1 show ?thesis by (simp add: suffix_loop.simps)
  next
    case (Inr m)
    show ?thesis
    proof (cases "String m \<in> set taken")
      case True
      with 1 Inr obtain j where j: "String n \<notin> set taken" "i + 1 \<le> j" "NewName band mon (suffixed s j) = Inr n"
        "\<forall>k. i + 1 \<le> k \<and> k < j \<longrightarrow> band @ ''.'' @ mon @ ''.'' @ suffixed s k \<in> set taken"
        by (subst (asm) (2) suffix_loop.simps) auto
      have "band @ ''.'' @ mon @ ''.'' @ suffixed s i \<in> set taken" using True Inr by (simp add: NewName_iff)
      with j(4) have "\<forall>k. i \<le> k \<and> k < j \<longrightarrow> band @ ''.'' @ mon @ ''.'' @ suffixed s k \<in> set taken"
        by (metis Suc_eq_plus1 Suc_leI le_neq_implies_less)
      with j show ?thesis by (intro conjI exI [of _ j]) simp_all
    next
      case False
      with 1 Inr show ?thesis by (auto simp: suffix_loop.simps intro!: exI [of _ i])
    qed
  qed
qed

lemma suffix_loop_None:
  "suffix_loop taken band mon s i = None \<Longrightarrow>
   \<exists>j \<ge> i. (\<exists>e. NewName band mon (suffixed s j) = Inl e)
     \<and> (\<forall>k. i \<le> k \<and> k < j \<longrightarrow> band @ ''.'' @ mon @ ''.'' @ suffixed s k \<in> set taken)"
proof (induction taken band mon s i rule: suffix_loop.induct)
  case (1 taken band mon s i)
  show ?case
  proof (cases "NewName band mon (suffixed s i)")
    case (Inl e)
    then show ?thesis by auto
  next
    case (Inr m)
    then have t: "String m \<in> set taken" using 1(2) by (simp add: suffix_loop.simps split: if_splits)
    with 1 Inr obtain j where j: "i + 1 \<le> j" "\<exists>e. NewName band mon (suffixed s j) = Inl e"
      "\<forall>k. i + 1 \<le> k \<and> k < j \<longrightarrow> band @ ''.'' @ mon @ ''.'' @ suffixed s k \<in> set taken"
      by (subst (asm) (2) suffix_loop.simps) auto
    have "band @ ''.'' @ mon @ ''.'' @ suffixed s i \<in> set taken" using t Inr by (simp add: NewName_iff)
    with j(3) have "\<forall>k. i \<le> k \<and> k < j \<longrightarrow> band @ ''.'' @ mon @ ''.'' @ suffixed s k \<in> set taken"
      by (metis Suc_eq_plus1 Suc_leI le_neq_implies_less)
    with j show ?thesis by (intro exI [of _ j]) simp
  qed
qed

lemma itoa_length_mono: "i \<le> j \<Longrightarrow> length (itoa i) \<le> length (itoa j)"
proof (induction j arbitrary: i rule: itoa.induct)
  case (1 j)
  show ?case
  proof (cases "j < 10")
    case False
    show ?thesis
    proof (cases "i < 10")
      case True
      have "itoa j \<noteq> []" by simp
      then have "1 \<le> length (itoa j)" by (cases "itoa j") auto
      moreover have "length (itoa i) = 1" using True by (subst itoa.simps) simp
      ultimately show ?thesis by simp
    next
      case i: False
      have "i div 10 \<le> j div 10" using "1.prems" by (rule div_le_mono)
      then have "length (itoa (i div 10)) \<le> length (itoa (j div 10))" by (rule "1.IH" [OF False])
      then show ?thesis by (subst (1 2) itoa.simps) (use i False in simp)
    qed
  next
    case True
    then show ?thesis using "1.prems" by (subst (1 2) itoa.simps) simp
  qed
qed

lemma itoa_chars: "c \<in> set (itoa n) \<Longrightarrow> is_digit c"
  using itoa_digits [of n] by (simp add: list_all_iff)

lemma digit_lower_num: "is_digit c \<Longrightarrow> lower_num c"
  by (simp add: lower_num_def)

lemma namePart_dash_digits: "namePart s \<Longrightarrow> d \<noteq> [] \<Longrightarrow> list_all lower_num d \<Longrightarrow> namePart (s @ ''-'' @ d)"
proof (induction d rule: rev_induct)
  case (snoc c d)
  show ?case
  proof (cases "d = []")
    case True
    with snoc.prems namePart_dash_snoc [of s c] show ?thesis by simp
  next
    case False
    with snoc namePart_snoc [of "s @ ''-'' @ d" c] show ?thesis by simp
  qed
qed simp

lemma suffixed_valid:
  assumes "valid_slot s" "length (suffixed s i) \<le> partMax"
  shows "valid_slot (suffixed s i)"
proof (cases "1 < i")
  case True
  have "namePart (s @ ''-'' @ itoa i)"
    using assms(1) itoa_digits [of i]
    by (intro namePart_dash_digits) (auto simp: valid_slot_def list_all_iff digit_lower_num)
  moreover have "\<not> leading_zero (s @ ''-'' @ itoa i)"
    by (simp add: leading_zero_def isDigits_def is_digit_def)
  ultimately show ?thesis using True assms(2) by (simp add: suffixed_def valid_slot_def)
qed (use assms in \<open>simp add: suffixed_def\<close>)

lemma suffixed_inj: "1 \<le> i \<Longrightarrow> 1 \<le> j \<Longrightarrow> suffixed s i = suffixed s j \<Longrightarrow> i = j"
  by (auto simp: suffixed_def split: if_splits)

lemma NewName_valid_parts:
  "ValidDesk d \<Longrightarrow> monitorPart m \<Longrightarrow> length m \<le> partMax \<Longrightarrow> valid_slot s \<Longrightarrow>
   NewName d m s = Inr \<lparr>desk = d, monitor = m, slot = s\<rparr>"
  by (simp add: NewName_iff String_def valid_name_def)

lemma NewName_from:
  assumes "valid_name n" "NewName d (monitor n) s = Inr k" "CHR ''.'' \<notin> set d"
  shows "k = \<lparr>desk = d, monitor = monitor n, slot = s\<rparr>"
proof -
  have k: "valid_name k" "String k = d @ ''.'' @ monitor n @ ''.'' @ s" using assms(2) by (simp_all add: NewName_iff)
  have m: "CHR ''.'' \<notin> set (monitor n)" using assms(1) monitorPart_no_dot by (simp add: valid_name_def)
  have "count_list s (CHR ''.'') = 0"
    using count_dots_String [OF k(1)] m assms(3) by (simp add: k(2) count_list_append count_notin)
  then have "CHR ''.'' \<notin> set s" by (simp add: count_list_0_iff)
  with NewName_parts [OF assms(3) m] assms(2) show ?thesis by blast
qed

text \<open>The name a workspace gets in the band it is carried to keeps its monitor, is a valid name
  nothing in that band carries, and is its own label with the smallest free suffix. There is
  always one as long as the label leaves room for the suffix; the only other way to get none
  is a label so long that the suffix does not fit.\<close>

theorem MoveTo_finds_a_name:
  assumes "valid_name from" "ValidDesk band"
    and taken: "taken = map String (Workspaces m band)"
  shows "(\<forall>n. MoveTo (Some m) from band = Some n \<longrightarrow>
        valid_name n \<and> desk n = band \<and> monitor n = monitor from \<and> String n \<notin> set taken
        \<and> (\<exists>i \<ge> 1. slot n = suffixed (slot from) i
           \<and> (\<forall>k. 1 \<le> k \<and> k < i \<longrightarrow> String \<lparr>desk = band, monitor = monitor from, slot = suffixed (slot from) k\<rparr> \<in> set taken)))
    \<and> (length (suffixed (slot from) (length taken + 1)) \<le> partMax \<longrightarrow> MoveTo (Some m) from band \<noteq> None)"
proof (intro conjI allI impI)
  fix n assume "MoveTo (Some m) from band = Some n"
  then have "suffix_loop taken band (monitor from) (slot from) 1 = Some n" by (simp add: MoveTo_def taken)
  then obtain j where j: "String n \<notin> set taken" "1 \<le> j" "NewName band (monitor from) (suffixed (slot from) j) = Inr n"
    "\<forall>k. 1 \<le> k \<and> k < j \<longrightarrow> band @ ''.'' @ monitor from @ ''.'' @ suffixed (slot from) k \<in> set taken"
    using suffix_loop_Some by blast
  have "CHR ''.'' \<notin> set band" using assms(2) namePart_no_dot by (simp add: ValidDesk_def)
  with NewName_from [OF assms(1) j(3)] have "n = \<lparr>desk = band, monitor = monitor from, slot = suffixed (slot from) j\<rparr>" .
  with j show "valid_name n" "desk n = band" "monitor n = monitor from" "String n \<notin> set taken"
    "\<exists>i \<ge> 1. slot n = suffixed (slot from) i
           \<and> (\<forall>k. 1 \<le> k \<and> k < i \<longrightarrow> String \<lparr>desk = band, monitor = monitor from, slot = suffixed (slot from) k\<rparr> \<in> set taken)"
    by (auto simp: NewName_iff String_def)
next
  assume room: "length (suffixed (slot from) (length taken + 1)) \<le> partMax"
  show "MoveTo (Some m) from band \<noteq> None"
  proof
    assume "MoveTo (Some m) from band = None"
    then have "suffix_loop taken band (monitor from) (slot from) 1 = None" by (simp add: MoveTo_def taken)
    then obtain j e where j: "1 \<le> j" "NewName band (monitor from) (suffixed (slot from) j) = Inl e"
      "\<forall>k. 1 \<le> k \<and> k < j \<longrightarrow> band @ ''.'' @ monitor from @ ''.'' @ suffixed (slot from) k \<in> set taken"
      using suffix_loop_None by blast
    have "inj_on (\<lambda>k. band @ ''.'' @ monitor from @ ''.'' @ suffixed (slot from) k) {1..<j}"
      by (intro inj_onI, rule suffixed_inj [of _ _ "slot from"]) simp_all
    then have "card ((\<lambda>k. band @ ''.'' @ monitor from @ ''.'' @ suffixed (slot from) k) ` {1..<j}) = j - 1"
      by (simp add: card_image)
    moreover have "(\<lambda>k. band @ ''.'' @ monitor from @ ''.'' @ suffixed (slot from) k) ` {1..<j} \<subseteq> set taken"
      using j(3) by auto
    ultimately have "j - 1 \<le> length taken" by (metis card_length card_mono finite_set order_trans)
    then have "j \<le> length taken + 1" by simp
    then have "length (suffixed (slot from) j) \<le> partMax"
      using room j(1) itoa_length_mono [of j "length taken + 1"] by (auto simp: suffixed_def split: if_splits)
    then have "valid_slot (suffixed (slot from) j)" using assms(1) by (intro suffixed_valid) (simp_all add: valid_name_def)
    with assms j(2) show False by (simp add: NewName_valid_parts valid_name_def)
  qed
qed

lemma MoveTo_finds_a_name_witness:
  "MoveTo (Some (Rebuild [] [])) \<lparr>desk = ''a'', monitor = ''DP-1'', slot = ''code''\<rparr> ''b'' \<noteq> None"
proof -
  have v: "valid_name \<lparr>desk = ''a'', monitor = ''DP-1'', slot = ''code''\<rparr>" "ValidDesk ''b''" by code_simp+
  have "length (suffixed ''code'' (length (map String (Workspaces (Rebuild [] []) ''b'')) + 1)) \<le> partMax" by code_simp
  with MoveTo_finds_a_name [OF v refl, of "Rebuild [] []"] show ?thesis by simp
qed


section \<open>What a switch focuses\<close>

fun pick_loop :: "string \<Rightarrow> (string \<rightharpoonup> string) \<Rightarrow> name list \<Rightarrow> name option \<Rightarrow> name + name option" where
  "pick_loop screen active [] parked = Inr parked"
| "pick_loop screen active (n # ns) parked =
     (if active (monitor n) \<noteq> Some (slot n) then pick_loop screen active ns parked
      else if monitor n = screen then Inl n
      else if parked = None then pick_loop screen active ns (Some n)
      else pick_loop screen active ns parked)"

definition pick :: "desk_map \<Rightarrow> string \<Rightarrow> string \<Rightarrow> (string \<rightharpoonup> string) \<Rightarrow> name option" where
  "pick m target screen active =
     (let band = Band m target screen
      in if band = [] then None
         else (case pick_loop screen active band None of
                 Inl n \<Rightarrow> Some n
               | Inr (Some n) \<Rightarrow> Some n
               | Inr None \<Rightarrow> Some (band ! 0)))"

definition Landing :: "desk_map \<Rightarrow> string \<Rightarrow> string \<Rightarrow> (string \<rightharpoonup> string) \<Rightarrow> name option" where
  "Landing m target screen active = pick m target screen active"

fun switch_loop :: "desk_map \<Rightarrow> string \<Rightarrow> (string \<rightharpoonup> string) \<Rightarrow> name list \<Rightarrow> string list \<Rightarrow> name list" where
  "switch_loop m target active [] seen = []"
| "switch_loop m target active (n # ns) seen =
     (let screen = at m (String n)
      in if screen \<in> set seen then switch_loop m target active ns seen
         else (case pick m target screen active of
                 Some landing \<Rightarrow> landing # switch_loop m target active ns (screen # seen)
               | None \<Rightarrow> switch_loop m target active ns (screen # seen)))"

definition SwitchPlan :: "desk_map \<Rightarrow> string \<Rightarrow> (string \<rightharpoonup> string) \<Rightarrow> name list" where
  "SwitchPlan m target active = switch_loop m target active (Workspaces m target) []"

text \<open>What \<open>pick\<close> chooses, said without the loop.\<close>

definition remembered :: "(string \<rightharpoonup> string) \<Rightarrow> name \<Rightarrow> bool" where
  "remembered active n \<longleftrightarrow> active (monitor n) = Some (slot n)"

definition chosen :: "string \<Rightarrow> (string \<rightharpoonup> string) \<Rightarrow> name list \<Rightarrow> name option" where
  "chosen screen active band =
     (case find (\<lambda>n. remembered active n \<and> monitor n = screen) band of
        Some n \<Rightarrow> Some n
      | None \<Rightarrow> (case find (remembered active) band of
           Some n \<Rightarrow> Some n
         | None \<Rightarrow> (case band of [] \<Rightarrow> None | n # _ \<Rightarrow> Some n)))"

lemma pick_loop_find:
  "pick_loop screen active band parked =
     (case find (\<lambda>n. remembered active n \<and> monitor n = screen) band of
        Some n \<Rightarrow> Inl n
      | None \<Rightarrow> Inr (case parked of Some p \<Rightarrow> Some p | None \<Rightarrow> find (remembered active) band))"
  by (induction band arbitrary: parked) (auto simp: remembered_def split: option.splits)

lemma pick_chosen: "pick m target screen active = chosen screen active (Band m target screen)"
  by (auto simp: pick_def chosen_def pick_loop_find Let_def split: option.splits list.splits)

lemma chosen_in: "chosen screen active band = Some n \<Longrightarrow> n \<in> set band"
  by (auto simp: chosen_def find_Some_iff split: option.splits list.splits)

lemma chosen_None: "chosen screen active band = None \<longleftrightarrow> band = []"
  by (auto simp: chosen_def split: option.splits list.splits)

lemma Band_members: "n \<in> set (Band m d out) \<longleftrightarrow> out \<noteq> [] \<and> n \<in> set (Workspaces m d) \<and> at m (String n) = out"
  by (auto simp: Band_def Workspaces_def)

lemma pick_facts:
  "pick m d screen active = Some n \<Longrightarrow> n \<in> set (Workspaces m d) \<and> at m (String n) = screen \<and> screen \<noteq> []"
  using chosen_in [of screen active "Band m d screen" n] by (auto simp: pick_chosen Band_members)

lemma pick_None: "pick m d screen active = None \<longleftrightarrow> screen = [] \<or> screen \<notin> (\<lambda>n. at m (String n)) ` set (Workspaces m d)"
  unfolding pick_chosen chosen_None using Band_members [of _ m d screen]
  by (metis (no_types, lifting) empty_iff empty_set image_iff last_in_set)

lemma switch_loop_facts:
  assumes "set ns \<subseteq> set (Workspaces m d)"
  shows "distinct (map (\<lambda>n. at m (String n)) (switch_loop m d active ns seen))
    \<and> (\<lambda>n. at m (String n)) ` set (switch_loop m d active ns seen) = (\<lambda>n. at m (String n)) ` set ns - set seen - {[]}
    \<and> (\<forall>n \<in> set (switch_loop m d active ns seen). pick m d (at m (String n)) active = Some n)"
  using assms
proof (induction ns arbitrary: seen)
  case (Cons n ns)
  let ?s = "at m (String n)"
  have n: "n \<in> set (Workspaces m d)" and ns: "set ns \<subseteq> set (Workspaces m d)" using Cons.prems by auto
  note IH = Cons.IH [OF ns]
  show ?case
  proof (cases "?s \<in> set seen")
    case True
    then show ?thesis using IH [of seen] by (auto simp: Let_def)
  next
    case False
    show ?thesis
    proof (cases "pick m d ?s active")
      case None
      then have "?s = []" using n by (auto simp: pick_None)
      with None False IH [of "?s # seen"] show ?thesis by (auto simp: Let_def)
    next
      case (Some k)
      then have k: "at m (String k) = ?s" "?s \<noteq> []" using pick_facts [OF Some] by auto
      with Some False IH [of "?s # seen"] show ?thesis by (auto simp: Let_def)
    qed
  qed
qed simp

text \<open>A desk switch focuses exactly one workspace on every screen the desk is on and nothing
  anywhere else. On each screen it is the workspace the desk was left on there, if it is still
  in that screen's band; failing that one remembered from a monitor that is parked there; and
  failing that the top of the strip.\<close>

theorem SwitchPlan_covers_screens:
  "distinct (map (\<lambda>n. at m (String n)) (SwitchPlan m d active))
   \<and> {at m (String n) |n. n \<in> set (SwitchPlan m d active)} = {s. s \<noteq> [] \<and> (\<exists>n \<in> set (Workspaces m d). at m (String n) = s)}
   \<and> (\<forall>n \<in> set (SwitchPlan m d active). n \<in> set (Workspaces m d) \<and> chosen (at m (String n)) active (Band m d (at m (String n))) = Some n)"
proof -
  have w: "n \<in> set (Workspaces m d)" if "pick m d (at m (String n)) active = Some n" for n
    using pick_facts [OF that] by blast
  show ?thesis
    unfolding SwitchPlan_def pick_chosen [symmetric]
    using switch_loop_facts [OF subset_refl, of m d active "[]"] w by auto
qed

lemma SwitchPlan_covers_screens_witness:
  "let n = \<lparr>desk = ''d'', monitor = ''A'', slot = ''1''\<rparr>;
       m = Rebuild [\<lparr>ID = 1, Idx = 1, Name = ''d.A.1'', Output = ''A''\<rparr>] [''A'']
   in n \<in> set (SwitchPlan m ''d'' Map.empty)"
proof -
  define n where "n = \<lparr>desk = ''d'', monitor = ''A'', slot = ''1''\<rparr>"
  define m where "m = Rebuild [\<lparr>ID = 1, Idx = 1, Name = ''d.A.1'', Output = ''A''\<rparr>] [''A'']"
  have a: "set (Workspaces m ''d'') = {n}" unfolding m_def n_def by code_simp
  have b: "at m (String n) = ''A''" unfolding m_def n_def by code_simp
  note s = SwitchPlan_covers_screens [of m "''d''" Map.empty]
  have "''A'' \<in> {s. s \<noteq> [] \<and> (\<exists>n \<in> set (Workspaces m ''d''). at m (String n) = s)}" using a b by simp
  then obtain k where k: "k \<in> set (SwitchPlan m ''d'' Map.empty)" using s by blast
  then have "k = n" using s a by blast
  with k show ?thesis by (simp add: n_def [symmetric] m_def [symmetric])
qed

end
