(* ===== verification/Desk_Adopt.thy ===== *)
theory Desk_Adopt
  imports Desk_Plan
begin

text \<open>
  \<open>internal/desk/adopt.go\<close>: the names handed to workspaces that have none. \<open>AdoptPlan\<close> names
  what is in use on the active desk, \<open>MissingPlan\<close> gives a manifest's names to empty ones.
  The ordinal counter is Go's \<open>int\<close>, a 64-bit word read signed, so its wrap-around is kept.
\<close>

record adoption =
  Ad_ID :: "64 word"
  Ad_Name :: name

section \<open>The code\<close>

lemma sint_Suc:
  fixes x :: "64 word"
  assumes "sint x \<noteq> max_int"
  shows "sint (x + 1) = sint x + 1"
proof -
  have r: "- (2 ^ 63) \<le> sint x \<and> sint x < 2 ^ 63"
    using sint_greater_eq [of x] sint_lt [of x] by simp
  then have "sint x + 1 < 2 ^ 63" using assms by (simp add: max_int_def)
  with r show ?thesis by (simp add: sint_word_ariths signed_take_bit_int_eq_self)
qed

lemma sint_le_max: "sint (x :: 64 word) \<le> max_int"
  using sint_lt [of x] by (simp add: max_int_def)

lemma negative_ordinal_refused: "i < 0 \<Longrightarrow> NewName d m (itoa_int i) \<noteq> Inr n"
proof
  assume i: "i < 0" and "NewName d m (itoa_int i) = Inr n"
  then have v: "valid_name n" and e: "String n = d @ ''.'' @ m @ ''.-'' @ itoa (nat (- i))"
    by (simp_all add: NewName_iff itoa_int_def)
  have nd: "CHR ''.'' \<notin> set (itoa (nat (- i)))" using itoa_chars by (fastforce simp: is_digit_def)
  have "last (split_on (CHR ''.'') (String n)) = slot n" using v by (simp add: split_String)
  moreover have "last (split_on (CHR ''.'') (String n)) = CHR ''-'' # itoa (nat (- i))"
    proof -
    have "split_on (CHR ''.'') (String n) = split_on (CHR ''.'') ((d @ ''.'' @ m) @ CHR ''.'' # (CHR ''-'' # itoa (nat (- i))))"
      by (simp add: e)
    then show ?thesis using nd last_split_on [of "CHR ''.''" "CHR ''-'' # itoa (nat (- i))" "d @ ''.'' @ m"] by simp
  qed
  ultimately have "hd (slot n) = CHR ''-''" by (metis list.sel(1))
  with v namePart_ends [of "slot n"] show False by (simp add: valid_name_def valid_slot_def)
qed

lemma max_int_wraps: "sint (x :: 64 word) = max_int \<Longrightarrow> sint (x + 1) < 0"
proof -
  assume "sint x = max_int"
  then have "x = word_of_int max_int" by (metis scast_eq scast_id)
  then show ?thesis by (simp add: max_int_def)
qed

function ordinal_loop :: "string list \<Rightarrow> string \<Rightarrow> string \<Rightarrow> 64 word \<Rightarrow> name option \<times> 64 word" where
  "ordinal_loop taken active output next =
     (case NewName active output (itoa_int (sint next)) of
        Inl _ \<Rightarrow> (None, next)
      | Inr n \<Rightarrow> if String n \<notin> set taken then (Some n, next + 1) else ordinal_loop taken active output (next + 1))"
  by pat_completeness auto
termination
proof (relation "measure (\<lambda>(taken, active, output, next). if sint next < 0 then 0 else nat (max_int - sint next) + 1)", goal_cases)
  case (2 taken active out nx n)
  then have "0 \<le> sint nx" using negative_ordinal_refused by force
  then show ?case
    using sint_Suc [of nx] sint_le_max [of nx] by (cases "sint nx = max_int") (auto simp: max_int_wraps)
qed simp

declare ordinal_loop.simps [simp del]

definition slotFor ::
  "unicode \<Rightarrow> string \<Rightarrow> string \<Rightarrow> string \<Rightarrow> string list \<Rightarrow> (string \<Rightarrow> 64 word) \<Rightarrow> name option \<times> (string \<Rightarrow> 64 word)" where
  "slotFor u active output app taken next =
     (case (case Label u app of None \<Rightarrow> None | Some label \<Rightarrow> suffix_loop taken active output label 1) of
        Some n \<Rightarrow> (Some n, next)
      | None \<Rightarrow>
          (let next = (if next output = 0 then next(output := 1) else next);
               (r, after) = ordinal_loop taken active output (next output)
           in (r, next(output := after))))"

definition count_step :: "name \<Rightarrow> (string \<Rightarrow> 64 word) \<Rightarrow> string \<Rightarrow> 64 word" where
  "count_step n next =
     (case Ordinal n of
        Some i \<Rightarrow> if sint (next (monitor n)) \<le> i then next(monitor n := word_of_int (i + 1)) else next
      | None \<Rightarrow> next)"

definition adopt_step ::
  "unicode \<Rightarrow> string \<Rightarrow> (64 word \<rightharpoonup> string) \<Rightarrow> workspace
   \<Rightarrow> string list \<times> (string \<Rightarrow> 64 word) \<times> adoption list \<Rightarrow> string list \<times> (string \<Rightarrow> 64 word) \<times> adoption list" where
  "adopt_step u active firstApp w = (\<lambda>(taken, next, plan).
     if Output w = [] then (taken, next, plan)
     else (case firstApp (ID w) of
             None \<Rightarrow> (taken, next, plan)
           | Some app \<Rightarrow>
               (case slotFor u active (Output w) app taken next of
                  (None, next) \<Rightarrow> (taken, next, plan)
                | (Some n, next) \<Rightarrow>
                    (String n # taken, next, plan @ [\<lparr>Ad_ID = ID w, Ad_Name = n\<rparr>]))))"

definition AdoptPlan :: "unicode \<Rightarrow> desk_map \<Rightarrow> string \<Rightarrow> (64 word \<rightharpoonup> string) \<Rightarrow> adoption list" where
  "AdoptPlan u m active firstApp =
     (if active = [] then []
      else
        let taken = map String (Workspaces m active);
            next = fold count_step (Workspaces m active) (\<lambda>_. 0)
        in snd (snd (fold (adopt_step u active firstApp) (foreign m) (taken, next, []))))"

definition missing_step ::
  "string list \<Rightarrow> (string \<Rightarrow> 64 word list) \<Rightarrow> name
   \<Rightarrow> string list \<times> (string \<Rightarrow> nat) \<times> adoption list \<times> name list \<Rightarrow> string list \<times> (string \<Rightarrow> nat) \<times> adoption list \<times> name list" where
  "missing_step onScreen empties want = (\<lambda>(have, used, plan, waiting).
     if String want \<in> set have then (have, used, plan, waiting)
     else if onScreen \<noteq> [] \<and> monitor want \<notin> set onScreen then (have, used, plan, waiting @ [want])
     else
       let ids = empties (monitor want)
       in if length ids \<le> used (monitor want) then (have, used, plan, waiting)
          else (String want # have, used(monitor want := used (monitor want) + 1),
                plan @ [\<lparr>Ad_ID = ids ! used (monitor want), Ad_Name = want\<rparr>], waiting))"

definition MissingPlan :: "desk_map \<Rightarrow> name list \<Rightarrow> (string \<Rightarrow> 64 word list) \<Rightarrow> adoption list \<times> name list" where
  "MissingPlan m declared empties =
     (let have = (case declared of [] \<Rightarrow> [] | d # _ \<Rightarrow> map String (Workspaces m (desk d)))
      in case fold (missing_step (Screens m) empties) declared (have, (\<lambda>_. 0), [], []) of
           (_, _, plan, waiting) \<Rightarrow> (plan, waiting))"

section \<open>What the loops find\<close>

text \<open>A name is only built when none of its parts holds a dot, so it has the parts it was given.\<close>

lemma NewName_inv: "NewName d m s = Inr n \<Longrightarrow> n = \<lparr>desk = d, monitor = m, slot = s\<rparr> \<and> valid_name n"
proof -
  assume a: "NewName d m s = Inr n"
  then have n: "valid_name n" "String n = d @ ''.'' @ m @ ''.'' @ s" by (simp_all add: NewName_iff)
  have "count_list d (CHR ''.'') = 0" "count_list m (CHR ''.'') = 0" "count_list s (CHR ''.'') = 0"
    using count_dots_String [OF n(1)] by (simp_all add: n(2) count_list_append)
  then have "CHR ''.'' \<notin> set d" "CHR ''.'' \<notin> set m" "CHR ''.'' \<notin> set s" by (simp_all add: count_list_0_iff)
  with NewName_parts a n(1) show ?thesis by blast
qed

lemma ordinal_loop_Some:
  "ordinal_loop taken active out nx = (Some n, nx') \<Longrightarrow>
   String n \<notin> set taken \<and> valid_name n \<and> desk n = active \<and> monitor n = out"
proof (induction taken active out nx rule: ordinal_loop.induct)
  case (1 taken active out nx)
  show ?case
  proof (cases "NewName active out (itoa_int (sint nx))")
    case (Inl e)
    with 1(2) show ?thesis by (simp add: ordinal_loop.simps)
  next
    case (Inr k)
    show ?thesis
    proof (cases "String k \<in> set taken")
      case True
      with Inr 1(2) have "ordinal_loop taken active out (nx + 1) = (Some n, nx')"
        by (subst (asm) ordinal_loop.simps) simp
      with 1(1) [OF Inr] True show ?thesis by simp
    next
      case False
      with Inr 1(2) have "k = n" by (simp add: ordinal_loop.simps)
      with False NewName_inv [OF Inr] show ?thesis by (metis name.select_convs(1,2))
    qed
  qed
qed

lemma slotFor_Some:
  assumes "slotFor u active out app taken nx = (Some n, nx')"
  shows "String n \<notin> set taken \<and> valid_name n \<and> desk n = active \<and> monitor n = out"
proof (cases "case Label u app of None \<Rightarrow> None | Some label \<Rightarrow> suffix_loop taken active out label 1")
  case None
  with assms obtain nx0 r where "ordinal_loop taken active out nx0 = (Some n, r)"
    by (auto simp: slotFor_def Let_def split: prod.splits)
  then show ?thesis by (rule ordinal_loop_Some)
next
  case (Some k)
  with assms have "k = n" by (simp add: slotFor_def)
  with Some obtain label where "suffix_loop taken active out label 1 = Some n" by (auto split: option.splits)
  then show ?thesis using suffix_loop_Some [of taken active out label 1 n] NewName_inv by fastforce
qed

definition adopted_ok ::
  "string \<Rightarrow> (64 word \<rightharpoonup> string) \<Rightarrow> workspace list \<Rightarrow> string list \<Rightarrow> string list \<times> (string \<Rightarrow> 64 word) \<times> adoption list \<Rightarrow> bool" where
  "adopted_ok active firstApp ws taken0 = (\<lambda>(taken, next, plan).
     set taken = set taken0 \<union> (String \<circ> Ad_Name) ` set plan
   \<and> distinct (map (String \<circ> Ad_Name) plan)
   \<and> (\<forall>a \<in> set plan. String (Ad_Name a) \<notin> set taken0 \<and> valid_name (Ad_Name a) \<and> desk (Ad_Name a) = active
        \<and> (\<exists>w \<in> set ws. ID w = Ad_ID a \<and> Output w = monitor (Ad_Name a) \<and> Output w \<noteq> [] \<and> firstApp (ID w) \<noteq> None)))"

lemma adopted_ok_step:
  assumes "adopted_ok active firstApp ws taken0 s" "w \<in> set ws"
  shows "adopted_ok active firstApp ws taken0 (adopt_step u active firstApp w s)"
proof -
  obtain taken nx plan where s: "s = (taken, nx, plan)" by (metis prod_cases3)
  show ?thesis
  proof (cases "Output w = [] \<or> firstApp (ID w) = None")
    case True
    then show ?thesis using assms(1) by (auto simp: s adopt_step_def)
  next
    case False
    then obtain app where app: "firstApp (ID w) = Some app" by auto
    obtain r nx' where r: "slotFor u active (Output w) app taken nx = (r, nx')" by fastforce
    show ?thesis
    proof (cases r)
      case None
      then show ?thesis using assms(1) False app r by (simp add: s adopt_step_def adopted_ok_def)
    next
      case (Some n)
      with slotFor_Some r have n: "String n \<notin> set taken \<and> valid_name n \<and> desk n = active \<and> monitor n = Output w"
        by blast
      have ok: "set taken = set taken0 \<union> (String \<circ> Ad_Name) ` set plan" "distinct (map (String \<circ> Ad_Name) plan)"
        "\<forall>a \<in> set plan. String (Ad_Name a) \<notin> set taken0 \<and> valid_name (Ad_Name a) \<and> desk (Ad_Name a) = active
        \<and> (\<exists>w \<in> set ws. ID w = Ad_ID a \<and> Output w = monitor (Ad_Name a) \<and> Output w \<noteq> [] \<and> firstApp (ID w) \<noteq> None)"
        using assms(1) unfolding s adopted_ok_def by auto
      have st: "adopt_step u active firstApp w s =
          (String n # taken, nx', plan @ [\<lparr>Ad_ID = ID w, Ad_Name = n\<rparr>])"
        using False app r Some by (simp add: s adopt_step_def)
      have "\<exists>v \<in> set ws. ID v = ID w \<and> Output v = monitor n \<and> Output v \<noteq> [] \<and> firstApp (ID v) \<noteq> None"
        using assms(2) False n by auto
      with ok n show ?thesis unfolding st adopted_ok_def by auto
    qed
  qed
qed

lemma adopted_ok_fold:
  "set vs \<subseteq> set ws \<Longrightarrow> adopted_ok active firstApp ws taken0 s \<Longrightarrow>
   adopted_ok active firstApp ws taken0 (fold (adopt_step u active firstApp) vs s)"
proof (induction vs arbitrary: s)
  case (Cons v vs)
  then show ?case using Cons.IH [OF _ adopted_ok_step [OF Cons.prems(2)]] by simp
qed simp

text \<open>C32: Every name adoption hands out is a valid name on the active desk and on the monitor its
  workspace is on, is carried by nothing on that desk and handed out once; and it only names
  workspaces nothing owns, that are on a screen and have a window in them.\<close>

theorem AdoptPlan_safe:
  "distinct (map (String \<circ> Ad_Name) (AdoptPlan u m active firstApp))
   \<and> (\<forall>a \<in> set (AdoptPlan u m active firstApp).
        valid_name (Ad_Name a) \<and> desk (Ad_Name a) = active
        \<and> String (Ad_Name a) \<notin> String ` set (Workspaces m active)
        \<and> (\<exists>w \<in> set (foreign m). ID w = Ad_ID a \<and> Output w = monitor (Ad_Name a) \<and> Output w \<noteq> []
             \<and> firstApp (ID w) \<noteq> None))"
proof (cases "active = []")
  case False
  let ?t = "map String (Workspaces m active)" and ?n = "fold count_step (Workspaces m active) (\<lambda>_. 0)"
  have "adopted_ok active firstApp (foreign m) ?t (?t, ?n, [])" by (simp add: adopted_ok_def)
  then have "adopted_ok active firstApp (foreign m) ?t (fold (adopt_step u active firstApp) (foreign m) (?t, ?n, []))"
    by (intro adopted_ok_fold) simp_all
  moreover have "AdoptPlan u m active firstApp =
      snd (snd (fold (adopt_step u active firstApp) (foreign m) (?t, ?n, [])))"
    using False by (simp add: AdoptPlan_def Let_def)
  ultimately show ?thesis
    unfolding adopted_ok_def by (simp add: case_prod_unfold comp_def)
qed (simp add: AdoptPlan_def)

lemma AdoptPlan_safe_witness:
  "let m = Rebuild [\<lparr>ID = 4, Idx = 1, Name = [], Output = ''A''\<rparr>] [''A''];
       a = \<lparr>Ad_ID = 4, Ad_Name = \<lparr>desk = ''d'', monitor = ''A'', slot = ''firefox''\<rparr>\<rparr>
   in a \<in> set (AdoptPlan ascii_unicode m ''d'' [4 \<mapsto> ''firefox'']) \<and> valid_name (Ad_Name a)"
proof -
  define m where "m = Rebuild [\<lparr>ID = 4, Idx = 1, Name = [], Output = ''A''\<rparr>] [''A'']"
  define a where "a = \<lparr>Ad_ID = 4, Ad_Name = \<lparr>desk = ''d'', monitor = ''A'', slot = ''firefox''\<rparr>\<rparr>"
  have e: "AdoptPlan ascii_unicode m ''d'' [4 \<mapsto> ''firefox''] = [a]" unfolding m_def a_def by code_simp
  then have "valid_name (Ad_Name a)" using AdoptPlan_safe [of ascii_unicode m "''d''" "[4 \<mapsto> ''firefox'']"] by simp
  with e show ?thesis by (simp add: Let_def m_def a_def)
qed


section \<open>Adoption leaves nothing out\<close>

text \<open>
  The counter of a monitor stays above every number taken on it, so the first number tried
  is free. Only a counter at the top of the 64 bits could be refused.
\<close>

definition counter_ok :: "string \<Rightarrow> int \<Rightarrow> string list \<Rightarrow> (string \<Rightarrow> 64 word) \<Rightarrow> bool" where
  "counter_ok active hi taken next \<longleftrightarrow>
     (\<forall>mon. 0 \<le> sint (next mon) \<and> sint (next mon) \<le> hi)
   \<and> (\<forall>n. valid_name n \<and> desk n = active \<and> String n \<in> set taken \<longrightarrow>
        (\<forall>i. Ordinal n = Some i \<longrightarrow> i < sint (next (monitor n))))"

lemma itoa_hd: "0 < k \<Longrightarrow> hd (itoa k) \<noteq> CHR ''0''"
proof (induction k rule: itoa.induct)
  case (1 k)
  show ?case
  proof (cases "k < 10")
    case True
    then show ?thesis using 1 lt_10_cases [OF True] by (subst itoa.simps) (auto simp: digit_def)
  next
    case False
    then have "hd (itoa (k div 10)) \<noteq> CHR ''0''" using 1 by simp
    then show ?thesis using False by (subst itoa.simps) simp
  qed
qed

lemma itoa_length_le: "k < 10 ^ Suc n \<Longrightarrow> length (itoa k) \<le> Suc n"
proof (induction n arbitrary: k)
  case 0
  then show ?case by (subst itoa.simps) simp
next
  case (Suc n)
  show ?case
  proof (cases "k < 10")
    case True
    then show ?thesis by (subst itoa.simps) simp
  next
    case False
    have "k div 10 < 10 ^ Suc n" using Suc.prems by (simp add: div_less_iff_less_mult mult.commute)
    then have "length (itoa (k div 10)) \<le> Suc n" by (rule Suc.IH)
    then show ?thesis using False by (subst itoa.simps) simp
  qed
qed

lemma itoa_int_slot:
  assumes "0 \<le> i" "i \<le> max_int"
  shows "valid_slot (itoa_int i) \<and> atoi (itoa_int i) = Some i"
proof -
  have e: "itoa_int i = itoa (nat i)" using assms(1) by (simp add: itoa_int_def)
  have "nat i < 10 ^ 19" using assms by (simp add: max_int_def nat_less_iff)
  then have "length (itoa (nat i)) \<le> 19" using itoa_length_le [of "nat i" 18] by simp
  then have l: "length (itoa (nat i)) \<le> partMax" by (simp add: partMax_def)
  have "atoi (itoa (nat i)) = Some (int (nat i))" using assms by (intro atoi_itoa) simp
  then have a: "atoi (itoa_int i) = Some i" using assms(1) by (simp add: e)
  have np: "namePart (itoa k)" for k
  proof (induction k rule: itoa.induct)
    case (1 k)
    show ?case
    proof (cases "k < 10")
      case True
      then show ?thesis by (subst itoa.simps) (simp add: namePart_single digit_lower_num)
    next
      case False
      then show ?thesis using 1 by (subst itoa.simps) (simp add: namePart_snoc digit_lower_num)
    qed
  qed
  have "\<not> leading_zero (itoa k)" for k
  proof (induction k rule: itoa.induct)
    case (1 k)
    show ?case
    proof (cases "k < 10")
      case True
      then show ?thesis by (subst itoa.simps) (simp add: leading_zero_def)
    next
      case False
      have "itoa (k div 10) \<noteq> []" by simp
      moreover have "hd (itoa (k div 10)) \<noteq> CHR ''0''" by (rule itoa_hd) (use False in simp)
      ultimately show ?thesis using False by (subst itoa.simps) (simp add: leading_zero_def nth_append hd_conv_nth)
    qed
  qed
  with np a l show ?thesis by (simp add: valid_slot_def e)
qed

lemma ordinal_loop_first:
  assumes ok: "counter_ok active hi taken nx" and "hi < max_int"
    and d: "ValidDesk active" and m: "monitorPart out" "length out \<le> partMax"
  shows "ordinal_loop taken active out (nx out) =
     (Some \<lparr>desk = active, monitor = out, slot = itoa_int (sint (nx out))\<rparr>, nx out + 1)"
proof -
  let ?i = "sint (nx out)"
  define n where "n = \<lparr>desk = active, monitor = out, slot = itoa_int ?i\<rparr>"
  have i: "0 \<le> ?i" "?i \<le> max_int" using ok sint_le_max by (auto simp: counter_ok_def)
  note sl = itoa_int_slot [OF i]
  have N: "NewName active out (itoa_int ?i) = Inr n"
    unfolding n_def using d m sl by (intro NewName_valid_parts) auto
  then have v: "valid_name n" by (simp add: NewName_iff)
  have "String n \<notin> set taken"
  proof
    assume "String n \<in> set taken"
    moreover have "Ordinal n = Some ?i" "desk n = active" "monitor n = out" using sl by (simp_all add: n_def Ordinal_def)
    ultimately have "?i < ?i" using ok v unfolding counter_ok_def by metis
    then show False by simp
  qed
  with N show ?thesis by (simp add: ordinal_loop.simps n_def)
qed

lemma counter_ok_take:
  assumes "counter_ok active hi taken nx" "hi < max_int" "valid_name n" "desk n = active"
    "Ordinal n = None \<or> Ordinal n = Some (sint (nx (monitor n)))"
  shows "counter_ok active (hi + 1) (String n # taken)
     (if Ordinal n = None then nx else nx(monitor n := nx (monitor n) + 1))"
proof -
  have r: "0 \<le> sint (nx mon) \<and> sint (nx mon) \<le> hi" for mon using assms(1) by (simp add: counter_ok_def)
  have s: "sint (nx mon + 1) = sint (nx mon) + 1" for mon using r [of mon] assms(2) by (intro sint_Suc) simp
  have old: "i < sint (nx mon)"
    if "valid_name k" "desk k = active" "String k \<in> set taken" "Ordinal k = Some i" "monitor k = mon" for k i mon
    using assms(1) that unfolding counter_ok_def by blast
  have "i \<le> sint (nx mon)"
    if "valid_name k" "desk k = active" "String k \<in> set taken" "Ordinal k = Some i" "monitor k = mon" for k i mon
    using old [OF that] by simp
  with old r s assms(3-5) show ?thesis
    by (auto simp: counter_ok_def String_inj add_increasing2 intro: order_trans)
qed

lemma counter_ok_mono: "counter_ok active hi taken nx \<Longrightarrow> hi \<le> hi' \<Longrightarrow> counter_ok active hi' taken nx"
  unfolding counter_ok_def by (meson order_trans)

lemma counter_ok_start:
  "counter_ok active hi taken nx \<Longrightarrow> 1 \<le> hi \<Longrightarrow> counter_ok active hi taken (if nx out = 0 then nx(out := 1) else nx)"
  by (auto simp: counter_ok_def)

lemma suffix_loop_slot:
  "suffix_loop taken active out label 1 = Some n \<Longrightarrow> valid_slot label \<Longrightarrow> \<not> isDigits label \<Longrightarrow> Ordinal n = None"
proof -
  assume a: "suffix_loop taken active out label 1 = Some n" "valid_slot label" "\<not> isDigits label"
  then obtain j where "NewName active out (suffixed label j) = Inr n" using suffix_loop_Some by blast
  from NewName_inv [OF this] have n: "slot n = suffixed label j" "valid_name n" by auto
  have "\<not> isDigits (suffixed label j)" using a(3) by (auto simp: suffixed_def isDigits_def)
  then have "atoi (slot n) \<noteq> Some i" for i
    using n atoi_Some_digits [of "slot n" i] by (auto simp: valid_name_def valid_slot_def)
  then show ?thesis by (metis Ordinal_def not_Some_eq)
qed

lemma slotFor_ok:
  assumes ok: "counter_ok active hi taken nx" and hi: "1 \<le> hi" "hi < max_int"
    and d: "ValidDesk active" and m: "monitorPart out" "length out \<le> partMax"
  obtains n nx' where "slotFor u active out app taken nx = (Some n, nx')"
    "counter_ok active (hi + 1) (String n # taken) nx'"
proof (cases "case Label u app of None \<Rightarrow> None | Some label \<Rightarrow> suffix_loop taken active out label 1")
  case (Some n)
  then have s: "slotFor u active out app taken nx = (Some n, nx)" by (simp add: slotFor_def)
  from Some obtain label where l: "Label u app = Some label" "suffix_loop taken active out label 1 = Some n"
    by (auto split: option.splits)
  have "Ordinal n = None" using suffix_loop_slot [OF l(2)] Label_sound [OF l(1)] by blast
  with counter_ok_take [OF ok hi(2)] slotFor_Some [OF s] have "counter_ok active (hi + 1) (String n # taken) nx" by force
  with s that show ?thesis by blast
next
  case None
  define nx0 where "nx0 = (if nx out = 0 then nx(out := 1) else nx)"
  define n where "n = \<lparr>desk = active, monitor = out, slot = itoa_int (sint (nx0 out))\<rparr>"
  have ok0: "counter_ok active hi taken nx0" unfolding nx0_def by (rule counter_ok_start [OF ok hi(1)])
  have s: "slotFor u active out app taken nx = (Some n, nx0(out := nx0 out + 1))"
    using None ordinal_loop_first [OF ok0 hi(2) d m]
    by (simp add: slotFor_def Let_def nx0_def [symmetric] n_def)
  have "0 \<le> sint (nx0 out)" using ok0 by (simp add: counter_ok_def)
  then have "Ordinal n = Some (sint (nx0 out))"
    using itoa_int_slot [of "sint (nx0 out)"] sint_le_max by (simp add: Ordinal_def n_def)
  with counter_ok_take [OF ok0 hi(2), of n] slotFor_Some [OF s]
  have "counter_ok active (hi + 1) (String n # taken) (nx0(out := nx0 out + 1))" by (simp add: n_def)
  with s that show ?thesis by blast
qed

definition in_use :: "(64 word \<rightharpoonup> string) \<Rightarrow> workspace \<Rightarrow> bool" where
  "in_use firstApp w \<longleftrightarrow> Output w \<noteq> [] \<and> firstApp (ID w) \<noteq> None"

lemma adopt_fold_complete:
  assumes "counter_ok active hi taken nx" "1 \<le> hi" "hi + int (length vs) \<le> max_int" "ValidDesk active"
    "\<And>w. w \<in> set vs \<Longrightarrow> in_use firstApp w \<Longrightarrow> monitorPart (Output w) \<and> length (Output w) \<le> partMax"
  shows "map Ad_ID (snd (snd (fold (adopt_step u active firstApp) vs (taken, nx, plan))))
       = map Ad_ID plan @ map ID (filter (in_use firstApp) vs)"
  using assms
proof (induction vs arbitrary: hi taken nx plan)
  case (Cons w vs)
  show ?case
  proof (cases "in_use firstApp w")
    case False
    then have "adopt_step u active firstApp w (taken, nx, plan) = (taken, nx, plan)"
      by (auto simp: in_use_def adopt_step_def)
    with False Cons.IH [of hi taken nx plan] Cons.prems show ?thesis by simp
  next
    case True
    then obtain app where app: "firstApp (ID w) = Some app" "Output w \<noteq> []" by (auto simp: in_use_def)
    have mon: "monitorPart (Output w)" "length (Output w) \<le> partMax" using Cons.prems(5) [of w] True by auto
    have "hi < max_int" using Cons.prems(3) by simp
    then obtain n nx' where s: "slotFor u active (Output w) app taken nx = (Some n, nx')"
      and ok: "counter_ok active (hi + 1) (String n # taken) nx'"
      using slotFor_ok [OF Cons.prems(1,2) _ Cons.prems(4) mon] by blast
    then have "adopt_step u active firstApp w (taken, nx, plan) =
        (String n # taken, nx', plan @ [\<lparr>Ad_ID = ID w, Ad_Name = n\<rparr>])"
      using app by (simp add: adopt_step_def)
    with True Cons.IH [OF ok, of "plan @ [\<lparr>Ad_ID = ID w, Ad_Name = n\<rparr>]"] Cons.prems show ?thesis by simp
  qed
qed simp

lemma counter_ok_counts:
  assumes "\<And>n. n \<in> set ns \<Longrightarrow> valid_name n \<and> desk n = active \<and> (\<forall>i. Ordinal n = Some i \<longrightarrow> i + 1 \<le> hi)"
    and hi: "0 \<le> hi" "hi \<le> max_int"
  shows "counter_ok active hi (map String ns) (fold count_step ns (\<lambda>_. 0))"
  using assms(1)
proof (induction ns rule: rev_induct)
  case Nil
  then show ?case using hi by (simp add: counter_ok_def)
next
  case (snoc n ns)
  define nx where "nx = fold count_step ns (\<lambda>_. 0 :: 64 word)"
  have IH: "counter_ok active hi (map String ns) nx" unfolding nx_def by (rule snoc.IH) (use snoc.prems in auto)
  have v: "valid_name n" "desk n = active" and small: "\<And>i. Ordinal n = Some i \<Longrightarrow> i + 1 \<le> hi"
    using snoc.prems [of n] by auto
  have pos: "0 \<le> i" if "Ordinal n = Some i" for i
    using atoi_Some_digits [of "slot n" i] that v(1) by (auto simp: Ordinal_def valid_name_def valid_slot_def)
  have w: "sint (word_of_int (i + 1) :: 64 word) = i + 1" if "Ordinal n = Some i" for i
    using pos [OF that] small [OF that] hi
    by (subst sint_sbintrunc') (simp add: signed_take_bit_int_eq_self max_int_def)
  have r: "0 \<le> sint (nx mon) \<and> sint (nx mon) \<le> hi" for mon using IH by (simp add: counter_ok_def)
  have old: "i < sint (nx mon)"
    if "valid_name k" "desk k = active" "String k \<in> String ` set ns" "Ordinal k = Some i" "monitor k = mon" for k i mon
    using IH that unfolding counter_ok_def set_map by blast
  have "counter_ok active hi (map String (ns @ [n])) (count_step n nx)"
  proof (cases "Ordinal n")
    case None
    then show ?thesis using r old v by (auto simp: counter_ok_def count_step_def String_inj)
  next
    case (Some i)
    show ?thesis
    proof (cases "sint (nx (monitor n)) \<le> i")
      case False
      with Some r old v show ?thesis by (auto simp: counter_ok_def count_step_def String_inj)
    next
      case True
      have "j < i + 1" if "valid_name k" "desk k = active" "String k \<in> String ` set ns" "Ordinal k = Some j"
        "monitor k = monitor n" for k j
        using old [OF that] True by simp
      with True Some r old v w [OF Some] pos [OF Some] small [OF Some] show ?thesis
        by (auto simp: counter_ok_def count_step_def String_inj)
    qed
  qed
  then show ?case by (simp add: nx_def)
qed




section \<open>What a manifest declares and is not there\<close>

definition missing_ok ::
  "name list \<Rightarrow> string list \<Rightarrow> string list \<Rightarrow> (string \<Rightarrow> 64 word list)
   \<Rightarrow> string list \<times> (string \<Rightarrow> nat) \<times> adoption list \<times> name list \<Rightarrow> bool" where
  "missing_ok ds have0 onScreen empties = (\<lambda>(have', used, plan, waiting).
     set have' = set have0 \<union> (String \<circ> Ad_Name) ` set plan
   \<and> distinct (map (String \<circ> Ad_Name) plan)
   \<and> (\<forall>mon. map Ad_ID (filter (\<lambda>a. monitor (Ad_Name a) = mon) plan) = take (used mon) (empties mon)
        \<and> used mon \<le> length (empties mon))
   \<and> (\<forall>a \<in> set plan. Ad_Name a \<in> set ds \<and> String (Ad_Name a) \<notin> set have0
        \<and> (onScreen \<noteq> [] \<longrightarrow> monitor (Ad_Name a) \<in> set onScreen))
   \<and> (\<forall>n \<in> set waiting. n \<in> set ds \<and> String n \<notin> set have0 \<and> onScreen \<noteq> [] \<and> monitor n \<notin> set onScreen))"

lemma missing_ok_step:
  assumes "missing_ok ds have0 onScreen empties s"
  shows "missing_ok (ds @ [want]) have0 onScreen empties (missing_step onScreen empties want s)"
proof -
  obtain hv used plan waiting where s: "s = (hv, used, plan, waiting)" by (metis prod_cases4)
  note ok = assms [unfolded s missing_ok_def split]
  consider (there) "String want \<in> set hv"
    | (away) "String want \<notin> set hv" "onScreen \<noteq> []" "monitor want \<notin> set onScreen"
    | (full) "String want \<notin> set hv" "onScreen = [] \<or> monitor want \<in> set onScreen" "length (empties (monitor want)) \<le> used (monitor want)"
    | (give) "String want \<notin> set hv" "onScreen = [] \<or> monitor want \<in> set onScreen" "used (monitor want) < length (empties (monitor want))"
    by fastforce
  then show ?thesis
  proof cases
    case give
    let ?a = "\<lparr>Ad_ID = empties (monitor want) ! used (monitor want), Ad_Name = want\<rparr>"
    have st: "missing_step onScreen empties want s =
        (String want # hv, used(monitor want := used (monitor want) + 1), plan @ [?a], waiting)"
      using give by (auto simp: s missing_step_def Let_def)
    have "map Ad_ID (filter (\<lambda>a. monitor (Ad_Name a) = mon) (plan @ [?a]))
        = take ((used(monitor want := used (monitor want) + 1)) mon) (empties mon)
      \<and> (used(monitor want := used (monitor want) + 1)) mon \<le> length (empties mon)" for mon
      using ok give(3) by (auto simp: take_Suc_conv_app_nth)
    with ok give show ?thesis unfolding st missing_ok_def by auto
  qed (use ok in \<open>auto simp: s missing_step_def missing_ok_def Let_def\<close>)
qed

lemma missing_ok_fold:
  "missing_ok ds have0 onScreen empties s \<Longrightarrow>
   missing_ok (ds @ es) have0 onScreen empties (fold (missing_step onScreen empties) es s)"
proof (induction es arbitrary: ds s)
  case (Cons e es)
  then show ?case using Cons.IH [OF missing_ok_step [OF Cons.prems, of e]] by simp
qed simp

text \<open>Making a manifest's missing workspaces gives each declared name at most once and only when
  nothing carries it, to an empty workspace of the monitor it names, in the order of those
  workspaces and never one workspace two names; a name only waits when its monitor is not a
  screen.\<close>

theorem MissingPlan_safe:
  assumes "MissingPlan m declared empties = (plan, waiting)" "declared \<noteq> []"
  shows "distinct (map (String \<circ> Ad_Name) plan)
    \<and> (\<forall>mon. \<exists>k \<le> length (empties mon). map Ad_ID (filter (\<lambda>a. monitor (Ad_Name a) = mon) plan) = take k (empties mon))
    \<and> (\<forall>a \<in> set plan. Ad_Name a \<in> set declared
         \<and> String (Ad_Name a) \<notin> String ` set (Workspaces m (desk (hd declared)))
         \<and> (Screens m \<noteq> [] \<longrightarrow> monitor (Ad_Name a) \<in> set (Screens m)))
    \<and> (\<forall>n \<in> set waiting. n \<in> set declared \<and> Screens m \<noteq> [] \<and> monitor n \<notin> set (Screens m))"
proof -
  let ?have = "map String (Workspaces m (desk (hd declared)))"
  have "missing_ok [] ?have (Screens m) empties (?have, (\<lambda>_. 0), [], [])" by (simp add: missing_ok_def)
  from missing_ok_fold [OF this, of declared]
  have ok: "missing_ok declared ?have (Screens m) empties
      (fold (missing_step (Screens m) empties) declared (?have, (\<lambda>_. 0), [], []))" by simp
  obtain hv used where f: "fold (missing_step (Screens m) empties) declared (?have, (\<lambda>_. 0), [], []) = (hv, used, plan, waiting)"
    using assms by (cases declared) (auto simp: MissingPlan_def Let_def split: prod.splits)
  show ?thesis using ok unfolding f missing_ok_def by auto
qed

lemma MissingPlan_safe_witness:
  "let n = \<lparr>desk = ''d'', monitor = ''A'', slot = ''code''\<rparr>
   in MissingPlan (Rebuild [] [''A'']) [n, n] (\<lambda>_. [7, 8]) = ([\<lparr>Ad_ID = 7, Ad_Name = n\<rparr>], [])
    \<and> String n \<notin> String ` set (Workspaces (Rebuild [] [''A'']) ''d'')"
proof -
  define n where "n = \<lparr>desk = ''d'', monitor = ''A'', slot = ''code''\<rparr>"
  have e: "MissingPlan (Rebuild [] [''A'']) [n, n] (\<lambda>_. [7, 8]) = ([\<lparr>Ad_ID = 7, Ad_Name = n\<rparr>], [])"
    unfolding n_def by code_simp
  have "desk n = ''d''" by (simp add: n_def)
  with MissingPlan_safe [OF e] e show ?thesis by (simp add: n_def [symmetric])
qed

end
