(* ===== verification/Attn_Text.thy ===== *)
theory Attn_Text
  imports Runes
begin

text \<open>
  What arrives as text (\<open>internal/attn/notify.go\<close>): the filter every foreign string goes
  through on its way to a row, what a claim to a name is recorded as, and the actions a
  sender declares. Unicode's tables are the record \<open>unicode\<close>; a D-Bus variant is its
  signature and, where that is a byte, the byte.
\<close>

section \<open>clean\<close>

definition summaryMax :: nat where "summaryMax = 300"
definition bodyMax :: nat where "bodyMax = 4000"
definition actionsMax :: nat where "actionsMax = 9"
definition actionTextMax :: nat where "actionTextMax = 80"
definition zwj :: rune where "zwj = 8205"
definition newline :: rune where "newline = 10"
definition blank :: rune where "blank = 32"

definition trim_space :: "rune list \<Rightarrow> rune list" where
  "trim_space rs = rev (dropWhile is_space (rev (dropWhile is_space rs)))"

text \<open>\<open>strings.TrimSpace\<close>: the bytes of the spaces at either end go, and no other byte changes.\<close>

definition leading_space :: "rune list \<Rightarrow> nat" where
  "leading_space rs = length (string_of_runes (takeWhile is_space rs))"

definition TrimSpace :: "string \<Rightarrow> string" where
  "TrimSpace s =
     (let t = drop (leading_space (runes_of s)) s
      in take (length t - leading_space (rev (runes_of t))) t)"

text \<open>\<open>out\<close> is what has been written, \<open>kept\<close> how much of the bound it used, \<open>gap\<close> the separator owed.\<close>

fun clean_loop :: "unicode \<Rightarrow> nat \<Rightarrow> bool \<Rightarrow> rune list \<Rightarrow> rune list \<Rightarrow> nat \<Rightarrow> rune option \<Rightarrow> rune list" where
  "clean_loop u mx lines [] out kept gap = out"
| "clean_loop u mx lines (r # rs) out kept gap =
     (if lines \<and> r = newline then
        clean_loop u mx lines rs out kept (if out \<noteq> [] then Some newline else gap)
      else if is_space r then
        clean_loop u mx lines rs out kept (if out \<noteq> [] \<and> gap = None then Some blank else gap)
      else if \<not> (r = zwj \<or> is_print u r) then
        clean_loop u mx lines rs out kept (if out \<noteq> [] \<and> gap = None then Some blank else gap)
      else
        let (out, kept) = (case gap of Some g \<Rightarrow> (out @ [g], kept + 1) | None \<Rightarrow> (out, kept))
        in if mx \<le> kept then out
           else clean_loop u mx lines rs (out @ [r]) (kept + 1) None)"

definition clean_runes :: "unicode \<Rightarrow> nat \<Rightarrow> bool \<Rightarrow> rune list \<Rightarrow> rune list" where
  "clean_runes u mx lines rs = trim_space (clean_loop u mx lines rs [] 0 None)"

definition clean :: "unicode \<Rightarrow> string \<Rightarrow> nat \<Rightarrow> bool \<Rightarrow> string" where
  "clean u s mx lines = string_of_runes (clean_runes u mx lines (runes_of s))"

definition oneLine :: "unicode \<Rightarrow> string \<Rightarrow> string" where "oneLine u s = clean u s summaryMax False"
definition actionLabel :: "unicode \<Rightarrow> string \<Rightarrow> string" where "actionLabel u s = clean u s actionTextMax False"
definition bodyText :: "unicode \<Rightarrow> string \<Rightarrow> string" where "bodyText u s = clean u s bodyMax True"
definition Line :: "unicode \<Rightarrow> string \<Rightarrow> string" where "Line u s = oneLine u s"

definition Text :: "unicode \<Rightarrow> string \<Rightarrow> string" where
  "Text u s = string_of_runes (filter (\<lambda>r. r = newline \<or> r = 9 \<or> r = zwj \<or> is_print u r) (runes_of s))"

definition drawn_runes :: "unicode \<Rightarrow> rune list \<Rightarrow> rune list" where
  "drawn_runes u rs = trim_space (filter (\<lambda>r. is_print u r \<and> \<not> is_mark u r) rs)"

definition drawn :: "unicode \<Rightarrow> string \<Rightarrow> string" where
  "drawn u s = string_of_runes (drawn_runes u (runes_of s))"

definition Draws :: "unicode \<Rightarrow> string \<Rightarrow> bool" where
  "Draws u s \<longleftrightarrow> drawn u s \<noteq> []"

section \<open>Names\<close>

definition SelfFrom :: string where "SelfFrom = ''zde''"
definition unnamedSender :: string where "unnamedSender = ''(unknown)''"

definition isSelf :: "unicode \<Rightarrow> string \<Rightarrow> bool" where
  "isSelf u app \<longleftrightarrow>
     string_of_runes (map (to_lower u) (filter (\<lambda>r. is_letter u r \<or> is_decimal u r) (runes_of app))) = SelfFrom"

definition claim :: "unicode \<Rightarrow> string \<Rightarrow> string \<Rightarrow> string" where
  "claim u app sender =
     (let app = oneLine u app; read = drawn u app
      in if read = [] \<or> read = ''-'' \<or> isSelf u read
         then (if sender = [] then unnamedSender else sender)
         else app)"

section \<open>Actions and hints\<close>

record action =
  Key :: string
  ActionLabel :: string

text \<open>One turn of the loop, on the key at \<open>i\<close> and, where the list goes that far, the label at \<open>i+1\<close>.\<close>

definition takeAction ::
  "unicode \<Rightarrow> string \<Rightarrow> string option \<Rightarrow> action list \<times> nat \<Rightarrow> action list \<times> nat" where
  "takeAction u key lab kd =
     (case kd of (kept, declared) \<Rightarrow>
        if key = [] then (kept, declared)
        else if actionTextMax < length (runes_of key) \<or> oneLine u key \<noteq> key then (kept, declared + 1)
        else if actionsMax \<le> length kept then (kept, declared + 1)
        else
          let label = (case lab of None \<Rightarrow> [] | Some l \<Rightarrow> actionLabel u l);
              label = (if label = [] then key else label)
          in (kept @ [\<lparr>Key = key, ActionLabel = label\<rparr>], declared + 1))"

fun takeActions_loop :: "unicode \<Rightarrow> string list \<Rightarrow> action list \<times> nat \<Rightarrow> action list \<times> nat" where
  "takeActions_loop u [] kd = kd"
| "takeActions_loop u [key] kd = takeAction u key None kd"
| "takeActions_loop u (key # label # rest) kd = takeActions_loop u rest (takeAction u key (Some label) kd)"

definition takeActions :: "unicode \<Rightarrow> string list \<Rightarrow> action list \<times> nat" where
  "takeActions u actions =
     (case takeActions_loop u actions ([], 0) of (kept, declared) \<Rightarrow> (kept, declared - length kept))"

datatype variant = Byte "8 word" | OtherVariant

definition urgency :: "(string \<rightharpoonup> variant) \<Rightarrow> 8 word" where
  "urgency hints = (case hints ''urgency'' of Some (Byte b) \<Rightarrow> b | _ \<Rightarrow> 1)"

section \<open>Modes\<close>

definition Work :: string where "Work = ''work''"
definition Focus :: string where "Focus = ''focus''"
definition Quiet :: string where "Quiet = ''quiet''"

lemmas modes = Work_def Focus_def Quiet_def

definition ParseMode :: "string \<Rightarrow> string + string" where
  "ParseMode s = (if s = [] then Inr Work else if s = Work \<or> s = Focus \<or> s = Quiet then Inr s else Inl s)"

definition lets :: "string \<Rightarrow> bool \<Rightarrow> bool" where
  "lets m urgent = (if m = Quiet then False else if m = Focus then urgent else True)"

definition Queues :: "string \<Rightarrow> bool \<Rightarrow> bool" where "Queues m urgent = lets m urgent"
definition Pops :: "string \<Rightarrow> bool \<Rightarrow> bool" where "Pops m urgent = lets m urgent"

section \<open>What clean promises\<close>

text \<open>The runes that are written, and the separator a run of the others leaves behind.\<close>

definition keeps :: "unicode \<Rightarrow> rune \<Rightarrow> bool" where
  "keeps u r \<longleftrightarrow> \<not> is_space r \<and> (r = zwj \<or> is_print u r)"

definition owed :: "bool \<Rightarrow> rune option \<Rightarrow> rune \<Rightarrow> rune option" where
  "owed lines gap r =
     (if lines \<and> r = newline then Some newline else if gap = None then Some blank else gap)"

text \<open>
  The unbounded filter: leading junk goes, every later run of junk becomes one separator,
  trailing junk goes.
\<close>

fun follow :: "unicode \<Rightarrow> bool \<Rightarrow> rune option \<Rightarrow> rune list \<Rightarrow> rune list" where
  "follow u lines gap [] = []"
| "follow u lines gap (r # rs) =
     (if keeps u r then (case gap of None \<Rightarrow> [] | Some g \<Rightarrow> [g]) @ r # follow u lines None rs
      else follow u lines (owed lines gap r) rs)"

definition squeeze :: "unicode \<Rightarrow> bool \<Rightarrow> rune list \<Rightarrow> rune list" where
  "squeeze u lines rs = follow u lines None (dropWhile (\<lambda>r. \<not> keeps u r) rs)"

lemma space_newline: "is_space newline" and space_blank: "is_space blank"
  by (simp_all add: is_space_def newline_def blank_def)

lemma keeps_not_space: "keeps u r \<Longrightarrow> \<not> is_space r"
  by (simp add: keeps_def)

lemma keeps_not_newline: "keeps u r \<Longrightarrow> r \<noteq> newline"
  using keeps_not_space space_newline by blast

lemma clean_loop_junk:
  assumes "\<not> keeps u r" and "out \<noteq> []"
  shows "clean_loop u mx lines (r # rs) out kept gap = clean_loop u mx lines rs out kept (owed lines gap r)"
  using assms by (cases gap) (auto simp: keeps_def owed_def)

lemma clean_loop_lead:
  assumes "\<not> keeps u r"
  shows "clean_loop u mx lines (r # rs) [] kept None = clean_loop u mx lines rs [] kept None"
  using assms by (auto simp: keeps_def)

lemma clean_loop_keep:
  assumes "keeps u r"
  shows "clean_loop u mx lines (r # rs) out kept gap =
    (case gap of Some g \<Rightarrow> if mx \<le> kept + 1 then out @ [g]
                           else clean_loop u mx lines rs (out @ [g, r]) (kept + 2) None
     | None \<Rightarrow> if mx \<le> kept then out else clean_loop u mx lines rs (out @ [r]) (kept + 1) None)"
  using assms keeps_not_newline[OF assms] by (cases gap) (auto simp: keeps_def)

lemma clean_loop_start:
  "clean_loop u mx lines rs [] 0 None = clean_loop u mx lines (dropWhile (\<lambda>r. \<not> keeps u r) rs) [] 0 None"
  by (induction rs) (auto simp: clean_loop_lead simp del: clean_loop.simps)

text \<open>Trimming what ends in a keeper, with or without a separator after it.\<close>

lemma trim_keeper:
  assumes "out \<noteq> []" and "keeps u (hd out)" and "keeps u (last out)"
  shows "trim_space out = out"
proof -
  obtain a as where a: "out = a # as" using assms(1) by (cases out) auto
  obtain bs b where b: "out = bs @ [b]" using assms(1) by (cases out rule: rev_cases) auto
  have "dropWhile is_space out = out" using assms(2) a keeps_not_space by auto
  moreover have "dropWhile is_space (rev out) = rev out" using assms(3) b keeps_not_space by auto
  ultimately show ?thesis by (simp add: trim_space_def)
qed

lemma trim_keeper_gap:
  assumes "out \<noteq> []" and "keeps u (hd out)" and "keeps u (last out)" and "is_space g"
  shows "trim_space (out @ [g]) = out"
proof -
  obtain a as where a: "out = a # as" using assms(1) by (cases out) auto
  obtain bs b where b: "out = bs @ [b]" using assms(1) by (cases out rule: rev_cases) auto
  have "dropWhile is_space (out @ [g]) = out @ [g]" using assms(2) a keeps_not_space by auto
  moreover have "dropWhile is_space (rev (out @ [g])) = rev out"
    using assms(3,4) b keeps_not_space by auto
  ultimately show ?thesis by (simp add: trim_space_def)
qed

lemma owed_space: "\<forall>g. gap = Some g \<longrightarrow> is_space g \<Longrightarrow> owed lines gap r = Some g \<Longrightarrow> is_space g"
  using space_newline space_blank by (auto simp: owed_def split: if_splits)

lemma clean_loop_take:
  assumes "out \<noteq> []" and "keeps u (hd out)" and "keeps u (last out)" and "length out \<le> mx"
    and "\<forall>g. gap = Some g \<longrightarrow> is_space g"
  shows "trim_space (clean_loop u mx lines rs out (length out) gap) =
         trim_space (take mx (out @ follow u lines gap rs))"
  using assms
proof (induction rs arbitrary: out gap)
  case Nil
  then show ?case by simp
next
  case (Cons r rs)
  show ?case
  proof (cases "keeps u r")
    case False
    then have "clean_loop u mx lines (r # rs) out (length out) gap =
      clean_loop u mx lines rs out (length out) (owed lines gap r)"
      using Cons.prems clean_loop_junk by blast
    moreover have "\<forall>g. owed lines gap r = Some g \<longrightarrow> is_space g"
      using Cons.prems(5) owed_space by blast
    ultimately show ?thesis using Cons.IH[OF Cons.prems(1-4)] False by simp
  next
    case True
    note step = clean_loop_keep[OF True, of mx lines rs out "length out" gap]
    note ne = Cons.prems(1)
    show ?thesis
    proof (cases gap)
      case None
      have "trim_space (clean_loop u mx lines rs (out @ [r]) (length (out @ [r])) None) =
            trim_space (take mx ((out @ [r]) @ follow u lines None rs))" if "length out < mx"
        using Cons.IH[of "out @ [r]" None] Cons.prems True ne that by simp
      then show ?thesis using step None True Cons.prems(4) ne by (auto simp del: clean_loop.simps)
    next
      case (Some g)
      have g: "is_space g" using Cons.prems(5) Some by blast
      have one: "trim_space (clean_loop u mx lines rs (out @ [g, r]) (length (out @ [g, r])) None) =
            trim_space (take mx ((out @ [g, r]) @ follow u lines None rs))" if "length out + 1 < mx"
        using Cons.IH[of "out @ [g, r]" None] Cons.prems True ne that by simp
      have two: "trim_space (take mx (out @ g # r # xs)) = trim_space (out @ [g])"
        if "mx \<le> length out + 1" for xs
      proof (cases "mx = length out")
        case True
        then show ?thesis using trim_keeper_gap[OF Cons.prems(1-3) g] trim_keeper[OF Cons.prems(1-3)] by simp
      next
        case False
        then have "mx = length out + 1" using that Cons.prems(4) by simp
        then show ?thesis by simp
      qed
      show ?thesis
      proof (cases "mx \<le> length out + 1")
        case True
        then show ?thesis using step Some two[OF True] \<open>keeps u r\<close> by (simp del: clean_loop.simps)
      next
        case False
        then show ?thesis using step Some one \<open>keeps u r\<close> by (simp del: clean_loop.simps)
      qed
    qed
  qed
qed

text \<open>The loop is the unbounded filter cut at the bound: the two agree on every input.\<close>

lemma clean_squeeze:
  assumes "0 < mx"
  shows "clean_runes u mx lines rs = trim_space (take mx (squeeze u lines rs))"
proof -
  define ks where "ks = dropWhile (\<lambda>r. \<not> keeps u r) rs"
  have "clean_runes u mx lines rs = trim_space (clean_loop u mx lines ks [] 0 None)"
    using clean_loop_start[of u mx lines rs] by (simp add: clean_runes_def ks_def)
  moreover have "trim_space (clean_loop u mx lines ks [] 0 None) = trim_space (take mx (follow u lines None ks))"
  proof (cases ks)
    case Nil
    then show ?thesis by simp
  next
    case (Cons r rest)
    then have r: "keeps u r" unfolding ks_def by (metis dropWhile_eq_Cons_conv)
    have "clean_loop u mx lines ks [] 0 None = clean_loop u mx lines rest [r] (length [r]) None"
      using clean_loop_keep[OF r, of mx lines rest "[]" 0 None] assms Cons by simp
    then show ?thesis
      using clean_loop_take[of "[r]" u mx None lines rest] r assms Cons by (simp add: Suc_le_eq)
  qed
  ultimately show ?thesis by (simp add: squeeze_def ks_def)
qed

text \<open>The shape of a row: keepers, with single separators between them and none at the ends.\<close>

definition separator :: "bool \<Rightarrow> rune \<Rightarrow> bool" where
  "separator lines g \<longleftrightarrow> g = blank \<or> lines \<and> g = newline"

fun tidy :: "unicode \<Rightarrow> bool \<Rightarrow> rune list \<Rightarrow> bool" where
  "tidy u lines [] = True"
| "tidy u lines [r] = keeps u r"
| "tidy u lines (r # s # rs) =
     (keeps u r \<and> (if keeps u s then tidy u lines (s # rs) else separator lines s \<and> rs \<noteq> [] \<and> tidy u lines rs))"

lemma separator_space: "separator lines g \<Longrightarrow> is_space g \<and> \<not> keeps u g"
  using space_newline space_blank by (auto simp: separator_def keeps_def)

lemma owed_separator:
  "\<forall>g. gap = Some g \<longrightarrow> separator lines g \<Longrightarrow> owed lines gap r = Some g \<Longrightarrow> separator lines g"
  by (auto simp: owed_def separator_def split: if_splits)

lemma tidy_hd: "tidy u lines rs \<Longrightarrow> rs \<noteq> [] \<Longrightarrow> keeps u (hd rs)"
  by (cases "(u, lines, rs)" rule: tidy.cases) auto

lemma tidy_last: "tidy u lines rs \<Longrightarrow> rs \<noteq> [] \<Longrightarrow> keeps u (last rs)"
  by (induction u lines rs rule: tidy.induct) (auto split: if_splits)

lemma tidy_Cons:
  assumes "keeps u r" and "tidy u lines rs"
  shows "tidy u lines (r # rs)"
  using assms tidy_hd[OF assms(2)] by (cases rs) auto

lemma tidy_gap:
  assumes "keeps u r" and "separator lines g" and "tidy u lines rs" and "rs \<noteq> []"
  shows "tidy u lines (r # g # rs)"
  using assms separator_space[of lines g u] by auto

lemma tidy_follow:
  assumes "\<forall>g. gap = Some g \<longrightarrow> separator lines g" and "keeps u r"
  shows "tidy u lines (r # follow u lines gap rs)"
  using assms
proof (induction rs arbitrary: gap r)
  case Nil
  then show ?case by simp
next
  case (Cons s rs)
  show ?case
  proof (cases "keeps u s")
    case True
    then have "tidy u lines (s # follow u lines None rs)" using Cons.IH by blast
    then show ?thesis using True Cons.prems tidy_Cons tidy_gap by (cases gap) auto
  next
    case False
    have "\<forall>g. owed lines gap s = Some g \<longrightarrow> separator lines g"
      using Cons.prems(1) owed_separator by blast
    then show ?thesis using Cons.IH Cons.prems(2) False by simp
  qed
qed

lemma tidy_squeeze: "tidy u lines (squeeze u lines rs)"
proof (cases "dropWhile (\<lambda>r. \<not> keeps u r) rs")
  case Nil
  show ?thesis unfolding squeeze_def Nil by simp
next
  case (Cons r rest)
  then have "keeps u r" by (metis dropWhile_eq_Cons_conv)
  then show ?thesis using tidy_follow[of None lines u r rest] unfolding squeeze_def Cons by simp
qed

lemma owed_one: "separator lines g \<Longrightarrow> owed lines None g = Some g"
  by (auto simp: owed_def separator_def)

lemma follow_tidy: "tidy u lines rs \<Longrightarrow> follow u lines None rs = rs"
proof (induction u lines rs rule: tidy.induct)
  case (3 u lines r s rs)
  show ?case
  proof (cases "keeps u s")
    case True
    then show ?thesis using 3 by simp
  next
    case False
    then obtain t ts where rs: "rs = t # ts" using 3(3) by (cases rs) auto
    have "tidy u lines rs" "separator lines s" "keeps u r" using 3(3) False by auto
    then have "follow u lines None rs = rs" "keeps u t" using 3(2)[of] False rs tidy_hd[of u lines rs] 3(3) by auto
    then show ?thesis using \<open>keeps u r\<close> False owed_one[OF \<open>separator lines s\<close>] rs by simp
  qed
qed auto

lemma squeeze_tidy: "tidy u lines rs \<Longrightarrow> squeeze u lines rs = rs"
proof (cases rs)
  case (Cons r rest)
  moreover assume "tidy u lines rs"
  ultimately have "keeps u r" "follow u lines None rs = rs" using tidy_hd follow_tidy by fastforce+
  then show ?thesis using Cons by (simp add: squeeze_def del: follow.simps)
qed (simp add: squeeze_def)

text \<open>A tidy row cut anywhere and trimmed is a tidy row again, and a front of the first.\<close>

lemma tidy_take:
  "tidy u lines rs \<Longrightarrow> tidy u lines (take n rs)
     \<or> (\<exists>m. n = Suc m \<and> m < length rs \<and> take m rs \<noteq> [] \<and> tidy u lines (take m rs) \<and> is_space (rs ! m))"
proof (induction u lines rs arbitrary: n rule: tidy.induct)
  case (1 u lines)
  then show ?case by simp
next
  case (2 u lines r)
  then show ?case by (cases n) auto
next
  case (3 u lines r s rs)
  have r: "keeps u r" using 3(3) by simp
  show ?case
  proof (cases n)
    case 0
    then show ?thesis by simp
  next
    case (Suc n')
    show ?thesis
    proof (cases "keeps u s")
      case True
      have t: "tidy u lines (s # rs)" using 3(3) True by simp
      consider "tidy u lines (take n' (s # rs))"
        | m where "n' = Suc m" "m < length (s # rs)" "take m (s # rs) \<noteq> []" "tidy u lines (take m (s # rs))"
            "is_space ((s # rs) ! m)"
        using 3(1)[OF True t, of n'] by blast
      then show ?thesis
      proof cases
        case 1
        then show ?thesis using Suc tidy_Cons[OF r] by simp
      next
        case 2
        then have "tidy u lines (take n' (r # s # rs))" using tidy_Cons[OF r] by simp
        then show ?thesis using Suc 2 by auto
      qed
    next
      case False
      then have t: "tidy u lines rs" and s: "separator lines s" and ne: "rs \<noteq> []" using 3(3) by auto
      show ?thesis
      proof (cases n')
        case 0
        then show ?thesis using Suc r by simp
      next
        case (Suc n'')
        show ?thesis
        proof (cases n'')
          case 0
          then show ?thesis using \<open>n = Suc n'\<close> Suc r s separator_space by auto
        next
          case (Suc k)
          have ne': "take n'' rs \<noteq> []" using ne Suc by simp
          consider "tidy u lines (take n'' rs)"
            | m where "n'' = Suc m" "m < length rs" "take m rs \<noteq> []" "tidy u lines (take m rs)" "is_space (rs ! m)"
            using 3(2)[OF False t, of n''] by blast
          then show ?thesis
          proof cases
            case 1
            then show ?thesis using \<open>n = Suc n'\<close> \<open>n' = Suc n''\<close> ne' tidy_gap[OF r s] by simp
          next
            case 2
            then have "tidy u lines (take n' (r # s # rs))" using tidy_gap[OF r s] \<open>n' = Suc n''\<close> by simp
            then show ?thesis using 2 \<open>n = Suc n'\<close> \<open>n' = Suc n''\<close> by auto
          qed
        qed
      qed
    qed
  qed
qed

lemma trim_tidy: "tidy u lines rs \<Longrightarrow> trim_space rs = rs"
proof (cases "rs = []")
  case True
  then show ?thesis by (simp add: trim_space_def)
next
  case False
  moreover assume "tidy u lines rs"
  ultimately show ?thesis using trim_keeper tidy_hd tidy_last by blast
qed

lemma trim_take_tidy:
  assumes "tidy u lines rs"
  obtains k where "k \<le> n" and "trim_space (take n rs) = take k rs" and "tidy u lines (take k rs)"
    and "n \<le> Suc k"
proof -
  consider "tidy u lines (take n rs)"
    | m where "n = Suc m" "m < length rs" "take m rs \<noteq> []" "tidy u lines (take m rs)" "is_space (rs ! m)"
    using tidy_take[OF assms] by blast
  then show ?thesis
  proof cases
    case 1
    then show ?thesis using trim_tidy that[of n] by simp
  next
    case 2
    then have "trim_space (take n rs) = take m rs"
      using trim_keeper_gap[of "take m rs" u "rs ! m"] tidy_hd tidy_last by (metis take_Suc_conv_app_nth)
    then show ?thesis using that[of m] 2 by simp
  qed
qed

lemma filter_follow: 
  assumes "\<forall>g. gap = Some g \<longrightarrow> separator lines g"
  shows "filter (keeps u) (follow u lines gap rs) = filter (keeps u) rs"
  using assms
proof (induction rs arbitrary: gap)
  case (Cons r rs)
  have "\<forall>g. owed lines gap r = Some g \<longrightarrow> separator lines g"
    using Cons.prems owed_separator by blast
  then have "filter (keeps u) (follow u lines (owed lines gap r) rs) = filter (keeps u) rs"
    using Cons.IH by blast
  moreover have "filter (keeps u) (follow u lines None rs) = filter (keeps u) rs" using Cons.IH by blast
  ultimately show ?case using Cons.prems separator_space by (cases gap) auto
qed simp

lemma filter_dropWhile_not: "filter P (dropWhile (\<lambda>x. \<not> P x) xs) = filter P xs"
  by (induction xs) auto

lemma filter_squeeze: "filter (keeps u) (squeeze u lines rs) = filter (keeps u) rs"
  by (simp add: squeeze_def filter_follow filter_dropWhile_not)

lemma tidy_members: "tidy u lines rs \<Longrightarrow> r \<in> set rs \<Longrightarrow> keeps u r \<or> separator lines r"
  by (induction u lines rs rule: tidy.induct) (auto split: if_splits)

lemma keeps_member: "keeps u r \<Longrightarrow> r \<in> set (squeeze u lines rs) \<Longrightarrow> r \<in> set rs"
proof -
  assume "keeps u r" and "r \<in> set (squeeze u lines rs)"
  then have "r \<in> set (filter (keeps u) (squeeze u lines rs))" by simp
  then show ?thesis by (simp add: filter_squeeze)
qed

lemma length_follow:
  "length (follow u lines gap rs) \<le> length rs + (case gap of None \<Rightarrow> 0 | Some _ \<Rightarrow> 1)"
proof (induction rs arbitrary: gap)
  case (Cons r rs)
  have "length (follow u lines None rs) \<le> length rs" using Cons[of None] by simp
  moreover have "length (follow u lines (owed lines gap r) rs) \<le> length rs + 1"
    using Cons[of "owed lines gap r"] by (simp split: option.splits)
  ultimately show ?case by (simp split: option.splits)
qed simp

lemma length_squeeze: "length (squeeze u lines rs) \<le> length rs"
  using length_follow[of u lines None] length_dropWhile_le[of _ rs] le_trans
  unfolding squeeze_def by fastforce

text \<open>The contract of the bounded filter, on runes.\<close>

lemma clean_runes_ok:
  assumes "0 < mx"
  shows "length (clean_runes u mx lines rs) \<le> mx" (is ?len)
    and "tidy u lines (clean_runes u mx lines rs)" (is ?tidy)
    and "\<exists>k. filter (keeps u) (clean_runes u mx lines rs) = take k (filter (keeps u) rs)" (is ?front)
    and "length (squeeze u lines rs) \<le> mx \<Longrightarrow> clean_runes u mx lines rs = squeeze u lines rs"
proof -
  obtain k where k: "k \<le> mx" "trim_space (take mx (squeeze u lines rs)) = take k (squeeze u lines rs)"
    "tidy u lines (take k (squeeze u lines rs))" "mx \<le> Suc k"
    using trim_take_tidy[OF tidy_squeeze[of u lines rs]] .
  have c: "clean_runes u mx lines rs = take k (squeeze u lines rs)" using clean_squeeze[OF assms] k by simp
  show ?len ?tidy using c k by simp_all
  have "filter (keeps u) (take k (squeeze u lines rs)) =
        take (length (filter (keeps u) (take k (squeeze u lines rs)))) (filter (keeps u) (squeeze u lines rs))"
    by (metis append_eq_conv_conj append_take_drop_id filter_append)
  then show ?front using c filter_squeeze by metis
  show "clean_runes u mx lines rs = squeeze u lines rs" if "length (squeeze u lines rs) \<le> mx"
    using clean_squeeze[OF assms] that trim_tidy[OF tidy_squeeze] by simp
qed

lemma clean_runes_fixed:
  assumes "0 < mx" and "tidy u lines rs" and "length rs \<le> mx"
  shows "clean_runes u mx lines rs = rs"
  using clean_runes_ok(4)[OF assms(1), of u lines rs] assms squeeze_tidy by simp

lemma clean_runes_valid:
  assumes "0 < mx" and "list_all valid_rune rs"
  shows "list_all valid_rune (clean_runes u mx lines rs)"
  unfolding list_all_iff
proof
  fix r assume r: "r \<in> set (clean_runes u mx lines rs)"
  show "valid_rune r"
  proof (cases "keeps u r")
    case True
    then have "r \<in> set (filter (keeps u) (clean_runes u mx lines rs))" using r by simp
    then have "r \<in> set rs" using clean_runes_ok(3)[OF assms(1), of u lines rs] by (metis filter_is_subset in_set_takeD subsetD)
    then show ?thesis using assms(2) by (simp add: list_all_iff)
  next
    case False
    then have "separator lines r" using tidy_members[OF clean_runes_ok(2)[OF assms(1)] r] by simp
    then show ?thesis by (auto simp: separator_def blank_def newline_def valid_rune_def)
  qed
qed

lemma runes_of_clean:
  "0 < mx \<Longrightarrow> runes_of (clean u s mx lines) = clean_runes u mx lines (runes_of s)"
  by (simp add: clean_def clean_runes_valid)

lemma clean_clean:
  assumes "0 < mx"
  shows "clean u (clean u s mx lines) mx lines = clean u s mx lines"
proof -
  have "clean_runes u mx lines (clean_runes u mx lines (runes_of s)) = clean_runes u mx lines (runes_of s)"
    using clean_runes_fixed[OF assms clean_runes_ok(2,1)[OF assms]] .
  then show ?thesis using runes_of_clean[OF assms] by (metis clean_def)
qed

lemma clean_length: "0 < mx \<Longrightarrow> length (runes_of (clean u s mx lines)) \<le> mx"
  by (simp add: runes_of_clean clean_runes_ok(1))

text \<open>C38: what \<open>clean\<close> lets through is a row. For every foreign string and every bound it
  is at most the bound long in characters; it holds printable characters, zero width joiners
  and single separators between them (a space, or where the lines are kept a newline), none
  at either end; the characters are the string's own, in order and from its front, all of
  them where they fit; and cleaning it again changes nothing.\<close>

theorem clean_makes_a_row:
  assumes "0 < mx"
  shows "length (runes_of (clean u s mx lines)) \<le> mx
    \<and> tidy u lines (runes_of (clean u s mx lines))
    \<and> (\<exists>k. filter (keeps u) (runes_of (clean u s mx lines)) = take k (filter (keeps u) (runes_of s)))
    \<and> (length (runes_of s) \<le> mx \<longrightarrow>
         filter (keeps u) (runes_of (clean u s mx lines)) = filter (keeps u) (runes_of s))
    \<and> clean u (clean u s mx lines) mx lines = clean u s mx lines"
proof -
  have short: "length (squeeze u lines (runes_of s)) \<le> mx" if "length (runes_of s) \<le> mx"
    using that length_squeeze le_trans by blast
  show ?thesis
    using clean_runes_ok(1-3)[OF assms, of u lines "runes_of s"] clean_clean[OF assms, of u s lines]
      clean_runes_ok(4)[OF assms short] filter_squeeze
    by (simp add: runes_of_clean[OF assms])
qed

lemma clean_makes_a_row_witness:
  "length (runes_of (clean ascii_unicode (''a'' @ replicate 3 CHR 0x0A @ ''b'') 2 True)) \<le> 2"
  using clean_makes_a_row [of 2 ascii_unicode "''a'' @ replicate 3 CHR 0x0A @ ''b''" True] by simp

lemma bounds_positive [simp]: "0 < summaryMax" "0 < actionTextMax" "0 < bodyMax"
  by (simp_all add: summaryMax_def actionTextMax_def bodyMax_def)

lemma oneLine_bounds: "length (runes_of (oneLine u s)) \<le> summaryMax"
  using clean_length[of summaryMax u s False] by (simp add: oneLine_def)

section \<open>The actions a sender declares\<close>

text \<open>The list read as the pairs the specification means by it.\<close>

fun pairs :: "string list \<Rightarrow> (string \<times> string option) list" where
  "pairs [] = []"
| "pairs [key] = [(key, None)]"
| "pairs (key # label # rest) = (key, Some label) # pairs rest"

definition fits :: "unicode \<Rightarrow> string \<Rightarrow> bool" where
  "fits u key \<longleftrightarrow> key \<noteq> [] \<and> length (runes_of key) \<le> actionTextMax \<and> oneLine u key = key"

definition button :: "unicode \<Rightarrow> string \<times> string option \<Rightarrow> action" where
  "button u p = \<lparr>Key = fst p,
     ActionLabel = (let l = (case snd p of None \<Rightarrow> [] | Some l \<Rightarrow> actionLabel u l)
                    in if l = [] then fst p else l)\<rparr>"

lemma takeAction_cases:
  "takeAction u key lab (kept, declared) =
     ((if fits u key \<and> length kept < actionsMax then kept @ [button u (key, lab)] else kept),
      (if key = [] then declared else declared + 1))"
  by (simp add: takeAction_def fits_def button_def Let_def)

definition declared_of :: "string list \<Rightarrow> nat" where
  "declared_of actions = length (filter (\<lambda>p. fst p \<noteq> []) (pairs actions))"

lemma takeActions_loop_pairs:
  "length kept \<le> actionsMax \<Longrightarrow> takeActions_loop u actions (kept, declared) =
     (kept @ map (button u) (take (actionsMax - length kept) (filter (fits u \<circ> fst) (pairs actions))),
      declared + declared_of actions)"
proof (induction actions arbitrary: kept declared rule: pairs.induct)
  case (3 key label rest)
  show ?case
  proof (cases "fits u key \<and> length kept < actionsMax")
    case True
    then have "take (actionsMax - length kept) (p # ps) = p # take (actionsMax - length (kept @ [b])) ps"
      for p :: "string \<times> string option" and ps and b
      by (simp flip: Suc_diff_Suc)
    then show ?thesis
      using True 3(1)[of "kept @ [button u (key, Some label)]"]
      by (auto simp: takeAction_cases declared_of_def fits_def)
  next
    case False
    then have "length kept = actionsMax" if "fits u key" using that 3(2) by simp
    then show ?thesis using False 3 by (auto simp: takeAction_cases declared_of_def)
  qed
qed (auto simp: takeAction_cases declared_of_def)

lemma takeActions_pairs:
  "takeActions u actions =
     (map (button u) (take actionsMax (filter (fits u \<circ> fst) (pairs actions))),
      declared_of actions - min actionsMax (length (filter (fits u \<circ> fst) (pairs actions))))"
  by (simp add: takeActions_def takeActions_loop_pairs)

lemma button_fits:
  assumes "fits u (fst p)"
  shows "Key (button u p) = fst p" and "ActionLabel (button u p) \<noteq> []"
    and "length (runes_of (ActionLabel (button u p))) \<le> actionTextMax"
proof -
  have "length (runes_of (actionLabel u l)) \<le> actionTextMax" for l
    using clean_length[of actionTextMax u l False] by (simp add: actionLabel_def)
  then show "length (runes_of (ActionLabel (button u p))) \<le> actionTextMax"
    using assms by (auto simp: button_def fits_def Let_def split: option.splits)
qed (use assms in \<open>auto simp: button_def fits_def Let_def\<close>)

text \<open>Of the actions a sender declares at most nine are kept, the first nine whose key is
  fit for a row; a kept key is one the sender declared, byte for byte, and within its bound;
  a kept label is never empty and within its bound; and what is not kept is counted, so kept
  and extra add up to what was declared.\<close>

theorem takeActions_honest:
  "length (fst (takeActions u actions)) \<le> actionsMax
   \<and> map Key (fst (takeActions u actions)) = take actionsMax (filter (fits u) (map fst (pairs actions)))
   \<and> list_all (\<lambda>a. ActionLabel a \<noteq> [] \<and> length (runes_of (ActionLabel a)) \<le> actionTextMax)
       (fst (takeActions u actions))
   \<and> length (fst (takeActions u actions)) + snd (takeActions u actions) = declared_of actions"
proof -
  let ?fit = "filter (fits u \<circ> fst) (pairs actions)"
  have all: "fits u (fst p)" if "p \<in> set (take actionsMax ?fit)" for p
    using that by (auto dest: in_set_takeD)
  have keys: "map Key (map (button u) (take actionsMax ?fit)) = take actionsMax (map fst ?fit)"
    using button_fits(1)[OF all] by (simp add: take_map)
  have "length ?fit \<le> declared_of actions"
    unfolding declared_of_def by (rule length_filter_mono) (auto simp: fits_def)
  then show ?thesis
    using keys button_fits(2,3)[OF all]
    by (simp add: takeActions_pairs list_all_iff filter_map comp_def)
qed

section \<open>The names nothing on the bus can take\<close>

lemma of_char_ascii: "ascii s \<Longrightarrow> r \<in> set (map of_char s) \<Longrightarrow> r < (128::nat)"
  by (auto simp: ascii_def list_all_iff)

lemma isSelf_ascii:
  assumes "unicode_ok u" and "ascii s"
  shows "isSelf u s = isSelf ascii_unicode s"
proof -
  have ok: "is_letter u r = is_letter ascii_unicode r" "is_decimal u r = is_decimal ascii_unicode r"
    "to_lower u r = to_lower ascii_unicode r" if "r \<in> set (map of_char s)" for r
    using of_char_ascii[OF assms(2) that] assms(1) by (auto simp: unicode_ok_def ascii_unicode_def)
  have "map (to_lower u) (filter (\<lambda>r. is_letter u r \<or> is_decimal u r) (map of_char s)) =
        map (to_lower ascii_unicode) (filter (\<lambda>r. is_letter ascii_unicode r \<or> is_decimal ascii_unicode r) (map of_char s))"
    using ok by (intro map_cong filter_cong) auto
  then show ?thesis by (simp add: isSelf_def runes_of_ascii[OF assms(2)])
qed

lemma trim_no_space: "(\<And>r. r \<in> set rs \<Longrightarrow> \<not> is_space r) \<Longrightarrow> trim_space rs = rs"
proof -
  assume "\<And>r. r \<in> set rs \<Longrightarrow> \<not> is_space r"
  then have "dropWhile is_space xs = xs" if "set xs = set rs" for xs
    using that by (cases xs) auto
  then show ?thesis by (simp add: trim_space_def)
qed

lemma drawn_ascii:
  assumes "unicode_ok u" and "list_all (\<lambda>c. 32 < (of_char c :: nat) \<and> (of_char c :: nat) < 127) s"
  shows "drawn u s = s"
proof -
  have a: "ascii s" using assms(2) by (auto simp: ascii_def list_all_iff)
  have "filter (\<lambda>r. is_print u r \<and> \<not> is_mark u r) (map of_char s) = map of_char s"
    using assms by (fastforce simp: unicode_ok_def list_all_iff filter_id_conv)
  moreover have "\<not> is_space r" if "r \<in> set (map of_char s)" for r
    using that assms(2) by (auto simp: is_space_def list_all_iff)
  then have "trim_space (map of_char s) = map of_char s" by (rule trim_no_space)
  ultimately show ?thesis
    by (simp add: drawn_def drawn_runes_def runes_of_ascii[OF a] string_of_runes_ascii[OF a])
qed

text \<open>A name the bus gives a connection, as the D-Bus specification writes one: a colon, digits and dots.\<close>

definition bus_name :: "string \<Rightarrow> bool" where
  "bus_name s = (case s of c # cs \<Rightarrow> c = CHR '':'' \<and> list_all (\<lambda>c. is_digit c \<or> c = CHR ''.'') cs | [] \<Rightarrow> False)"

lemma bus_name_plain:
  "bus_name s \<Longrightarrow> list_all (\<lambda>c. 32 < (of_char c :: nat) \<and> (of_char c :: nat) < 127) s"
  by (auto simp: bus_name_def list_all_iff is_digit_of_char split: list.splits)

lemma string_of_runes_hd: "r < 128 \<Longrightarrow> string_of_runes (r # rs) = char_of r # string_of_runes rs"
  by (simp add: string_of_runes_def encode_rune_def valid_rune_def)

lemma bus_name_bytes: "bus_name s \<Longrightarrow> c \<in> set s \<Longrightarrow> (of_char c :: nat) \<le> 58"
  by (auto simp: bus_name_def list_all_iff is_digit_of_char split: list.splits)

lemma bus_name_not_self:
  assumes "unicode_ok u" and "bus_name s"
  shows "\<not> isSelf u s"
proof -
  have a: "ascii s" using bus_name_plain[OF assms(2)] by (auto simp: ascii_def list_all_iff)
  let ?rs = "map (to_lower ascii_unicode)
     (filter (\<lambda>r. is_letter ascii_unicode r \<or> is_decimal ascii_unicode r) (map of_char s))"
  have small: "r \<le> 57" if r: "r \<in> set ?rs" for r
  proof -
    obtain c where c: "c \<in> set s" "r = to_lower ascii_unicode (of_char c)"
      "is_letter ascii_unicode (of_char c) \<or> is_decimal ascii_unicode (of_char c)"
      using r by auto
    have "(of_char c :: nat) \<le> 58" by (rule bus_name_bytes[OF assms(2) c(1)])
    then show ?thesis using c(2,3) by (simp add: ascii_unicode_def split: if_splits)
  qed
  have "string_of_runes ?rs \<noteq> SelfFrom"
  proof (cases ?rs)
    case (Cons r rs)
    then have "r \<in> set ?rs" by simp
    then have r: "r \<le> 57" by (rule small)
    have "char_of r \<noteq> CHR ''z''"
    proof
      assume "char_of r = CHR ''z''"
      then have "(of_char (char_of r :: char) :: nat) = of_char CHR ''z''" by simp
      then show False using r by simp
    qed
    then show ?thesis unfolding Cons using r by (simp add: string_of_runes_hd SelfFrom_def)
  next
    case Nil
    show ?thesis unfolding Nil by (simp add: SelfFrom_def)
  qed
  then have "\<not> isSelf ascii_unicode s" unfolding isSelf_def runes_of_ascii[OF a] .
  then show ?thesis using isSelf_ascii[OF assms(1) a] by simp
qed

text \<open>What a name reads as, and that it is one of the three the server keeps for others.\<close>

definition reserved :: "unicode \<Rightarrow> string \<Rightarrow> bool" where
  "reserved u name \<longleftrightarrow> drawn u name = [] \<or> drawn u name = ''-'' \<or> isSelf u (drawn u name)"

lemma claim_cases:
  "claim u app sender =
     (if reserved u (oneLine u app) then if sender = [] then unnamedSender else sender else oneLine u app)"
  by (simp add: claim_def reserved_def Let_def)

lemma bus_name_free: "unicode_ok u \<Longrightarrow> bus_name s \<Longrightarrow> \<not> reserved u s"
  using drawn_ascii[OF _ bus_name_plain] bus_name_not_self
  by (auto simp: reserved_def bus_name_def)

lemma unnamed_free: "unicode_ok u \<Longrightarrow> \<not> reserved u unnamedSender"
proof -
  assume u: "unicode_ok u"
  have "drawn u unnamedSender = unnamedSender"
    by (rule drawn_ascii[OF u]) (simp add: unnamedSender_def)
  moreover have "ascii unnamedSender" by (simp add: ascii_def unnamedSender_def)
  then have "isSelf u unnamedSender = isSelf ascii_unicode unnamedSender" by (rule isSelf_ascii[OF u])
  moreover have "\<not> isSelf ascii_unicode unnamedSender"
    by (simp add: isSelf_def ascii_unicode_def runes_of_ascii ascii_def unnamedSender_def SelfFrom_def string_of_runes_hd)
  ultimately show ?thesis by (simp add: reserved_def unnamedSender_def)
qed

lemma self_reserved: "unicode_ok u \<Longrightarrow> reserved u SelfFrom"
proof -
  assume u: "unicode_ok u"
  have "drawn u SelfFrom = SelfFrom" by (rule drawn_ascii[OF u]) (simp add: SelfFrom_def)
  moreover have "ascii SelfFrom" by (simp add: ascii_def SelfFrom_def)
  then have "isSelf u SelfFrom = isSelf ascii_unicode SelfFrom" by (rule isSelf_ascii[OF u])
  moreover have "isSelf ascii_unicode SelfFrom"
    by (simp add: isSelf_def ascii_unicode_def runes_of_ascii ascii_def SelfFrom_def string_of_runes_hd char_of_eq_iff)
  ultimately show ?thesis by (simp add: reserved_def)
qed

lemma claim_free:
  assumes "unicode_ok u" and "sender = [] \<or> bus_name sender"
  shows "\<not> reserved u (claim u app sender)"
  using assms bus_name_free unnamed_free by (auto simp: claim_cases)

text \<open>No notification off the bus is recorded under a name the desktop keeps. Whatever an app
  calls itself, and whatever name the bus gives its connection (a colon, digits and dots, or
  none), what \<open>claim\<close> records is drawn as something, is not drawn as the dash of a hand
  typed reminder, does not read as the desktop's own name, and in particular is neither of the
  two names whose rings are never evicted.\<close>

theorem claim_never_reserved:
  assumes "unicode_ok u" and "sender = [] \<or> bus_name sender"
  shows "drawn u (claim u app sender) \<noteq> [] \<and> drawn u (claim u app sender) \<noteq> ''-''
    \<and> \<not> isSelf u (drawn u (claim u app sender))
    \<and> claim u app sender \<noteq> [] \<and> claim u app sender \<noteq> SelfFrom"
proof -
  have free: "\<not> reserved u (claim u app sender)" by (rule claim_free[OF assms])
  moreover have "drawn u [] = []" by (simp add: drawn_def drawn_runes_def trim_space_def runes_of_def)
  ultimately show ?thesis using self_reserved[OF assms(1)] by (auto simp: reserved_def)
qed

lemma claim_never_reserved_witness:
  "claim ascii_unicode ''[Z D E]'' '':1.42'' \<noteq> SelfFrom \<and> claim ascii_unicode ''[Z D E]'' '':1.42'' \<noteq> []"
proof -
  have "bus_name '':1.42''" by (simp add: bus_name_def is_digit_of_char)
  then show ?thesis
    using claim_never_reserved [of ascii_unicode "'':1.42''" "''[Z D E]''"] ascii_unicode_ok by simp
qed

section \<open>What a mode lets through\<close>

lemma lets_cases [simp]:
  "lets Work b" "lets Focus b = b" "\<not> lets Quiet b" "lets [] b"
  by (simp_all add: lets_def modes)

text \<open>A mode this file does not know lets everything through; a stricter mode lets through less.\<close>

lemma lets_unknown: "m \<noteq> Focus \<Longrightarrow> m \<noteq> Quiet \<Longrightarrow> lets m b"
  by (simp add: lets_def)

lemma ParseMode_known: "ParseMode s = Inr m \<Longrightarrow> m \<in> {Work, Focus, Quiet} \<and> (s = m \<or> s = [] \<and> m = Work)"
  by (auto simp: ParseMode_def split: if_splits)

lemma ParseMode_idem: "ParseMode s = Inr m \<Longrightarrow> ParseMode m = Inr m"
  by (auto simp: ParseMode_def modes split: if_splits)

section \<open>Rows that are already rows\<close>

lemma tidy_keepers: "list_all (keeps u) rs \<Longrightarrow> tidy u lines rs"
  by (induction rs) (auto intro: tidy_Cons)

lemma clean_plain:
  assumes "unicode_ok u" and "list_all (\<lambda>c. 32 < (of_char c :: nat) \<and> (of_char c :: nat) < 127) s"
    and "length s \<le> mx" and "0 < mx"
  shows "clean u s mx lines = s"
proof -
  have a: "ascii s" using assms(2) by (auto simp: ascii_def list_all_iff)
  have "list_all (keeps u) (map of_char s)"
    using assms(1,2) by (auto simp: keeps_def unicode_ok_def list_all_iff is_space_def)
  then have "clean_runes u mx lines (map of_char s) = map of_char s"
    using clean_runes_fixed[OF assms(4) tidy_keepers] assms(3) by simp
  then show ?thesis by (simp add: clean_def runes_of_ascii[OF a] string_of_runes_ascii[OF a])
qed

lemma oneLine_plain:
  assumes "unicode_ok u" and "list_all (\<lambda>c. 32 < (of_char c :: nat) \<and> (of_char c :: nat) < 127) s"
    and "length s \<le> summaryMax"
  shows "oneLine u s = s"
  using clean_plain[OF assms] by (simp add: oneLine_def)

lemma oneLine_oneLine [simp]: "oneLine u (oneLine u s) = oneLine u s"
  by (simp add: oneLine_def clean_clean)

text \<open>A connection's name is a row as it stands, as long as it is no longer than one.\<close>

lemma claim_row:
  assumes "unicode_ok u" and "sender = [] \<or> bus_name sender" and "length sender \<le> summaryMax"
  shows "oneLine u (claim u app sender) = claim u app sender"
proof -
  have "oneLine u unnamedSender = unnamedSender"
    by (rule oneLine_plain[OF assms(1)]) (simp_all add: unnamedSender_def summaryMax_def)
  moreover have "oneLine u sender = sender" if "sender \<noteq> []"
    using that assms oneLine_plain[OF assms(1) bus_name_plain] by blast
  ultimately show ?thesis by (simp add: claim_cases)
qed

end
