(* ===== verification/Journal.thy ===== *)
theory Journal
  imports Desk_Name Desk_Moves Attn_Text
begin

text \<open>
  \<open>internal/journal/journal.go\<close>: the append-only log of the little that workspace names
  cannot say. The file is the sequence of its lines, with the unterminated tail a torn write
  leaves kept apart; the outcome of a write or of a compaction is an argument. JSON is what
  \<open>encoding/json\<close> does to a struct of strings: bytes that are not UTF-8 are written as U+FFFD.
  The state is \<open>State\<close>, its two-level map an association list of association lists.
\<close>

section \<open>The data\<close>

definition QueueMax :: nat where "QueueMax = 1000"
definition PerSenderMax :: nat where "PerSenderMax = 30"
definition Reserved :: nat where "Reserved = 100"
definition compactAt :: nat where "compactAt = 1000"


record entry =
  e_Kind :: string
  e_Desk :: string
  e_Monitor :: string
  e_Slot :: string
  e_To :: string
  e_ID :: "64 word"
  e_Text :: string
  e_Body :: string
  e_From :: string
  e_Urgent :: bool
  e_Self :: bool
  e_Mode :: string
  e_Zen :: bool

definition no_entry :: entry where
  "no_entry = \<lparr>e_Kind = [], e_Desk = [], e_Monitor = [], e_Slot = [], e_To = [], e_ID = 0, e_Text = [],
     e_Body = [], e_From = [], e_Urgent = False, e_Self = False, e_Mode = [], e_Zen = False\<rparr>"

record item =
  it_ID :: "64 word"
  it_Text :: string
  it_Desk :: string
  it_From :: string
  it_Self :: bool
  it_Urgent :: bool

record borrowed =
  b_Desk :: string
  b_Mode :: string

record state =
  st_LastActive :: "(string \<times> (string \<times> string) list) list"
  st_LastDesk :: string
  st_OnDesk :: string
  st_Queue :: "item list"
  st_Mode :: string
  st_Borrowed :: borrowed
  st_Zen :: bool

definition newState :: state where
  "newState = \<lparr>st_LastActive = [], st_LastDesk = [], st_OnDesk = [], st_Queue = [], st_Mode = [],
     st_Borrowed = \<lparr>b_Desk = [], b_Mode = []\<rparr>, st_Zen = False\<rparr>"

datatype line = Blank | Torn | Overlong | Entry entry

record jfile =
  f_lines :: "line list"
  f_tail :: "line option"

record journal =
  j_file :: jfile
  j_state :: state
  j_lastID :: "64 word"
  j_entries :: nat
  j_skipped :: nat
  j_bodies :: nat

datatype journal_error = ErrQueueFull | SenderShare | SendersShare | WriteFailed

section \<open>What the file holds\<close>


definition json_entry :: "entry \<Rightarrow> entry" where
  "json_entry e = e\<lparr>e_Kind := json_string (e_Kind e), e_Desk := json_string (e_Desk e),
     e_Monitor := json_string (e_Monitor e), e_Slot := json_string (e_Slot e), e_To := json_string (e_To e),
     e_Text := json_string (e_Text e), e_Body := json_string (e_Body e), e_From := json_string (e_From e),
     e_Mode := json_string (e_Mode e)\<rparr>"

text \<open>
  An appended line runs on from an unterminated one: a fragment followed by a JSON object,
  and two objects on one line, both fail to parse.
\<close>

definition append_line :: "entry \<Rightarrow> jfile \<Rightarrow> jfile" where
  "append_line e f =
     (case f_tail f of
        None \<Rightarrow> f\<lparr>f_lines := f_lines f @ [Entry (json_entry e)]\<rparr>
      | Some Overlong \<Rightarrow> \<lparr>f_lines = f_lines f @ [Overlong], f_tail = None\<rparr>
      | Some _ \<Rightarrow> \<lparr>f_lines = f_lines f @ [Torn], f_tail = None\<rparr>)"

text \<open>
  How a write of one line can end: whole and synced, without a byte, cut short after some,
  or whole but not synced.
\<close>

datatype outcome = Written | NothingWritten | CutShort | Unsynced

definition cut_line :: "jfile \<Rightarrow> jfile" where
  "cut_line f = f\<lparr>f_tail := (if f_tail f = Some Overlong then Some Overlong else Some Torn)\<rparr>"

section \<open>apply\<close>

definition kindActive :: string where "kindActive = ''active''"
definition kindLastDesk :: string where "kindLastDesk = ''lastdesk''"
definition kindOnDesk :: string where "kindOnDesk = ''ondesk''"
definition kindRenamed :: string where "kindRenamed = ''renamed''"
definition kindQueued :: string where "kindQueued = ''queued''"
definition kindDone :: string where "kindDone = ''done''"
definition kindCleared :: string where "kindCleared = ''cleared''"
definition kindLastID :: string where "kindLastID = ''lastid''"
definition kindMode :: string where "kindMode = ''mode''"
definition kindBorrowed :: string where "kindBorrowed = ''borrowed''"
definition kindZen :: string where "kindZen = ''zen''"

lemmas kinds = kindActive_def kindLastDesk_def kindOnDesk_def kindRenamed_def kindQueued_def
  kindDone_def kindCleared_def kindLastID_def kindMode_def kindBorrowed_def kindZen_def

definition skip :: "journal \<Rightarrow> journal" where
  "skip j = j\<lparr>j_skipped := j_skipped j + 1\<rparr>"

definition set_state :: "(state \<Rightarrow> state) \<Rightarrow> journal \<Rightarrow> journal" where
  "set_state f j = j\<lparr>j_state := f (j_state j)\<rparr>"

definition remember ::
  "string \<Rightarrow> string \<Rightarrow> string \<Rightarrow> (string \<times> (string \<times> string) list) list \<Rightarrow> (string \<times> (string \<times> string) list) list" where
  "remember d mon s la = AList.update d (AList.update mon s (aget [] la d)) la"

definition applyRename :: "entry \<Rightarrow> journal \<Rightarrow> journal" where
  "applyRename e j =
     (case ParseName (e_Desk e) of
        Inl _ \<Rightarrow> skip j
      | Inr from \<Rightarrow>
          (case ParseName (e_To e) of
             Inl _ \<Rightarrow> skip j
           | Inr to \<Rightarrow>
               (let byMonitor = aget [] (st_LastActive (j_state j)) (desk from)
                in if aget [] byMonitor (monitor from) \<noteq> slot from then j
                   else set_state (st_LastActive_update (\<lambda>la.
                     remember (desk to) (monitor to) (slot to)
                       (AList.update (desk from) (AList.delete (monitor from) byMonitor) la))) j)))"

fun remove_first :: "64 word \<Rightarrow> item list \<Rightarrow> item list" where
  "remove_first i [] = []"
| "remove_first i (it # its) = (if it_ID it = i then its else it # remove_first i its)"

definition apply_entry :: "entry \<Rightarrow> journal \<Rightarrow> journal" where
  "apply_entry e j =
     (if e_Kind e = kindActive then
        (if e_Desk e = [] \<or> e_Monitor e = [] then skip j
         else set_state (st_LastActive_update (remember (e_Desk e) (e_Monitor e) (e_Slot e))) j)
      else if e_Kind e = kindLastDesk then set_state (st_LastDesk_update (\<lambda>_. e_Desk e)) j
      else if e_Kind e = kindOnDesk then set_state (st_OnDesk_update (\<lambda>_. e_Desk e)) j
      else if e_Kind e = kindQueued then
        (if e_ID e = 0 \<or> e_Text e = [] then skip j
         else
           let j = set_state (st_Queue_update (\<lambda>q. q @ [\<lparr>it_ID = e_ID e, it_Text = e_Text e,
                     it_Desk = e_Desk e, it_From = e_From e, it_Self = e_Self e, it_Urgent = e_Urgent e\<rparr>])) j
           in if j_lastID j < e_ID e then j\<lparr>j_lastID := e_ID e\<rparr> else j)
      else if e_Kind e = kindLastID then
        (if j_lastID j < e_ID e then j\<lparr>j_lastID := e_ID e\<rparr> else j)
      else if e_Kind e = kindMode then set_state (st_Mode_update (\<lambda>_. e_Mode e)) j
      else if e_Kind e = kindZen then set_state (st_Zen_update (\<lambda>_. e_Zen e)) j
      else if e_Kind e = kindBorrowed then
        set_state (st_Borrowed_update (\<lambda>_. \<lparr>b_Desk = e_Desk e, b_Mode = e_Mode e\<rparr>)) j
      else if e_Kind e = kindDone then set_state (st_Queue_update (remove_first (e_ID e))) j
      else if e_Kind e = kindCleared then set_state (st_Queue_update (\<lambda>_. [])) j
      else if e_Kind e = kindRenamed then applyRename e j
      else skip j)"

section \<open>Replay and Open\<close>

definition fresh :: "jfile \<Rightarrow> journal" where
  "fresh f = \<lparr>j_file = f, j_state = newState, j_lastID = 0, j_entries = 0, j_skipped = 0, j_bodies = 0\<rparr>"

fun replay_lines :: "line list \<Rightarrow> journal \<Rightarrow> journal option" where
  "replay_lines [] j = Some j"
| "replay_lines (Blank # ls) j = replay_lines ls j"
| "replay_lines (Torn # ls) j = replay_lines ls (skip j)"
| "replay_lines (Overlong # ls) j = None"
| "replay_lines (Entry e # ls) j =
     (let j = (if e_Body e \<noteq> [] then j\<lparr>j_bodies := j_bodies j + 1\<rparr> else j);
          j = j\<lparr>j_entries := j_entries j + 1\<rparr>
      in replay_lines ls (apply_entry e j))"

definition file_lines :: "jfile \<Rightarrow> line list" where
  "file_lines f = f_lines f @ (case f_tail f of None \<Rightarrow> [] | Some l \<Rightarrow> [l])"

definition replay :: "jfile \<Rightarrow> journal option" where
  "replay f = replay_lines (file_lines f) (fresh f)"

section \<open>Compaction\<close>

definition queued_entry :: "item \<Rightarrow> entry" where
  "queued_entry it = no_entry\<lparr>e_Kind := kindQueued, e_ID := it_ID it, e_Text := it_Text it,
     e_Desk := it_Desk it, e_From := it_From it, e_Urgent := it_Urgent it, e_Self := it_Self it\<rparr>"

definition sortedKeys :: "(string \<times> 'v) list \<Rightarrow> string list" where
  "sortedKeys m = sort_strings (map fst m)"

definition compact_entries :: "journal \<Rightarrow> entry list" where
  "compact_entries j =
     (let s = j_state j in
      concat (map (\<lambda>d. map (\<lambda>mon. no_entry\<lparr>e_Kind := kindActive, e_Desk := d, e_Monitor := mon,
                                 e_Slot := aget [] (aget [] (st_LastActive s) d) mon\<rparr>)
                        (sortedKeys (aget [] (st_LastActive s) d)))
                (sortedKeys (st_LastActive s)))
      @ (if st_LastDesk s \<noteq> [] then [no_entry\<lparr>e_Kind := kindLastDesk, e_Desk := st_LastDesk s\<rparr>] else [])
      @ (if st_OnDesk s \<noteq> [] then [no_entry\<lparr>e_Kind := kindOnDesk, e_Desk := st_OnDesk s\<rparr>] else [])
      @ (if st_Mode s \<noteq> [] then [no_entry\<lparr>e_Kind := kindMode, e_Mode := st_Mode s\<rparr>] else [])
      @ (if b_Desk (st_Borrowed s) \<noteq> []
         then [no_entry\<lparr>e_Kind := kindBorrowed, e_Desk := b_Desk (st_Borrowed s), e_Mode := b_Mode (st_Borrowed s)\<rparr>] else [])
      @ (if st_Zen s then [no_entry\<lparr>e_Kind := kindZen, e_Zen := True\<rparr>] else [])
      @ map queued_entry (st_Queue s)
      @ (if j_lastID j \<noteq> 0 then [no_entry\<lparr>e_Kind := kindLastID, e_ID := j_lastID j\<rparr>] else []))"

text \<open>
  A compaction writes a new file and renames it over the old one. It can fail before the
  rename, which leaves the old file, or after it, when the new one does not open again.
\<close>

datatype compaction = Compacted | FailedBefore | FailedAfter

definition compacted_file :: "journal \<Rightarrow> jfile" where
  "compacted_file j = \<lparr>f_lines = map (Entry \<circ> json_entry) (compact_entries j), f_tail = None\<rparr>"

definition compactLocked :: "compaction \<Rightarrow> journal \<Rightarrow> bool \<times> journal" where
  "compactLocked c j =
     (case c of
        FailedBefore \<Rightarrow> (False, j)
      | FailedAfter \<Rightarrow> (False, j\<lparr>j_file := compacted_file j\<rparr>)
      | Compacted \<Rightarrow> (True, j\<lparr>j_file := compacted_file j, j_entries := length (compact_entries j), j_bodies := 0\<rparr>))"

definition Open :: "compaction \<Rightarrow> jfile \<Rightarrow> journal option" where
  "Open c f =
     (case replay f of
        None \<Rightarrow> None
      | Some j \<Rightarrow>
          if compactAt < j_entries j \<or> 0 < j_bodies j
          then (case compactLocked c j of (True, j) \<Rightarrow> Some j | (False, _) \<Rightarrow> None)
          else Some j)"

section \<open>Writing\<close>

definition recordLocked :: "outcome \<Rightarrow> entry \<Rightarrow> journal \<Rightarrow> bool \<times> journal" where
  "recordLocked out e j =
     (case out of
        NothingWritten \<Rightarrow> (False, j)
      | CutShort \<Rightarrow> (False, j\<lparr>j_file := cut_line (j_file j)\<rparr>)
      | Unsynced \<Rightarrow> (False, j\<lparr>j_file := append_line e (j_file j)\<rparr>)
      | Written \<Rightarrow>
          (True, apply_entry e (j\<lparr>j_file := append_line e (j_file j), j_entries := j_entries j + 1\<rparr>)))"

definition ours :: "string \<Rightarrow> bool" where
  "ours from \<longleftrightarrow> from = [] \<or> from = SelfFrom"

definition roomFor :: "item list \<Rightarrow> string \<Rightarrow> journal_error option" where
  "roomFor q from =
     (if QueueMax \<le> length q then Some ErrQueueFull
      else if ours from then None
      else
        let held = length (filter (\<lambda>it. \<not> ours (it_From it)) q);
            mine = length (filter (\<lambda>it. \<not> ours (it_From it) \<and> it_From it = from) q)
        in if PerSenderMax \<le> mine then Some SenderShare
           else if QueueMax - Reserved \<le> held then Some SendersShare
           else None)"

definition Queue :: "outcome \<Rightarrow> item \<Rightarrow> journal \<Rightarrow> (journal_error + item) \<times> journal" where
  "Queue out it j =
     (case roomFor (st_Queue (j_state j)) (it_From it) of
        Some e \<Rightarrow> (Inl e, j)
      | None \<Rightarrow>
          (let it = it\<lparr>it_ID := j_lastID j + 1\<rparr>
           in case recordLocked out (queued_entry it) j of
                (True, j) \<Rightarrow> (Inr it, j)
              | (False, j) \<Rightarrow> (Inl WriteFailed, j)))"

definition ClaimID :: "outcome \<Rightarrow> journal \<Rightarrow> 64 word option \<times> journal" where
  "ClaimID out j =
     (let i = j_lastID j + 1
      in case recordLocked out (no_entry\<lparr>e_Kind := kindLastID, e_ID := i\<rparr>) j of
           (True, j) \<Rightarrow> (Some i, j)
         | (False, j) \<Rightarrow> (None, j))"

definition Clear :: "outcome \<Rightarrow> journal \<Rightarrow> nat option \<times> journal" where
  "Clear out j =
     (let n = length (st_Queue (j_state j))
      in if n = 0 then (Some 0, j)
         else case recordLocked out (no_entry\<lparr>e_Kind := kindCleared\<rparr>) j of
                (True, j) \<Rightarrow> (Some n, j)
              | (False, j) \<Rightarrow> (None, j))"

definition SetZen :: "outcome \<Rightarrow> bool \<Rightarrow> journal \<Rightarrow> bool \<times> journal" where
  "SetZen out on = recordLocked out (no_entry\<lparr>e_Kind := kindZen, e_Zen := on\<rparr>)"

definition SetBorrowed :: "outcome \<Rightarrow> borrowed \<Rightarrow> journal \<Rightarrow> bool \<times> journal" where
  "SetBorrowed out b = recordLocked out (no_entry\<lparr>e_Kind := kindBorrowed, e_Desk := b_Desk b, e_Mode := b_Mode b\<rparr>)"

definition SetActive :: "outcome \<Rightarrow> name \<Rightarrow> journal \<Rightarrow> bool \<times> journal" where
  "SetActive out n = recordLocked out
     (no_entry\<lparr>e_Kind := kindActive, e_Desk := desk n, e_Monitor := monitor n, e_Slot := slot n\<rparr>)"

definition SetLastDesk :: "outcome \<Rightarrow> string \<Rightarrow> journal \<Rightarrow> bool \<times> journal" where
  "SetLastDesk out d = recordLocked out (no_entry\<lparr>e_Kind := kindLastDesk, e_Desk := d\<rparr>)"

definition SetOnDesk :: "outcome \<Rightarrow> string \<Rightarrow> journal \<Rightarrow> bool \<times> journal" where
  "SetOnDesk out d = recordLocked out (no_entry\<lparr>e_Kind := kindOnDesk, e_Desk := d\<rparr>)"

definition SetMode :: "outcome \<Rightarrow> string \<Rightarrow> journal \<Rightarrow> bool \<times> journal" where
  "SetMode out m = recordLocked out (no_entry\<lparr>e_Kind := kindMode, e_Mode := m\<rparr>)"

definition Done :: "outcome \<Rightarrow> 64 word \<Rightarrow> journal \<Rightarrow> bool \<times> journal" where
  "Done out i = recordLocked out (no_entry\<lparr>e_Kind := kindDone, e_ID := i\<rparr>)"

definition Renamed :: "outcome \<Rightarrow> rename \<Rightarrow> journal \<Rightarrow> bool \<times> journal" where
  "Renamed out r = recordLocked out
     (no_entry\<lparr>e_Kind := kindRenamed, e_Desk := String (From r), e_To := String (To r)\<rparr>)"

definition State :: "journal \<Rightarrow> state" where "State j = j_state j"
definition Waiting :: "journal \<Rightarrow> item list" where "Waiting j = st_Queue (j_state j)"
definition Skipped :: "journal \<Rightarrow> nat" where "Skipped j = j_skipped j"

section \<open>The contract\<close>

text \<open>
  What a journal remembers, with the maps as functions: the abstract state every caller
  reads. \<open>apply_view\<close> is what one entry does to it.
\<close>

record view =
  v_active :: "string \<Rightarrow> string \<Rightarrow> string option"
  v_last :: string
  v_on :: string
  v_queue :: "item list"
  v_mode :: string
  v_borrowed :: borrowed
  v_zen :: bool
  v_id :: "64 word"

definition view_of :: "journal \<Rightarrow> view" where
  "view_of j = \<lparr>v_active = (\<lambda>d. map_of (aget [] (st_LastActive (j_state j)) d)), v_last = st_LastDesk (j_state j),
     v_on = st_OnDesk (j_state j), v_queue = st_Queue (j_state j), v_mode = st_Mode (j_state j),
     v_borrowed = st_Borrowed (j_state j), v_zen = st_Zen (j_state j), v_id = j_lastID j\<rparr>"

definition rename_view :: "entry \<Rightarrow> view \<Rightarrow> view" where
  "rename_view e v =
     (case (ParseName (e_Desk e), ParseName (e_To e)) of
        (Inr from, Inr to) \<Rightarrow>
          if v_active v (desk from) (monitor from) \<noteq> Some (slot from) then v
          else v\<lparr>v_active := (\<lambda>d mon. if d = desk to \<and> mon = monitor to then Some (slot to)
                  else if d = desk from \<and> mon = monitor from then None else v_active v d mon)\<rparr>
      | _ \<Rightarrow> v)"

definition apply_view :: "entry \<Rightarrow> view \<Rightarrow> view" where
  "apply_view e v =
     (if e_Kind e = kindActive then
        (if e_Desk e = [] \<or> e_Monitor e = [] then v
         else v\<lparr>v_active := (v_active v)(e_Desk e := (v_active v (e_Desk e))(e_Monitor e \<mapsto> e_Slot e))\<rparr>)
      else if e_Kind e = kindLastDesk then v\<lparr>v_last := e_Desk e\<rparr>
      else if e_Kind e = kindOnDesk then v\<lparr>v_on := e_Desk e\<rparr>
      else if e_Kind e = kindQueued then
        (if e_ID e = 0 \<or> e_Text e = [] then v
         else v\<lparr>v_queue := v_queue v @ [\<lparr>it_ID = e_ID e, it_Text = e_Text e, it_Desk = e_Desk e,
                  it_From = e_From e, it_Self = e_Self e, it_Urgent = e_Urgent e\<rparr>],
                v_id := max (v_id v) (e_ID e)\<rparr>)
      else if e_Kind e = kindLastID then v\<lparr>v_id := max (v_id v) (e_ID e)\<rparr>
      else if e_Kind e = kindMode then v\<lparr>v_mode := e_Mode e\<rparr>
      else if e_Kind e = kindZen then v\<lparr>v_zen := e_Zen e\<rparr>
      else if e_Kind e = kindBorrowed then v\<lparr>v_borrowed := \<lparr>b_Desk = e_Desk e, b_Mode = e_Mode e\<rparr>\<rparr>
      else if e_Kind e = kindDone then v\<lparr>v_queue := remove_first (e_ID e) (v_queue v)\<rparr>
      else if e_Kind e = kindCleared then v\<lparr>v_queue := []\<rparr>
      else if e_Kind e = kindRenamed then rename_view e v
      else v)"

lemma map_of_update_other: "map_of (AList.update k v m) k' = (if k' = k then Some v else map_of m k')"
  by (simp add: update_conv')

lemma view_remember:
  "(\<lambda>d'. map_of (aget [] (remember d mon s la) d')) = (\<lambda>d'. map_of (aget [] la d'))(d := (map_of (aget [] la d))(mon \<mapsto> s))"
  by (rule ext) (simp add: remember_def update_conv')

lemma aget_Some: "s \<noteq> [] \<Longrightarrow> aget [] m k = s \<longleftrightarrow> map_of m k = Some s"
  by (auto simp: aget_def split: option.split)

lemma view_applyRename: "view_of (applyRename e j) = rename_view e (view_of j)"
proof (cases "ParseName (e_Desk e)")
  case (Inr frm)
  show ?thesis
  proof (cases "ParseName (e_To e)")
    case to: (Inr to)
    have ne: "slot frm \<noteq> []" using Inr by (auto simp: ParseName_iff valid_name_def valid_slot_def)
    let ?la = "st_LastActive (j_state j)"
    show ?thesis
    proof (cases "aget [] (aget [] ?la (desk frm)) (monitor frm) = slot frm")
      case True
      then have "map_of (aget [] ?la (desk frm)) (monitor frm) = Some (slot frm)" using ne by (simp add: aget_Some)
      with Inr to True show ?thesis
        by (simp add: applyRename_def rename_view_def view_of_def set_state_def Let_def view_remember fun_eq_iff delete_conv')
    next
      case False
      then have "map_of (aget [] ?la (desk frm)) (monitor frm) \<noteq> Some (slot frm)" using ne aget_Some by metis
      with Inr to False show ?thesis
        by (simp add: applyRename_def rename_view_def view_of_def Let_def)
    qed
  qed (simp add: Inr applyRename_def rename_view_def view_of_def skip_def)
qed (simp add: applyRename_def rename_view_def view_of_def skip_def split: sum.split)

text \<open>The refinement: applying an entry to the journal is applying it to what the journal remembers.\<close>

lemma view_leaves:
  "view_of (skip j) = view_of j"
  "view_of (set_state (st_LastActive_update f) j) = (view_of j)\<lparr>v_active := (\<lambda>d. map_of (aget [] (f (st_LastActive (j_state j))) d))\<rparr>"
  "view_of (set_state (st_LastDesk_update (\<lambda>_. s)) j) = (view_of j)\<lparr>v_last := s\<rparr>"
  "view_of (set_state (st_OnDesk_update (\<lambda>_. s)) j) = (view_of j)\<lparr>v_on := s\<rparr>"
  "view_of (set_state (st_Queue_update q) j) = (view_of j)\<lparr>v_queue := q (v_queue (view_of j))\<rparr>"
  "view_of (set_state (st_Mode_update (\<lambda>_. s)) j) = (view_of j)\<lparr>v_mode := s\<rparr>"
  "view_of (set_state (st_Zen_update (\<lambda>_. b)) j) = (view_of j)\<lparr>v_zen := b\<rparr>"
  "view_of (set_state (st_Borrowed_update (\<lambda>_. bo)) j) = (view_of j)\<lparr>v_borrowed := bo\<rparr>"
  "view_of (j\<lparr>j_lastID := i\<rparr>) = (view_of j)\<lparr>v_id := i\<rparr>"
  "j_lastID (set_state g j) = j_lastID j" "v_id (view_of j) = j_lastID j"
  "v_active (view_of j) = (\<lambda>d. map_of (aget [] (st_LastActive (j_state j)) d))"
  by (simp_all add: view_of_def skip_def set_state_def)

text \<open>The refinement: applying an entry to the journal is applying it to what the journal remembers.\<close>

lemma view_apply: "view_of (apply_entry e j) = apply_view e (view_of j)"
proof (cases "e_Kind e = kindRenamed")
  case True
  then show ?thesis by (simp add: apply_entry_def apply_view_def kinds view_applyRename)
next
  case False
  have max: "max (j_lastID j) (e_ID e) = (if j_lastID j < e_ID e then e_ID e else j_lastID j)"
    by (auto simp: max_def)
  have same: "(view_of j)\<lparr>v_id := j_lastID j\<rparr> = view_of j" by (simp add: view_of_def)
  show ?thesis
    unfolding apply_entry_def apply_view_def if_distrib [of view_of] Let_def
    by (intro if_cong refl)
      (simp_all add: view_leaves view_remember max same False)
qed

lemma apply_keeps [simp]:
  "j_file (apply_entry e j) = j_file j" "j_entries (apply_entry e j) = j_entries j" "j_bodies (apply_entry e j) = j_bodies j"
  by (simp_all add: apply_entry_def applyRename_def set_state_def skip_def Let_def split: sum.split)

section \<open>What survives a restart\<close>

text \<open>
  An append-only file whose entries are folded over a start value: what a line adds to the
  file is what it adds to the state, so a replay recovers what the writer had.
\<close>

locale append_log =
  fixes start :: 'v
    and app :: "'e \<Rightarrow> 'v \<Rightarrow> 'v"
    and entries_in :: "'f \<Rightarrow> 'e list"
    and put :: "'e \<Rightarrow> 'f \<Rightarrow> 'f"
    and whole :: "'f \<Rightarrow> bool"
    and writable :: "'e \<Rightarrow> bool"
  assumes whole_put: "whole f \<Longrightarrow> writable e \<Longrightarrow> whole (put e f)"
    and entries_put: "whole f \<Longrightarrow> writable e \<Longrightarrow> entries_in (put e f) = entries_in f @ [e]"
begin

definition recovered :: "'f \<Rightarrow> 'v" where
  "recovered f = fold app (entries_in f) start"

lemma recovered_put: "whole f \<Longrightarrow> writable e \<Longrightarrow> recovered (put e f) = app e (recovered f)"
  by (simp add: recovered_def entries_put)

lemma recovered_puts:
  "whole f \<Longrightarrow> (\<And>e. e \<in> set es \<Longrightarrow> writable e) \<Longrightarrow>
   whole (fold put es f) \<and> recovered (fold put es f) = fold app es (recovered f)"
  by (induction es arbitrary: f) (simp_all add: whole_put recovered_put)

end

fun line_entries :: "line list \<Rightarrow> entry list" where
  "line_entries [] = []"
| "line_entries (Entry e # ls) = e # line_entries ls"
| "line_entries (Blank # ls) = line_entries ls"
| "line_entries (Torn # ls) = line_entries ls"
| "line_entries (Overlong # ls) = line_entries ls"

lemma line_entries_append [simp]: "line_entries (xs @ ys) = line_entries xs @ line_entries ys"
  by (induction xs rule: line_entries.induct) simp_all

definition file_entries :: "jfile \<Rightarrow> entry list" where
  "file_entries f = line_entries (file_lines f)"

definition whole_file :: "jfile \<Rightarrow> bool" where
  "whole_file f \<longleftrightarrow> f_tail f = None \<and> Overlong \<notin> set (f_lines f)"


definition writable_entry :: "entry \<Rightarrow> bool" where
  "writable_entry e \<longleftrightarrow> json_entry e = e"

definition start_view :: view where
  "start_view = view_of (fresh \<lparr>f_lines = [], f_tail = None\<rparr>)"

interpretation jlog: append_log start_view apply_view file_entries append_line whole_file writable_entry
  by unfold_locales (auto simp: whole_file_def append_line_def file_entries_def file_lines_def writable_entry_def)

lemma view_more [simp]:
  "view_of (j\<lparr>j_entries := n\<rparr>) = view_of j" "view_of (j\<lparr>j_bodies := n\<rparr>) = view_of j"
  "view_of (j\<lparr>j_file := f\<rparr>) = view_of j" "view_of (skip j) = view_of j"
  by (simp_all add: view_of_def skip_def)

lemma replay_lines_view:
  "replay_lines ls j = Some j' \<Longrightarrow> view_of j' = fold apply_view (line_entries ls) (view_of j)"
proof (induction ls j rule: replay_lines.induct)
  case (5 e ls j)
  let ?j = "(if e_Body e \<noteq> [] then j\<lparr>j_bodies := j_bodies j + 1\<rparr> else j)"
  have "view_of j' = fold apply_view (line_entries ls) (view_of (apply_entry e (?j\<lparr>j_entries := j_entries ?j + 1\<rparr>)))"
    by (rule 5(1) [OF refl refl]) (use 5(2) in \<open>simp add: Let_def\<close>)
  then show ?case by (simp add: view_apply)
qed simp_all

lemma replay_lines_total: "Overlong \<notin> set ls \<Longrightarrow> \<exists>j'. replay_lines ls j = Some j'"
proof (induction ls j rule: replay_lines.induct)
  case (5 e ls j)
  then show ?case by (simp add: Let_def)
qed simp_all

lemma replay_lines_file: "replay_lines ls j = Some j' \<Longrightarrow> j_file j' = j_file j"
proof (induction ls j rule: replay_lines.induct)
  case (5 e ls j)
  have "j_file j' = j_file (apply_entry e ((if e_Body e \<noteq> [] then j\<lparr>j_bodies := j_bodies j + 1\<rparr> else j)
      \<lparr>j_entries := j_entries (if e_Body e \<noteq> [] then j\<lparr>j_bodies := j_bodies j + 1\<rparr> else j) + 1\<rparr>))"
    by (rule 5(1) [OF refl refl]) (use 5(2) in \<open>simp add: Let_def\<close>)
  then show ?case by simp
qed (simp_all add: skip_def)

definition durable :: "journal \<Rightarrow> bool" where
  "durable j \<longleftrightarrow> whole_file (j_file j) \<and> jlog.recovered (j_file j) = view_of j"

lemma replay_whole:
  "whole_file f \<Longrightarrow> \<exists>j. replay f = Some j \<and> view_of j = jlog.recovered f \<and> j_file j = f"
proof -
  assume w: "whole_file f"
  then have "Overlong \<notin> set (file_lines f)" by (simp add: whole_file_def file_lines_def)
  then obtain j where j: "replay_lines (file_lines f) (fresh f) = Some j" using replay_lines_total by blast
  have "view_of (fresh f) = start_view" by (simp add: start_view_def view_of_def fresh_def)
  then have "view_of j = jlog.recovered f"
    using replay_lines_view [OF j] by (simp add: jlog.recovered_def file_entries_def)
  moreover have "j_file j = f" using replay_lines_file [OF j] by (simp add: fresh_def)
  ultimately show ?thesis using j by (simp add: replay_def)
qed

lemma record_view: "recordLocked Written e j = (True, j') \<Longrightarrow> view_of j' = apply_view e (view_of j)"
  by (auto simp: recordLocked_def view_apply)

lemma record_durable:
  assumes "durable j" "writable_entry e" "recordLocked out e j = (ok, j')" "out = Written \<or> out = NothingWritten"
  shows "durable j'"
  using assms jlog.whole_put [of "j_file j" e] jlog.recovered_put [of "j_file j" e]
  by (auto simp: durable_def recordLocked_def view_apply)

section \<open>Compaction keeps what is remembered\<close>

definition item_ok :: "64 word \<Rightarrow> item \<Rightarrow> bool" where
  "item_ok top_id it \<longleftrightarrow> it_ID it \<noteq> 0 \<and> it_ID it \<le> top_id \<and> it_Text it \<noteq> [] \<and> utf8 (it_Text it) \<and> utf8 (it_Desk it) \<and> utf8 (it_From it)"

text \<open>What every journal holds: places under real names, items that can be finished, a loan only with a borrower.\<close>

definition view_ok :: "view \<Rightarrow> bool" where
  "view_ok v \<longleftrightarrow>
     (\<forall>d mon s. v_active v d mon = Some s \<longrightarrow> d \<noteq> [] \<and> mon \<noteq> [] \<and> utf8 d \<and> utf8 mon \<and> utf8 s)
   \<and> utf8 (v_last v) \<and> utf8 (v_on v) \<and> utf8 (v_mode v)
   \<and> utf8 (b_Desk (v_borrowed v)) \<and> utf8 (b_Mode (v_borrowed v)) \<and> (b_Desk (v_borrowed v) = [] \<longrightarrow> b_Mode (v_borrowed v) = [])
   \<and> list_all (item_ok (v_id v)) (v_queue v)
   \<and> distinct (map it_ID (v_queue v))"


lemma utf8_kinds [simp]:
  "utf8 kindActive" "utf8 kindLastDesk" "utf8 kindOnDesk" "utf8 kindRenamed" "utf8 kindQueued" "utf8 kindDone"
  "utf8 kindCleared" "utf8 kindLastID" "utf8 kindMode" "utf8 kindBorrowed" "utf8 kindZen"
  by (rule utf8_ascii, simp add: kinds ascii_def)+

lemma writable_iff: "writable_entry e \<longleftrightarrow> utf8 (e_Kind e) \<and> utf8 (e_Desk e) \<and> utf8 (e_Monitor e) \<and> utf8 (e_Slot e)
    \<and> utf8 (e_To e) \<and> utf8 (e_Text e) \<and> utf8 (e_Body e) \<and> utf8 (e_From e) \<and> utf8 (e_Mode e)"
  by (cases e) (simp add: writable_entry_def json_entry_def utf8_def)

definition act :: "string \<Rightarrow> string \<Rightarrow> string \<Rightarrow> entry" where
  "act d mon s = no_entry\<lparr>e_Kind := kindActive, e_Desk := d, e_Monitor := mon, e_Slot := s\<rparr>"

lemma apply_act: "d \<noteq> [] \<Longrightarrow> mon \<noteq> [] \<Longrightarrow>
    apply_view (act d mon s) v = v\<lparr>v_active := (v_active v)(d := (v_active v d)(mon \<mapsto> s))\<rparr>"
  by (simp add: apply_view_def act_def no_entry_def)

lemma fold_act:
  "\<forall>(d, mon) \<in> set ps. d \<noteq> [] \<and> mon \<noteq> [] \<Longrightarrow>
   fold apply_view (map (\<lambda>(d, mon). act d mon (g d mon)) ps) v =
     v\<lparr>v_active := (\<lambda>d mon. if (d, mon) \<in> set ps then Some (g d mon) else v_active v d mon)\<rparr>"
proof (induction ps arbitrary: v)
  case (Cons p ps)
  obtain d mon where p: "p = (d, mon)" by fastforce
  have "d \<noteq> []" "mon \<noteq> []" using Cons.prems p by auto
  then have "fold apply_view (map (\<lambda>(d, mon). act d mon (g d mon)) (p # ps)) v
      = fold apply_view (map (\<lambda>(d, mon). act d mon (g d mon)) ps)
          (v\<lparr>v_active := (v_active v)(d := (v_active v d)(mon \<mapsto> g d mon))\<rparr>)"
    by (simp add: p apply_act)
  also have "\<dots> = v\<lparr>v_active := (\<lambda>d' mon'. if (d', mon') \<in> set ps then Some (g d' mon')
        else ((v_active v)(d := (v_active v d)(mon \<mapsto> g d mon))) d' mon')\<rparr>"
    using Cons.IH [of "v\<lparr>v_active := (v_active v)(d := (v_active v d)(mon \<mapsto> g d mon))\<rparr>"] Cons.prems
    by (simp cong: if_cong)
  also have "(\<lambda>d' mon'. if (d', mon') \<in> set ps then Some (g d' mon')
        else ((v_active v)(d := (v_active v d)(mon \<mapsto> g d mon))) d' mon')
      = (\<lambda>d' mon'. if (d', mon') \<in> set (p # ps) then Some (g d' mon') else v_active v d' mon')"
    by (auto simp: p fun_eq_iff)
  finally show ?case .
qed simp

lemma apply_queued:
  "it_ID it \<noteq> 0 \<Longrightarrow> it_Text it \<noteq> [] \<Longrightarrow>
   apply_view (queued_entry it) v = v\<lparr>v_queue := v_queue v @ [it], v_id := max (v_id v) (it_ID it)\<rparr>"
  by (cases it) (simp add: apply_view_def queued_entry_def no_entry_def kinds)

lemma fold_queued:
  "list_all (item_ok m) q \<Longrightarrow> v_id v \<le> m \<Longrightarrow>
   \<exists>i \<le> m. fold apply_view (map queued_entry q) v = v\<lparr>v_queue := v_queue v @ q, v_id := i\<rparr>"
proof (induction q arbitrary: v)
  case Nil
  then show ?case by (intro exI [of _ "v_id v"]) simp
next
  case (Cons it q)
  then have it: "it_ID it \<noteq> 0" "it_Text it \<noteq> []" "it_ID it \<le> m" by (simp_all add: item_ok_def)
  let ?v = "v\<lparr>v_queue := v_queue v @ [it], v_id := max (v_id v) (it_ID it)\<rparr>"
  have "v_id ?v \<le> m" using Cons.prems it(3) by simp
  moreover have "list_all (item_ok m) q" using Cons.prems by simp
  ultimately obtain i where "i \<le> m" "fold apply_view (map queued_entry q) ?v = ?v\<lparr>v_queue := v_queue ?v @ q, v_id := i\<rparr>"
    using Cons.IH by blast
  with it show ?case by (intro exI [of _ i]) (simp add: apply_queued)
qed

lemma sortedKeys_set [simp]: "set (sortedKeys m) = dom (map_of m)"
  by (simp add: sortedKeys_def dom_map_of_conv_image_fst)

lemma compact_active:
  "concat (map (\<lambda>d. map (\<lambda>mon. no_entry\<lparr>e_Kind := kindActive, e_Desk := d, e_Monitor := mon, e_Slot := g d mon\<rparr>) (ks d)) ds)
     = map (\<lambda>(d, mon). act d mon (g d mon)) (concat (map (\<lambda>d. map (Pair d) (ks d)) ds))"
  by (simp add: map_concat comp_def act_def)

definition singles :: "view \<Rightarrow> entry list" where
  "singles v =
     (if v_last v \<noteq> [] then [no_entry\<lparr>e_Kind := kindLastDesk, e_Desk := v_last v\<rparr>] else [])
   @ (if v_on v \<noteq> [] then [no_entry\<lparr>e_Kind := kindOnDesk, e_Desk := v_on v\<rparr>] else [])
   @ (if v_mode v \<noteq> [] then [no_entry\<lparr>e_Kind := kindMode, e_Mode := v_mode v\<rparr>] else [])
   @ (if b_Desk (v_borrowed v) \<noteq> []
      then [no_entry\<lparr>e_Kind := kindBorrowed, e_Desk := b_Desk (v_borrowed v), e_Mode := b_Mode (v_borrowed v)\<rparr>] else [])
   @ (if v_zen v then [no_entry\<lparr>e_Kind := kindZen, e_Zen := True\<rparr>] else [])"

lemma apply_singles:
  "apply_view (no_entry\<lparr>e_Kind := kindLastDesk, e_Desk := s\<rparr>) v = v\<lparr>v_last := s\<rparr>"
  "apply_view (no_entry\<lparr>e_Kind := kindOnDesk, e_Desk := s\<rparr>) v = v\<lparr>v_on := s\<rparr>"
  "apply_view (no_entry\<lparr>e_Kind := kindMode, e_Mode := s\<rparr>) v = v\<lparr>v_mode := s\<rparr>"
  "apply_view (no_entry\<lparr>e_Kind := kindBorrowed, e_Desk := s, e_Mode := t\<rparr>) v = v\<lparr>v_borrowed := \<lparr>b_Desk = s, b_Mode = t\<rparr>\<rparr>"
  "apply_view (no_entry\<lparr>e_Kind := kindZen, e_Zen := b\<rparr>) v = v\<lparr>v_zen := b\<rparr>"
  "apply_view (no_entry\<lparr>e_Kind := kindLastID, e_ID := i\<rparr>) v = v\<lparr>v_id := max (v_id v) i\<rparr>"
  "apply_view (no_entry\<lparr>e_Kind := kindDone, e_ID := i\<rparr>) v = v\<lparr>v_queue := remove_first i (v_queue v)\<rparr>"
  "apply_view (no_entry\<lparr>e_Kind := kindCleared\<rparr>) v = v\<lparr>v_queue := []\<rparr>"
  by (simp_all add: apply_view_def no_entry_def kinds)

lemma fold_singles:
  assumes "v_last w = []" "v_on w = []" "v_mode w = []" "v_borrowed w = \<lparr>b_Desk = [], b_Mode = []\<rparr>" "\<not> v_zen w"
    and "b_Desk (v_borrowed v) = [] \<longrightarrow> b_Mode (v_borrowed v) = []"
  shows "fold apply_view (singles v) w = w\<lparr>v_last := v_last v, v_on := v_on v, v_mode := v_mode v,
     v_borrowed := v_borrowed v, v_zen := v_zen v\<rparr>"
proof -
  have "fold apply_view (singles v) w = w
      \<lparr>v_last := (if v_last v \<noteq> [] then v_last v else v_last w), v_on := (if v_on v \<noteq> [] then v_on v else v_on w),
       v_mode := (if v_mode v \<noteq> [] then v_mode v else v_mode w),
       v_borrowed := (if b_Desk (v_borrowed v) \<noteq> [] then v_borrowed v else v_borrowed w),
       v_zen := (if v_zen v then True else v_zen w)\<rparr>"
    by (simp add: singles_def apply_singles)
  moreover have "b_Desk (v_borrowed v) = [] \<Longrightarrow> v_borrowed v = \<lparr>b_Desk = [], b_Mode = []\<rparr>"
    using assms(6) by (cases "v_borrowed v") simp
  ultimately show ?thesis using assms by auto
qed

lemma pairs_in: "(d, mon) \<in> set (concat (map (\<lambda>d. map (Pair d) (ks d)) ds)) \<longleftrightarrow> d \<in> set ds \<and> mon \<in> set (ks d)"
  by auto

definition places :: "journal \<Rightarrow> (string \<times> string) list" where
  "places j = concat (map (\<lambda>d. map (Pair d) (sortedKeys (aget [] (st_LastActive (j_state j)) d)))
     (sortedKeys (st_LastActive (j_state j))))"

definition place :: "journal \<Rightarrow> string \<Rightarrow> string \<Rightarrow> string" where
  "place j d mon = aget [] (aget [] (st_LastActive (j_state j)) d) mon"

lemma in_places: "(d, mon) \<in> set (places j) \<longleftrightarrow> v_active (view_of j) d mon \<noteq> None"
  by (auto simp: places_def pairs_in view_of_def aget_def simp del: set_concat split: option.splits)

lemma place_view: "v_active (view_of j) d mon = (if (d, mon) \<in> set (places j) then Some (place j d mon) else None)"
  using in_places [of d mon j] by (auto simp: view_of_def place_def aget_def [of _ _ mon])

lemma compact_parts:
  "compact_entries j = map (\<lambda>(d, mon). act d mon (place j d mon)) (places j) @ singles (view_of j)
     @ map queued_entry (v_queue (view_of j))
     @ (if v_id (view_of j) \<noteq> 0 then [no_entry\<lparr>e_Kind := kindLastID, e_ID := v_id (view_of j)\<rparr>] else [])"
  by (simp add: compact_entries_def Let_def compact_active singles_def places_def place_def view_of_def)

lemma compact_view:
  assumes ok: "view_ok (view_of j)"
  shows "fold apply_view (compact_entries j) start_view = view_of j"
proof -
  define v where "v = view_of j"
  have ne: "\<forall>(d, mon) \<in> set (places j). d \<noteq> [] \<and> mon \<noteq> []"
    using ok in_places [of _ _ j] unfolding view_ok_def by fastforce
  have sv: "start_view = \<lparr>v_active = (\<lambda>_ _. None), v_last = [], v_on = [], v_queue = [], v_mode = [],
      v_borrowed = \<lparr>b_Desk = [], b_Mode = []\<rparr>, v_zen = False, v_id = 0\<rparr>"
    by (simp add: start_view_def view_of_def fresh_def newState_def fun_eq_iff)
  have 1: "fold apply_view (map (\<lambda>(d, mon). act d mon (place j d mon)) (places j)) start_view = start_view\<lparr>v_active := v_active v\<rparr>"
    unfolding fold_act [OF ne] by (simp add: sv fun_eq_iff v_def place_view)
  have 2: "fold apply_view (singles v) (start_view\<lparr>v_active := v_active v\<rparr>) = v\<lparr>v_queue := [], v_id := 0\<rparr>"
    by (subst fold_singles) (use ok in \<open>simp_all add: sv view_ok_def v_def\<close>)
  obtain i where i: "i \<le> v_id v" "fold apply_view (map queued_entry (v_queue v)) (v\<lparr>v_queue := [], v_id := 0\<rparr>)
      = v\<lparr>v_id := i\<rparr>"
    using fold_queued [of "v_id v" "v_queue v" "v\<lparr>v_queue := [], v_id := 0\<rparr>"] ok
    by (auto simp: view_ok_def v_def)
  have "fold apply_view (if v_id v \<noteq> 0 then [no_entry\<lparr>e_Kind := kindLastID, e_ID := v_id v\<rparr>] else []) (v\<lparr>v_id := i\<rparr>) = v"
    using i(1) by (cases v) (auto simp: apply_singles max_def)
  then show ?thesis unfolding compact_parts v_def [symmetric] by (simp add: 1 2 i(2))
qed

lemma writable_parts:
  "writable_entry (act d mon s) \<longleftrightarrow> utf8 d \<and> utf8 mon \<and> utf8 s"
  "writable_entry (queued_entry it) \<longleftrightarrow> utf8 (it_Desk it) \<and> utf8 (it_Text it) \<and> utf8 (it_From it)"
  "writable_entry (no_entry\<lparr>e_Kind := kindLastID, e_ID := i\<rparr>)"
  "writable_entry (no_entry\<lparr>e_Kind := kindLastDesk, e_Desk := s\<rparr>) \<longleftrightarrow> utf8 s"
  "writable_entry (no_entry\<lparr>e_Kind := kindOnDesk, e_Desk := s\<rparr>) \<longleftrightarrow> utf8 s"
  "writable_entry (no_entry\<lparr>e_Kind := kindMode, e_Mode := s\<rparr>) \<longleftrightarrow> utf8 s"
  "writable_entry (no_entry\<lparr>e_Kind := kindBorrowed, e_Desk := s, e_Mode := t\<rparr>) \<longleftrightarrow> utf8 s \<and> utf8 t"
  "writable_entry (no_entry\<lparr>e_Kind := kindZen, e_Zen := b\<rparr>)"
  "writable_entry (no_entry\<lparr>e_Kind := kindDone, e_ID := i\<rparr>)"
  "writable_entry (no_entry\<lparr>e_Kind := kindCleared\<rparr>)"
  "writable_entry (no_entry\<lparr>e_Kind := kindRenamed, e_Desk := s, e_To := t\<rparr>) \<longleftrightarrow> utf8 s \<and> utf8 t"
  by (simp_all add: writable_iff act_def queued_entry_def no_entry_def)

lemma compact_writable:
  assumes ok: "view_ok (view_of j)" and e: "e \<in> set (compact_entries j)"
  shows "writable_entry e"
proof -
  have "utf8 d \<and> utf8 mon \<and> utf8 (place j d mon)" if "(d, mon) \<in> set (places j)" for d mon
  proof -
    have "v_active (view_of j) d mon = Some (place j d mon)" using that by (simp add: place_view)
    with ok show ?thesis unfolding view_ok_def by blast
  qed
  then have 1: "\<forall>e \<in> set (map (\<lambda>(d, mon). act d mon (place j d mon)) (places j)). writable_entry e"
    by (auto simp: writable_parts)
  have "list_all writable_entry (singles (view_of j))"
    using ok by (simp add: singles_def writable_parts view_ok_def)
  then have 2: "\<forall>e \<in> set (singles (view_of j)). writable_entry e" by (simp only: list_all_iff)
  have 3: "\<forall>e \<in> set (map queued_entry (v_queue (view_of j))). writable_entry e"
    using ok by (auto simp: writable_parts view_ok_def list_all_iff item_ok_def)
  from e 1 2 3 show ?thesis unfolding compact_parts by (auto simp: writable_parts split: if_splits)
qed

lemma line_entries_map [simp]: "line_entries (map (Entry \<circ> f) es) = map f es"
  by (induction es) simp_all

lemma compacted_recovers:
  assumes ok: "view_ok (view_of j)"
  shows "whole_file (compacted_file j) \<and> jlog.recovered (compacted_file j) = view_of j"
proof -
  have "map json_entry (compact_entries j) = compact_entries j"
    by (rule map_idI) (use compact_writable [OF ok] in \<open>simp add: writable_entry_def\<close>)
  then have "file_entries (compacted_file j) = compact_entries j"
    by (simp add: file_entries_def file_lines_def compacted_file_def comp_def flip: comp_def)
  then show ?thesis
    using compact_view [OF ok] by (auto simp: jlog.recovered_def whole_file_def compacted_file_def)
qed

section \<open>Runs of operations\<close>

datatype jop =
    JQueue item | JClaim | JClear | JDone "64 word" | JZen bool | JBorrowed borrowed
  | JActive name | JLastDesk string | JOnDesk string | JMode string | JRenamed rename | JReopen

definition ids_of :: "'a option \<Rightarrow> 'a list" where
  "ids_of r = (case r of None \<Rightarrow> [] | Some i \<Rightarrow> [i])"

fun jstep :: "outcome \<Rightarrow> jop \<Rightarrow> journal \<Rightarrow> 64 word list \<times> journal" where
  "jstep out (JQueue it) j = (case Queue out it j of (Inr it', j') \<Rightarrow> ([it_ID it'], j') | (Inl _, j') \<Rightarrow> ([], j'))"
| "jstep out JClaim j = (case ClaimID out j of (r, j') \<Rightarrow> (ids_of r, j'))"
| "jstep out JClear j = ([], snd (Clear out j))"
| "jstep out (JDone i) j = ([], snd (Done out i j))"
| "jstep out (JZen on) j = ([], snd (SetZen out on j))"
| "jstep out (JBorrowed b) j = ([], snd (SetBorrowed out b j))"
| "jstep out (JActive n) j = ([], snd (SetActive out n j))"
| "jstep out (JLastDesk d) j = ([], snd (SetLastDesk out d j))"
| "jstep out (JOnDesk d) j = ([], snd (SetOnDesk out d j))"
| "jstep out (JMode m) j = ([], snd (SetMode out m j))"
| "jstep out (JRenamed r) j = ([], snd (Renamed out r j))"
| "jstep out JReopen j = ([], (case Open Compacted (j_file j) of Some j' \<Rightarrow> j' | None \<Rightarrow> j))"

fun jrun :: "(outcome \<times> jop) list \<Rightarrow> journal \<Rightarrow> 64 word list \<times> journal" where
  "jrun [] j = ([], j)"
| "jrun ((out, op) # ops) j =
     (case jstep out op j of (ids, j) \<Rightarrow> case jrun ops j of (ids', j) \<Rightarrow> (ids @ ids', j))"

text \<open>What the callers of the journal hand it.\<close>

fun op_ok :: "jop \<Rightarrow> bool" where
  "op_ok (JQueue it) \<longleftrightarrow> it_Text it \<noteq> [] \<and> utf8 (it_Text it) \<and> utf8 (it_Desk it) \<and> utf8 (it_From it)"
| "op_ok (JBorrowed b) \<longleftrightarrow> utf8 (b_Desk b) \<and> utf8 (b_Mode b) \<and> (b_Desk b = [] \<longrightarrow> b_Mode b = [])"
| "op_ok (JActive n) \<longleftrightarrow> valid_name n"
| "op_ok (JLastDesk d) \<longleftrightarrow> utf8 d"
| "op_ok (JOnDesk d) \<longleftrightarrow> utf8 d"
| "op_ok (JMode m) \<longleftrightarrow> utf8 m"
| "op_ok (JRenamed r) \<longleftrightarrow> valid_name (From r) \<and> valid_name (To r)"
| "op_ok _ \<longleftrightarrow> True"

definition journal_inv :: "journal \<Rightarrow> bool" where
  "journal_inv j \<longleftrightarrow> durable j \<and> view_ok (view_of j)"

lemma dashed_ascii:
  "dashed P Q b s \<Longrightarrow> (\<And>c. P c \<or> Q c \<Longrightarrow> (of_char c :: nat) < 128) \<Longrightarrow> ascii s"
  by (induction P Q b s rule: dashed.induct) (auto simp: ascii_def split: if_splits)

lemma class_ascii: "lower_num c \<Longrightarrow> (of_char c :: nat) < 128" "alpha c \<Longrightarrow> (of_char c :: nat) < 128" "alnum c \<Longrightarrow> (of_char c :: nat) < 128"
  by (auto simp: lower_num_def lower_def upper_def is_digit_def alpha_def alnum_def less_eq_char_def)

lemma valid_name_ascii:
  assumes "valid_name n"
  shows "ascii (desk n)" "ascii (monitor n)" "ascii (slot n)"
proof -
  have "namePart s \<Longrightarrow> ascii s" "monitorPart s \<Longrightarrow> ascii s" for s
    unfolding namePart_def monitorPart_def using class_ascii by (blast intro: dashed_ascii)+
  then show "ascii (desk n)" "ascii (monitor n)" "ascii (slot n)"
    using assms by (auto simp: valid_name_def ValidDesk_def valid_slot_def)
qed

lemma ascii_append [simp]: "ascii (s @ t) \<longleftrightarrow> ascii s \<and> ascii t"
  by (simp add: ascii_def)

lemma valid_name_utf8:
  assumes "valid_name n"
  shows "utf8 (desk n)" "utf8 (monitor n)" "utf8 (slot n)" "utf8 (String n)" "desk n \<noteq> []" "monitor n \<noteq> []"
  using valid_name_ascii [OF assms] assms
  by (auto simp: String_def ascii_def utf8_ascii valid_name_def ValidDesk_def)

lemma set_remove_first: "set (remove_first i q) \<subseteq> set q"
  by (induction q) auto

lemma remove_first_filter: "distinct (map it_ID q) \<Longrightarrow> remove_first i q = filter (\<lambda>it. it_ID it \<noteq> i) q"
proof (induction q)
  case (Cons x q)
  show ?case
  proof (cases "it_ID x = i")
    case True
    then have "i \<notin> it_ID ` set q" using Cons.prems by simp
    then have "\<forall>y \<in> set q. it_ID y \<noteq> i" by (metis imageI)
    then have "filter (\<lambda>it. it_ID it \<noteq> i) q = q" by (simp add: filter_id_conv)
    with True show ?thesis by simp
  qed (use Cons in simp)
qed simp

lemma distinct_remove_first: "distinct (map it_ID q) \<Longrightarrow> distinct (map it_ID (remove_first i q))"
  by (simp add: remove_first_filter distinct_map_filter_inj)

lemma item_ok_mono: "item_ok m it \<Longrightarrow> m \<le> m' \<Longrightarrow> item_ok m' it"
  by (auto simp: item_ok_def)

text \<open>Each kind of entry the operations write keeps what \<open>view_ok\<close> says.\<close>

lemma view_ok_apply:
  assumes "view_ok v"
  shows "utf8 s \<Longrightarrow> view_ok (v\<lparr>v_last := s\<rparr>)" "utf8 s \<Longrightarrow> view_ok (v\<lparr>v_on := s\<rparr>)" "utf8 s \<Longrightarrow> view_ok (v\<lparr>v_mode := s\<rparr>)"
    "utf8 (b_Desk b) \<Longrightarrow> utf8 (b_Mode b) \<Longrightarrow> (b_Desk b = [] \<longrightarrow> b_Mode b = []) \<Longrightarrow> view_ok (v\<lparr>v_borrowed := b\<rparr>)"
    "view_ok (v\<lparr>v_zen := z\<rparr>)" "view_ok (v\<lparr>v_queue := []\<rparr>)" "view_ok (v\<lparr>v_queue := remove_first i (v_queue v)\<rparr>)"
    "v_id v \<le> i \<Longrightarrow> view_ok (v\<lparr>v_id := i\<rparr>)"
    "item_ok i it \<Longrightarrow> v_id v < it_ID it \<Longrightarrow> it_ID it \<le> i \<Longrightarrow> view_ok (v\<lparr>v_queue := v_queue v @ [it], v_id := i\<rparr>)"
    "d \<noteq> [] \<Longrightarrow> mon \<noteq> [] \<Longrightarrow> utf8 d \<Longrightarrow> utf8 mon \<Longrightarrow> utf8 s \<Longrightarrow>
     view_ok (v\<lparr>v_active := (v_active v)(d := (v_active v d)(mon \<mapsto> s))\<rparr>)"
proof -
  note a = assms [unfolded view_ok_def]
  show "utf8 s \<Longrightarrow> view_ok (v\<lparr>v_last := s\<rparr>)" "utf8 s \<Longrightarrow> view_ok (v\<lparr>v_on := s\<rparr>)" "utf8 s \<Longrightarrow> view_ok (v\<lparr>v_mode := s\<rparr>)"
    "utf8 (b_Desk b) \<Longrightarrow> utf8 (b_Mode b) \<Longrightarrow> (b_Desk b = [] \<longrightarrow> b_Mode b = []) \<Longrightarrow> view_ok (v\<lparr>v_borrowed := b\<rparr>)"
    "view_ok (v\<lparr>v_zen := z\<rparr>)" "view_ok (v\<lparr>v_queue := []\<rparr>)"
    using a by (simp_all add: view_ok_def)
  show "view_ok (v\<lparr>v_queue := remove_first i (v_queue v)\<rparr>)"
    using a set_remove_first [of i "v_queue v"] distinct_remove_first [of "v_queue v" i]
    by (auto simp: view_ok_def list_all_iff)
  show "v_id v \<le> i \<Longrightarrow> view_ok (v\<lparr>v_id := i\<rparr>)"
    using a item_ok_mono by (auto simp: view_ok_def list_all_iff)
  show "view_ok (v\<lparr>v_queue := v_queue v @ [it], v_id := i\<rparr>)"
    if "item_ok i it" "v_id v < it_ID it" "it_ID it \<le> i"
  proof -
    have "it_ID it \<notin> it_ID ` set (v_queue v)"
      using a that(2) by (auto simp: list_all_iff item_ok_def)
    moreover have "\<forall>x \<in> set (v_queue v). item_ok i x"
      using a that item_ok_mono by (metis list_all_iff order_less_imp_le order_trans)
    ultimately show ?thesis using a that(1) by (simp add: view_ok_def list_all_iff)
  qed
  show "d \<noteq> [] \<Longrightarrow> mon \<noteq> [] \<Longrightarrow> utf8 d \<Longrightarrow> utf8 mon \<Longrightarrow> utf8 s \<Longrightarrow>
     view_ok (v\<lparr>v_active := (v_active v)(d := (v_active v d)(mon \<mapsto> s))\<rparr>)"
    using a by (auto simp: view_ok_def)
qed

lemma view_ok_rename:
  assumes "view_ok v" "valid_name f" "valid_name t" "e_Desk e = String f" "e_To e = String t"
  shows "view_ok (rename_view e v)"
  using assms(1) valid_name_utf8 [OF assms(3)] ParseName_String [OF assms(2)] ParseName_String [OF assms(3)] assms(4,5)
  by (auto simp: rename_view_def view_ok_def)

text \<open>The entry an operation writes, when it writes one.\<close>

lemma recordLocked_ok:
  assumes "recordLocked out e j = (ok, j')" "durable j" "writable_entry e" "out = Written \<or> out = NothingWritten"
  shows "durable j' \<and> (if ok then view_of j' = apply_view e (view_of j) else j' = j)"
  using record_durable [OF assms(2,3,1,4)] assms(1,4) record_view [of e j j'] by (auto simp: recordLocked_def)

lemma record_inv:
  assumes "journal_inv j" "writable_entry e" "view_ok (apply_view e (view_of j))"
    "v_id (apply_view e (view_of j)) = j_lastID j" "out = Written \<or> out = NothingWritten"
  shows "journal_inv (snd (recordLocked out e j)) \<and> j_lastID (snd (recordLocked out e j)) = j_lastID j"
proof -
  obtain ok j' where r: "recordLocked out e j = (ok, j')" by fastforce
  have "durable j' \<and> (if ok then view_of j' = apply_view e (view_of j) else j' = j)"
    using recordLocked_ok [OF r _ assms(2,5)] assms(1) by (simp add: journal_inv_def)
  moreover have "v_id (view_of j') = j_lastID j'" by (simp add: view_of_def)
  ultimately show ?thesis using assms(1,3,4) by (cases ok) (auto simp: journal_inv_def r)
qed

lemma word_succ: "(x :: 64 word) \<noteq> - 1 \<Longrightarrow> x < x + 1"
proof -
  assume "x \<noteq> - 1"
  then have "1 + x \<noteq> 0" using eq_neg_iff_add_eq_0 [of x 1] by (simp add: add.commute)
  then show ?thesis using unatSuc [of x] by (simp add: word_less_nat_alt add.commute)
qed

lemma view_id: "v_id (view_of j) = j_lastID j"
  by (simp add: view_of_def)

lemma Queue_ok:
  assumes inv: "journal_inv j" and it: "op_ok (JQueue it)" and out: "out = Written \<or> out = NothingWritten"
    and w: "j_lastID j \<noteq> - 1" and q: "Queue out it j = (r, j')"
  shows "journal_inv j' \<and>
    (case r of Inl _ \<Rightarrow> view_of j' = view_of j
     | Inr it' \<Rightarrow> it' = it\<lparr>it_ID := j_lastID j + 1\<rparr> \<and> j_lastID j' = j_lastID j + 1
         \<and> view_of j' = (view_of j)\<lparr>v_queue := v_queue (view_of j) @ [it'], v_id := j_lastID j + 1\<rparr>)"
proof (cases "roomFor (st_Queue (j_state j)) (it_From it)")
  case (Some e)
  then show ?thesis using q inv by (auto simp: Queue_def)
next
  case None
  define it' where "it' = it\<lparr>it_ID := j_lastID j + 1\<rparr>"
  have lt: "j_lastID j < j_lastID j + 1" using w by (rule word_succ)
  then have nz: "j_lastID j + 1 \<noteq> 0" by (metis word_not_simps(1))
  obtain ok j1 where rec: "recordLocked out (queued_entry it') j = (ok, j1)" by fastforce
  have wr: "writable_entry (queued_entry it')" using it by (simp add: writable_parts it'_def)
  have r: "durable j1 \<and> (if ok then view_of j1 = apply_view (queued_entry it') (view_of j) else j1 = j)"
    using recordLocked_ok [OF rec _ wr out] inv by (simp add: journal_inv_def)
  show ?thesis
  proof (cases ok)
    case False
    then show ?thesis using q None rec r inv by (auto simp: Queue_def it'_def [symmetric])
  next
    case True
    have v: "view_of j1 = (view_of j)\<lparr>v_queue := v_queue (view_of j) @ [it'], v_id := j_lastID j + 1\<rparr>"
      using r True apply_queued [of it' "view_of j"] it nz lt by (simp add: it'_def view_leaves max_def)
    have "item_ok (j_lastID j + 1) it'" using it nz by (simp add: item_ok_def it'_def)
    then have "view_ok (view_of j1)"
      unfolding v using inv lt by (intro view_ok_apply(9)) (simp_all add: journal_inv_def it'_def view_leaves)
    moreover have "v_id (view_of j1) = j_lastID j + 1" unfolding v by simp
    then have "j_lastID j1 = j_lastID j + 1" by (simp only: view_id)
    ultimately show ?thesis using q None rec r True v by (auto simp: Queue_def it'_def [symmetric] journal_inv_def)
  qed
qed

lemma ClaimID_ok:
  assumes inv: "journal_inv j" and out: "out = Written \<or> out = NothingWritten"
    and w: "j_lastID j \<noteq> - 1" and q: "ClaimID out j = (r, j')"
  shows "journal_inv j' \<and>
    (case r of None \<Rightarrow> view_of j' = view_of j
     | Some i \<Rightarrow> i = j_lastID j + 1 \<and> j_lastID j' = i \<and> view_of j' = (view_of j)\<lparr>v_id := i\<rparr>)"
proof -
  have lt: "j_lastID j < j_lastID j + 1" using w by (rule word_succ)
  let ?e = "no_entry\<lparr>e_Kind := kindLastID, e_ID := j_lastID j + 1\<rparr>"
  obtain ok j1 where rec: "recordLocked out ?e j = (ok, j1)" by fastforce
  have r: "durable j1 \<and> (if ok then view_of j1 = apply_view ?e (view_of j) else j1 = j)"
    using recordLocked_ok [OF rec _ _ out] inv by (simp add: journal_inv_def writable_parts)
  have v: "apply_view ?e (view_of j) = (view_of j)\<lparr>v_id := j_lastID j + 1\<rparr>"
    using lt by (simp add: apply_singles view_id max_def)
  have "view_ok ((view_of j)\<lparr>v_id := j_lastID j + 1\<rparr>)"
    using inv lt by (intro view_ok_apply(8)) (simp_all add: journal_inv_def view_id)
  moreover have "j_lastID j1 = j_lastID j + 1" if ok
  proof -
    have "v_id (view_of j1) = j_lastID j + 1" using r that v by simp
    then show ?thesis by (simp only: view_id)
  qed
  ultimately show ?thesis using q rec r v inv by (cases ok) (auto simp: ClaimID_def journal_inv_def)
qed

lemma Open_ok:
  assumes "journal_inv j"
  shows "\<exists>j'. Open Compacted (j_file j) = Some j' \<and> view_of j' = view_of j \<and> journal_inv j'"
proof -
  have w: "whole_file (j_file j)" and rec: "jlog.recovered (j_file j) = view_of j" and ok: "view_ok (view_of j)"
    using assms by (simp_all add: journal_inv_def durable_def)
  from replay_whole [OF w] obtain k where k: "replay (j_file j) = Some k" "view_of k = view_of j" "j_file k = j_file j"
    using rec by auto
  show ?thesis
  proof (cases "compactAt < j_entries k \<or> 0 < j_bodies k")
    case False
    with k w rec ok show ?thesis by (simp add: Open_def journal_inv_def durable_def)
  next
    case True
    let ?k = "k\<lparr>j_file := compacted_file k, j_entries := length (compact_entries k), j_bodies := 0\<rparr>"
    have "view_of ?k = view_of j" using k(2) by (simp add: view_of_def)
    moreover have "whole_file (compacted_file k) \<and> jlog.recovered (compacted_file k) = view_of k"
      using ok k(2) by (intro compacted_recovers) simp
    ultimately have "view_of ?k = view_of j" "journal_inv ?k"
      using ok k(2) by (simp_all add: journal_inv_def durable_def)
    moreover have "Open Compacted (j_file j) = Some ?k" using k(1) True by (simp add: Open_def compactLocked_def)
    ultimately show ?thesis by blast
  qed
qed

text \<open>The operations that hand out no id write one entry, leave the counter alone and keep the invariant.\<close>

fun entry_of :: "jop \<Rightarrow> entry option" where
  "entry_of (JDone i) = Some (no_entry\<lparr>e_Kind := kindDone, e_ID := i\<rparr>)"
| "entry_of (JZen on) = Some (no_entry\<lparr>e_Kind := kindZen, e_Zen := on\<rparr>)"
| "entry_of (JBorrowed b) = Some (no_entry\<lparr>e_Kind := kindBorrowed, e_Desk := b_Desk b, e_Mode := b_Mode b\<rparr>)"
| "entry_of (JActive n) = Some (act (desk n) (monitor n) (slot n))"
| "entry_of (JLastDesk d) = Some (no_entry\<lparr>e_Kind := kindLastDesk, e_Desk := d\<rparr>)"
| "entry_of (JOnDesk d) = Some (no_entry\<lparr>e_Kind := kindOnDesk, e_Desk := d\<rparr>)"
| "entry_of (JMode m) = Some (no_entry\<lparr>e_Kind := kindMode, e_Mode := m\<rparr>)"
| "entry_of (JRenamed r) = Some (no_entry\<lparr>e_Kind := kindRenamed, e_Desk := String (From r), e_To := String (To r)\<rparr>)"
| "entry_of _ = None"

lemma jstep_entry: "entry_of op = Some e \<Longrightarrow> jstep out op j = ([], snd (recordLocked out e j))"
  by (cases op) (auto simp: Done_def SetZen_def SetBorrowed_def SetActive_def SetLastDesk_def SetOnDesk_def
      SetMode_def Renamed_def act_def)

lemma entry_ok:
  assumes "op_ok op" "entry_of op = Some e" "view_ok v"
  shows "writable_entry e \<and> view_ok (apply_view e v) \<and> v_id (apply_view e v) = v_id v"
proof (cases op)
  case (JActive n)
  then have "e = act (desk n) (monitor n) (slot n)" "valid_name n" using assms by auto
  then show ?thesis
    using valid_name_utf8 [of n] view_ok_apply(10) [OF assms(3)] by (simp add: writable_parts apply_act)
next
  case (JRenamed r)
  then have e: "e = no_entry\<lparr>e_Kind := kindRenamed, e_Desk := String (From r), e_To := String (To r)\<rparr>"
    and r: "valid_name (From r)" "valid_name (To r)" using assms by auto
  have a: "apply_view e v = rename_view e v" by (simp add: e apply_view_def no_entry_def kinds)
  have "view_ok (rename_view e v)" by (rule view_ok_rename [OF assms(3) r]) (simp_all add: e)
  moreover have "v_id (rename_view e v) = v_id v" by (simp add: rename_view_def split: sum.split)
  ultimately show ?thesis
    unfolding a using valid_name_utf8(4) [OF r(1)] valid_name_utf8(4) [OF r(2)] by (simp add: e writable_parts)
qed (use assms in \<open>auto simp: writable_parts apply_singles view_ok_apply\<close>)

lemma plain_ops_ok:
  assumes inv: "journal_inv j" and ok: "op_ok op" and out: "out = Written \<or> out = NothingWritten"
    and plain: "\<forall>it. op \<noteq> JQueue it" "op \<noteq> JClaim"
  shows "fst (jstep out op j) = [] \<and> journal_inv (snd (jstep out op j)) \<and> j_lastID (snd (jstep out op j)) = j_lastID j"
proof (cases "entry_of op")
  case (Some e)
  have "view_ok (view_of j)" using inv by (simp add: journal_inv_def)
  from entry_ok [OF ok Some this] record_inv [OF inv _ _ _ out] show ?thesis
    by (simp add: jstep_entry [OF Some] view_id)
next
  case None
  with plain consider "op = JClear" | "op = JReopen" by (cases op) auto
  then show ?thesis
  proof cases
    case 1
    have "view_ok (view_of j)" using inv by (simp add: journal_inv_def)
    then have "journal_inv (snd (recordLocked out (no_entry\<lparr>e_Kind := kindCleared\<rparr>) j))
      \<and> j_lastID (snd (recordLocked out (no_entry\<lparr>e_Kind := kindCleared\<rparr>) j)) = j_lastID j"
      by (intro record_inv [OF inv _ _ _ out]) (simp_all add: writable_parts apply_singles view_ok_apply view_id)
    then show ?thesis using 1 inv by (auto simp: Clear_def Let_def split: prod.split bool.split)
  next
    case 2
    from Open_ok [OF inv] obtain k where k: "Open Compacted (j_file j) = Some k" "view_of k = view_of j" "journal_inv k"
      by blast
    then have "j_lastID k = j_lastID j" using view_id by metis
    with k 2 show ?thesis by simp
  qed
qed

text \<open>One step: at most one id, above every id before it.\<close>

lemma jstep_ok:
  assumes inv: "journal_inv j" and ok: "op_ok op" and out: "out = Written \<or> out = NothingWritten"
    and w: "j_lastID j \<noteq> - 1" and s: "jstep out op j = (ids, j')"
  shows "journal_inv j' \<and> (ids = [] \<and> j_lastID j' = j_lastID j \<or> ids = [j_lastID j + 1] \<and> j_lastID j' = j_lastID j + 1)"
proof -
  consider it where "op = JQueue it" | "op = JClaim" | "\<forall>it. op \<noteq> JQueue it" "op \<noteq> JClaim" by blast
  then show ?thesis
  proof cases
    case (1 it)
    obtain r k where q: "Queue out it j = (r, k)" by fastforce
    show ?thesis
    proof (cases r)
      case (Inl e)
      then have "view_of k = view_of j" "journal_inv k" using Queue_ok [OF inv ok [unfolded 1] out w q] by simp_all
      with view_id [of k] view_id [of j] show ?thesis using s q 1 Inl by simp
    next
      case (Inr it')
      then show ?thesis using Queue_ok [OF inv ok [unfolded 1] out w q] s q 1 by simp
    qed
  next
    case 2
    obtain r k where q: "ClaimID out j = (r, k)" by fastforce
    show ?thesis
    proof (cases r)
      case None
      then have "view_of k = view_of j" "journal_inv k" using ClaimID_ok [OF inv out w q] by simp_all
      with view_id [of k] view_id [of j] show ?thesis using s q 2 None by (simp add: ids_of_def)
    next
      case (Some i)
      then show ?thesis using ClaimID_ok [OF inv out w q] s q 2 by (simp add: ids_of_def)
    qed
  next
    case 3
    then show ?thesis using plain_ops_ok [OF inv ok out 3] s by simp
  qed
qed

lemma jrun_ok:
  assumes "journal_inv j" "\<forall>(out, op) \<in> set ops. op_ok op \<and> (out = Written \<or> out = NothingWritten)"
    "unat (j_lastID j) + length ops < 2 ^ 64" "jrun ops j = (ids, j')"
  shows "journal_inv j' \<and> sorted_wrt (<) (j_lastID j # ids) \<and> j_lastID j \<le> j_lastID j' \<and> (\<forall>i \<in> set ids. i \<le> j_lastID j')"
  using assms
proof (induction ops arbitrary: j ids j')
  case (Cons p ops)
  obtain out op where p: "p = (out, op)" by fastforce
  obtain is1 j1 where s1: "jstep out op j = (is1, j1)" by fastforce
  obtain is2 j2 where s2: "jrun ops j1 = (is2, j2)" by fastforce
  have w: "j_lastID j \<noteq> - 1"
  proof
    assume "j_lastID j = - 1"
    then have "unat (j_lastID j) = 2 ^ 64 - 1" by (simp add: unsigned_minus_1_eq_mask mask_eq_exp_minus_1)
    with Cons.prems(3) show False by simp
  qed
  have st: "journal_inv j1 \<and> (is1 = [] \<and> j_lastID j1 = j_lastID j \<or> is1 = [j_lastID j + 1] \<and> j_lastID j1 = j_lastID j + 1)"
    using jstep_ok [OF Cons.prems(1) _ _ w s1] Cons.prems(2) p by auto
  have lt: "j_lastID j < j_lastID j + 1" using w by (rule word_succ)
  then have "unat (j_lastID j + 1) = Suc (unat (j_lastID j))"
    using unatSuc [of "j_lastID j"] by (metis add.commute word_not_simps(1))
  then have "unat (j_lastID j1) + length ops < 2 ^ 64" using st Cons.prems(3) by auto
  moreover have "\<forall>(out, op) \<in> set ops. op_ok op \<and> (out = Written \<or> out = NothingWritten)" using Cons.prems(2) by simp
  ultimately have IH: "journal_inv j2 \<and> sorted_wrt (<) (j_lastID j1 # is2) \<and> j_lastID j1 \<le> j_lastID j2
      \<and> (\<forall>i \<in> set is2. i \<le> j_lastID j2)"
    using Cons.IH [OF conjunct1 [OF st] _ _ s2] by blast
  have "ids = is1 @ is2" "j' = j2" using Cons.prems(4) s1 s2 p by simp_all
  with IH st lt show ?case by (elim conjE disjE) (simp_all, (meson order_trans order_less_imp_le order_less_trans)+)
qed simp

section \<open>The shares of the queue\<close>

definition held :: "item list \<Rightarrow> nat" where
  "held q = length (filter (\<lambda>it. \<not> ours (it_From it)) q)"

definition from_sender :: "string \<Rightarrow> item list \<Rightarrow> nat" where
  "from_sender s q = length (filter (\<lambda>it. it_From it = s) q)"

definition shares_ok :: "item list \<Rightarrow> bool" where
  "shares_ok q \<longleftrightarrow> length q \<le> QueueMax \<and> held q \<le> QueueMax - Reserved
     \<and> (\<forall>s. \<not> ours s \<longrightarrow> from_sender s q \<le> PerSenderMax)"

lemma shares_ok_Nil [simp]: "shares_ok []"
  by (simp add: shares_ok_def held_def from_sender_def)

lemma length_remove_first:
  "length (remove_first i q) \<le> length q" "length (filter P (remove_first i q)) \<le> length (filter P q)"
  by (induction q) (auto simp: le_SucI)

lemma shares_ok_remove: "shares_ok q \<Longrightarrow> shares_ok (remove_first i q)"
  unfolding shares_ok_def held_def from_sender_def
  using length_remove_first(1) [of i q] length_remove_first(2) [of _ i q] by (meson order_trans)

lemma shares_ok_snoc:
  assumes "shares_ok q" "roomFor q (it_From it) = None"
  shows "shares_ok (q @ [it])"
proof -
  have "filter (\<lambda>x. \<not> ours (it_From x) \<and> it_From x = it_From it) q = (if ours (it_From it) then [] else filter (\<lambda>x. it_From x = it_From it) q)"
    by (auto simp: filter_empty_conv intro: filter_cong)
  with assms show ?thesis
    by (auto simp: shares_ok_def roomFor_def held_def from_sender_def Let_def split: if_splits)
qed

lemma apply_renamed:
  "v_queue (apply_view (no_entry\<lparr>e_Kind := kindRenamed, e_Desk := s, e_To := t\<rparr>) v) = v_queue v"
proof -
  have "apply_view (no_entry\<lparr>e_Kind := kindRenamed, e_Desk := s, e_To := t\<rparr>) v
      = rename_view (no_entry\<lparr>e_Kind := kindRenamed, e_Desk := s, e_To := t\<rparr>) v"
    by (simp add: apply_view_def no_entry_def kinds)
  then show ?thesis by (simp add: rename_view_def split: sum.split)
qed

lemma unat_succ_le: "unat ((x :: 64 word) + 1) \<le> Suc (unat x)"
proof (cases "x = - 1")
  case False
  then have "1 + x \<noteq> 0" using eq_neg_iff_add_eq_0 [of x 1] by (simp add: add.commute)
  then show ?thesis using unatSuc [of x] by (simp add: add.commute)
qed simp

lemma jstep_shares:
  assumes inv: "journal_inv j" and ok: "op_ok op" and out: "out = Written \<or> out = NothingWritten"
    and w: "j_lastID j \<noteq> - 1" and sh: "shares_ok (v_queue (view_of j))"
  shows "shares_ok (v_queue (view_of (snd (jstep out op j))))"
proof (cases "entry_of op")
  case (Some e)
  obtain b j' where r: "recordLocked out e j = (b, j')" by fastforce
  have "view_ok (view_of j)" "durable j" using inv by (simp_all add: journal_inv_def)
  then have "writable_entry e" using entry_ok [OF ok Some] by blast
  from recordLocked_ok [OF r \<open>durable j\<close> this out] have "view_of j' = apply_view e (view_of j) \<or> j' = j" by (cases b) auto
  moreover have "shares_ok (v_queue (apply_view e (view_of j)))"
    using Some sh ok by (cases op) (auto simp: apply_singles shares_ok_remove apply_act valid_name_utf8 apply_renamed)
  ultimately show ?thesis using sh by (auto simp: jstep_entry [OF Some] r)
next
  case None
  then consider it where "op = JQueue it" | "op = JClaim" | "op = JClear" | "op = JReopen" by (cases op) auto
  then show ?thesis
  proof cases
    case (1 it)
    obtain r k where q: "Queue out it j = (r, k)" by fastforce
    note Q = Queue_ok [OF inv ok [unfolded 1] out w q]
    show ?thesis
    proof (cases r)
      case (Inl e)
      then show ?thesis using Q q sh 1 by simp
    next
      case (Inr it')
      then have "roomFor (v_queue (view_of j)) (it_From it) = None"
        using q by (auto simp: Queue_def view_of_def split: option.splits)
      then have "shares_ok (v_queue (view_of j) @ [it'])" using Q Inr sh shares_ok_snoc [of _ it'] by simp
      then show ?thesis using Q q Inr 1 by simp
    qed
  next
    case 2
    obtain r k where q: "ClaimID out j = (r, k)" by fastforce
    show ?thesis using ClaimID_ok [OF inv out w q] q sh 2 by (cases r) (simp_all add: ids_of_def)
  next
    case 3
    have "view_of (snd (recordLocked out (no_entry\<lparr>e_Kind := kindCleared\<rparr>) j)) = (view_of j)\<lparr>v_queue := []\<rparr>
      \<or> snd (recordLocked out (no_entry\<lparr>e_Kind := kindCleared\<rparr>) j) = j"
      using out by (auto simp: recordLocked_def view_apply apply_singles)
    then show ?thesis using 3 sh by (auto simp: Clear_def Let_def split: prod.split bool.split)
  next
    case 4
    from Open_ok [OF inv] obtain k where "Open Compacted (j_file j) = Some k" "view_of k = view_of j" by blast
    then show ?thesis using 4 sh by simp
  qed
qed

lemma jrun_shares:
  assumes "journal_inv j" "\<forall>(out, op) \<in> set ops. op_ok op \<and> (out = Written \<or> out = NothingWritten)"
    "unat (j_lastID j) + length ops < 2 ^ 64" "shares_ok (v_queue (view_of j))"
  shows "shares_ok (v_queue (view_of (snd (jrun ops j))))"
  using assms
proof (induction ops arbitrary: j)
  case (Cons p ops)
  obtain out op where p: "p = (out, op)" by fastforce
  obtain is1 j1 where s1: "jstep out op j = (is1, j1)" by fastforce
  have w: "j_lastID j \<noteq> - 1"
    using Cons.prems(3) by (auto simp: unsigned_minus_1_eq_mask mask_eq_exp_minus_1)
  have ok: "op_ok op" "out = Written \<or> out = NothingWritten" using Cons.prems(2) p by auto
  have st: "journal_inv j1 \<and> (is1 = [] \<and> j_lastID j1 = j_lastID j \<or> is1 = [j_lastID j + 1] \<and> j_lastID j1 = j_lastID j + 1)"
    by (rule jstep_ok [OF Cons.prems(1) ok w s1])
  have "unat (j_lastID j1) \<le> Suc (unat (j_lastID j))"
    using st unat_succ_le [of "j_lastID j"] by auto
  then have "unat (j_lastID j1) + length ops < 2 ^ 64" using Cons.prems(3) by simp
  moreover have "shares_ok (v_queue (view_of j1))"
    using jstep_shares [OF Cons.prems(1) ok w Cons.prems(4)] s1 by simp
  ultimately have "shares_ok (v_queue (view_of (snd (jrun ops j1))))"
    using Cons.IH [of j1] st Cons.prems(2) by simp
  then show ?case by (auto simp: p s1 split: prod.split)
qed simp

section \<open>What the journal promises\<close>

definition empty_file :: jfile where "empty_file = \<lparr>f_lines = [], f_tail = None\<rparr>"

lemma fresh_inv: "journal_inv (fresh empty_file)" "j_lastID (fresh empty_file) = 0" "v_queue (view_of (fresh empty_file)) = []"
proof -
  have "view_of (fresh empty_file) = start_view" by (simp add: start_view_def view_of_def fresh_def)
  moreover have "jlog.recovered empty_file = start_view"
    by (simp add: jlog.recovered_def file_entries_def file_lines_def empty_file_def)
  moreover have "j_file (fresh empty_file) = empty_file" by (simp add: fresh_def)
  moreover have "whole_file empty_file" by (simp add: whole_file_def empty_file_def)
  moreover have "view_ok start_view" by (simp add: view_ok_def start_view_def view_of_def fresh_def newState_def)
  ultimately show "journal_inv (fresh empty_file)" by (simp add: journal_inv_def durable_def)
  show "j_lastID (fresh empty_file) = 0" "v_queue (view_of (fresh empty_file)) = []"
    by (simp_all add: view_of_def fresh_def newState_def)
qed

text \<open>An entry does to the journal's nested maps and counters what the abstract \<open>apply_view\<close>
  does to what the journal remembers, for every kind of entry and also for those a replay
  skips; the file and the counters of lines are untouched.\<close>

theorem apply_refines:
  "view_of (apply_entry e j) = apply_view e (view_of j) \<and> j_file (apply_entry e j) = j_file j"
  by (simp add: view_apply)


lemmas run_simps = Queue_def ClaimID_def recordLocked_def apply_entry_def kinds no_entry_def fresh_def empty_file_def
  newState_def queued_entry_def roomFor_def QueueMax_def ours_def ids_of_def set_state_def Waiting_def Let_def






text \<open>What a torn write costs is not only its own line: with an unterminated line at the end of
  the file, the next entry is written onto it, so the journal that wrote it remembers it and a
  restart does not.\<close>

theorem torn_tail_takes_the_next_entry:
  assumes "f_tail (j_file j) = Some Torn" "Overlong \<notin> set (f_lines (j_file j))"
    and "recordLocked Written e j = (ok, j')"
  shows "ok \<and> view_of j' = apply_view e (view_of j)
    \<and> (\<exists>k k'. replay (j_file j) = Some k \<and> replay (j_file j') = Some k' \<and> view_of k' = view_of k)"
proof -
  have j': "ok" "j_file j' = \<lparr>f_lines = f_lines (j_file j) @ [Torn], f_tail = None\<rparr>" "view_of j' = apply_view e (view_of j)"
    using assms(1,3) by (auto simp: recordLocked_def append_line_def view_apply)
  have "file_lines (j_file j') = file_lines (j_file j)" by (simp add: file_lines_def j'(2) assms(1))
  moreover have "Overlong \<notin> set (file_lines (j_file j))" using assms(1,2) by (simp add: file_lines_def)
  then obtain k where k: "replay_lines (file_lines (j_file j)) (fresh (j_file j)) = Some k" using replay_lines_total by blast
  moreover obtain k' where k': "replay_lines (file_lines (j_file j)) (fresh (j_file j')) = Some k'"
    using replay_lines_total \<open>Overlong \<notin> set (file_lines (j_file j))\<close> by blast
  moreover have "view_of (fresh (j_file j)) = view_of (fresh (j_file j'))" by (simp add: view_of_def fresh_def)
  ultimately have "replay (j_file j) = Some k \<and> replay (j_file j') = Some k' \<and> view_of k' = view_of k"
    using replay_lines_view [OF k] replay_lines_view [OF k'] by (simp add: replay_def)
  with j' show ?thesis by blast
qed

lemma torn_tail_takes_the_next_entry_witness:
  "let j = fresh \<lparr>f_lines = [], f_tail = Some Torn\<rparr>;
       j' = snd (SetOnDesk Written ''work'' j)
   in st_OnDesk (State j') = ''work'' \<and> (\<exists>k k'. replay (j_file j) = Some k \<and> replay (j_file j') = Some k' \<and> view_of k' = view_of k)"
proof -
  let ?j = "fresh \<lparr>f_lines = [], f_tail = Some Torn\<rparr>"
  have "\<exists>k k'. replay (j_file ?j) = Some k \<and> replay (j_file (snd (SetOnDesk Written ''work'' ?j))) = Some k' \<and> view_of k' = view_of k"
    unfolding SetOnDesk_def
    by (rule torn_tail_takes_the_next_entry [THEN conjunct2, THEN conjunct2, OF _ _ surjective_pairing])
      (simp_all add: fresh_def)
  moreover have "st_OnDesk (State (snd (SetOnDesk Written ''work'' ?j))) = ''work''"
    by (simp add: run_simps SetOnDesk_def State_def)
  ultimately show ?thesis by (simp add: Let_def)
qed

text \<open>
  A line that was written but could not be synced is in the file all the same. Its operation
  answers that nothing was written and its id is given out again, so the next start finds two
  items waiting under one id, the refused one among them.
\<close>

lemma unsynced_line_repeats_an_id:
  "let it = \<lparr>it_ID = 0, it_Text = ''a'', it_Desk = [], it_From = [], it_Self = False, it_Urgent = False\<rparr>;
       (r1, j1) = Queue Unsynced it (fresh empty_file);
       (r2, j2) = Queue Written (it\<lparr>it_Text := ''b''\<rparr>) j1
   in r1 = Inl WriteFailed \<and> r2 = Inr (it\<lparr>it_ID := 1, it_Text := ''b''\<rparr>)
    \<and> map (\<lambda>i. (it_ID i, it_Text i)) (Waiting j2) = [(1, ''b'')]
    \<and> (\<exists>k. replay (j_file j2) = Some k \<and> map (\<lambda>i. (it_ID i, it_Text i)) (Waiting k) = [(1, ''a''), (1, ''b'')])"
proof -
  have q: "json_string ''queued'' = ''queued''" "json_string ''a'' = ''a''" "json_string ''b'' = ''b''" "json_string [] = []"
    using utf8_ascii [unfolded utf8_def] by (simp_all add: ascii_def)
  then show ?thesis by (simp add: run_simps append_line_def replay_def file_lines_def json_entry_def)
qed

end
