(* ===== verification/Attn_History.thy ===== *)
theory Attn_History
  imports Attn_Text "HOL-Library.AList" "HOL-Library.Multiset" "HOL-Library.Sublist" "HOL-Library.Word"
begin

text \<open>
  The notification history (\<open>internal/attn/history.go\<close>): a ring of arrivals per sender, a bound
  on the number of senders, and the one list, newest first, that reading makes of them. The Go
  map of rings is an association list with distinct keys in some order of iteration; a pointer
  followed through a missing key is a panic, the value \<open>None\<close>. Arrival numbers are integers:
  the 64 bits of the source do not run out.
\<close>

section \<open>The data\<close>

definition PerSenderMax :: nat where "PerSenderMax = 30"
definition SendersMax :: nat where "SendersMax = 12"
definition nobody :: string where "nobody = []"

definition unevictable :: "string \<Rightarrow> bool" where
  "unevictable sender \<longleftrightarrow> sender = nobody \<or> sender = SelfFrom"

record arrival =
  r_ID :: "64 word"
  r_From :: string
  r_Self :: bool
  r_Text :: string
  r_Body :: string
  r_Urgent :: bool
  r_At :: int
  r_Desk :: string
  r_Queued :: bool
  r_Dismissed :: bool
  r_Actions :: "action list"
  r_Extra :: nat
  r_Restored :: bool
  r_Clipped :: bool
  r_Private :: bool

definition Allows :: "arrival \<Rightarrow> string \<Rightarrow> bool" where
  "Allows r key = list_ex (\<lambda>a. Key a = key) (r_Actions r)"

record stored =
  s_rec :: arrival
  s_seq :: int

type_synonym ring = "stored list"
type_synonym rings = "(string \<times> ring) list"

record history =
  h_rings :: rings
  h_seq :: int
  h_back :: int
  h_rev :: "64 word"

definition empty_history :: history where
  "empty_history = \<lparr>h_rings = [], h_seq = 0, h_back = 0, h_rev = 0\<rparr>"

abbreviation id_of :: "stored \<Rightarrow> 64 word" where "id_of e \<equiv> r_ID (s_rec e)"

definition ring_last :: "ring \<Rightarrow> int" where "ring_last r = s_seq (last r)"

definition prepend :: "stored list \<Rightarrow> ring \<Rightarrow> ring" where
  "prepend es r =
     (let all = es @ r
      in if PerSenderMax < length all then drop (length all - PerSenderMax) all else all)"

section \<open>Evicting whole rings\<close>

definition named_rings :: "rings \<Rightarrow> nat" where
  "named_rings rs = length rs - length (filter (\<lambda>ours. ours \<in> fst ` set rs) [nobody, SelfFrom])"

definition cheaper_step ::
  "string \<Rightarrow> string \<times> ring \<Rightarrow> (string \<times> nat \<times> int) option \<Rightarrow> (string \<times> nat \<times> int) option" where
  "cheaper_step arrived kr best =
     (case kr of (sender, r) \<Rightarrow>
        if unevictable sender \<or> sender = arrived then best
        else case best of
            None \<Rightarrow> Some (sender, length r, ring_last r)
          | Some (_, held, since) \<Rightarrow>
              if length r < held \<or> length r = held \<and> ring_last r < since
              then Some (sender, length r, ring_last r) else best)"

definition cheapest :: "string \<Rightarrow> rings \<Rightarrow> string" where
  "cheapest arrived rs = (case fold (cheaper_step arrived) rs None of None \<Rightarrow> [] | Some (c, _) \<Rightarrow> c)"

lemma length_delete_less: "map_of m k = Some v \<Longrightarrow> length (AList.delete k m) < length m"
  by (induction m) (auto simp: AList.delete_eq split: if_splits intro: le_imp_less_Suc)

function dropExtraSenders :: "string \<Rightarrow> rings \<Rightarrow> (64 word list \<times> rings) option" where
  "dropExtraSenders arrived rs =
     (if named_rings rs \<le> SendersMax then Some ([], rs)
      else case map_of rs (cheapest arrived rs) of
          None \<Rightarrow> None
        | Some r \<Rightarrow>
            (case dropExtraSenders arrived (AList.delete (cheapest arrived rs) rs) of
               None \<Rightarrow> None
             | Some (gone, rs') \<Rightarrow> Some (map id_of r @ gone, rs')))"
  by pat_completeness auto
termination
  by (relation "measure (length \<circ> snd)") (auto intro: length_delete_less)

declare dropExtraSenders.simps [simp del]

section \<open>Operations\<close>

definition add :: "arrival \<Rightarrow> history \<Rightarrow> (64 word list \<times> history) option" where
  "add r h =
     (let seq = h_seq h + 1;
          ring = aget [] (h_rings h) (r_From r) @ [\<lparr>s_rec = r, s_seq = seq\<rparr>];
          gone = (if PerSenderMax < length ring then [id_of (hd ring)] else []);
          ring = (if PerSenderMax < length ring then take PerSenderMax (tl ring) else ring)
      in case dropExtraSenders (r_From r) (AList.update (r_From r) ring (h_rings h)) of
           None \<Rightarrow> None
         | Some (gone', rs) \<Rightarrow> Some (gone @ gone', h\<lparr>h_rings := rs, h_seq := seq, h_rev := h_rev h + 1\<rparr>))"

definition Add :: "arrival \<Rightarrow> history \<Rightarrow> (64 word list \<times> history) option" where "Add r h = add r h"

fun drop_first :: "64 word \<Rightarrow> ring \<Rightarrow> ring" where
  "drop_first i [] = []"
| "drop_first i (e # es) = (if id_of e = i then es else e # drop_first i es)"

fun remove_in :: "64 word \<Rightarrow> rings \<Rightarrow> rings" where
  "remove_in i [] = []"
| "remove_in i ((sender, r) # rs) =
     (if list_ex (\<lambda>e. id_of e = i) r
      then (if drop_first i r = [] then rs else (sender, drop_first i r) # rs)
      else (sender, r) # remove_in i rs)"

definition holds_id :: "64 word \<Rightarrow> rings \<Rightarrow> bool" where
  "holds_id i rs = list_ex (\<lambda>(_, r). list_ex (\<lambda>e. id_of e = i) r) rs"

definition remove :: "64 word \<Rightarrow> history \<Rightarrow> bool \<times> history" where
  "remove i h = (holds_id i (h_rings h), h\<lparr>h_rings := remove_in i (h_rings h)\<rparr>)"

definition Replace :: "64 word \<Rightarrow> arrival \<Rightarrow> history \<Rightarrow> (64 word list \<times> history) option" where
  "Replace old r h = add r (snd (remove old h))"

definition newestFirst :: "history \<Rightarrow> stored list" where
  "newestFirst h = sort_by (\<lambda>a b. s_seq a > s_seq b) (concat (map snd (h_rings h)))"

definition Recent :: "history \<Rightarrow> arrival list" where
  "Recent h = map s_rec (newestFirst h)"

definition Find :: "64 word \<Rightarrow> history \<Rightarrow> arrival option" where
  "Find i h = map_option s_rec (List.find (\<lambda>e. id_of e = i) (concat (map snd (h_rings h))))"

definition dismissed :: "stored \<Rightarrow> stored" where
  "dismissed e = e\<lparr>s_rec := (s_rec e)\<lparr>r_Dismissed := True\<rparr>\<rparr>"

fun mark_first :: "64 word \<Rightarrow> ring \<Rightarrow> ring" where
  "mark_first i [] = []"
| "mark_first i (e # es) = (if id_of e = i then dismissed e # es else e # mark_first i es)"

fun dismiss_in :: "64 word \<Rightarrow> rings \<Rightarrow> rings" where
  "dismiss_in i [] = []"
| "dismiss_in i ((sender, r) # rs) =
     (if list_ex (\<lambda>e. id_of e = i) r then (sender, mark_first i r) # rs
      else (sender, r) # dismiss_in i rs)"

definition Dismiss :: "64 word \<Rightarrow> history \<Rightarrow> bool \<times> history" where
  "Dismiss i h =
     (if holds_id i (h_rings h)
      then (True, h\<lparr>h_rings := dismiss_in i (h_rings h), h_rev := h_rev h + 1\<rparr>) else (False, h))"

definition Rev :: "history \<Rightarrow> 64 word" where "Rev h = h_rev h"

text \<open>The file's records, numbered downwards from what earlier restores used, then filed by sender.\<close>

fun numbered :: "int \<Rightarrow> arrival list \<Rightarrow> stored list" where
  "numbered seq [] = []"
| "numbered seq (r # records) = \<lparr>s_rec = r, s_seq = seq\<rparr> # numbered (seq + 1) records"

definition senders_of :: "arrival list \<Rightarrow> string list" where
  "senders_of records = fold (\<lambda>r order. if r_From r \<in> set order then order else order @ [r_From r]) records []"

definition file_under :: "stored list \<Rightarrow> string \<Rightarrow> rings \<Rightarrow> rings" where
  "file_under es sender rs =
     AList.update sender (prepend (filter (\<lambda>e. r_From (s_rec e) = sender) es) (aget [] rs sender)) rs"

definition Restore :: "arrival list \<Rightarrow> history \<Rightarrow> history option" where
  "Restore records h =
     (if records = [] then Some h
      else
        let back = h_back h - int (length records);
            rs = fold (file_under (numbered back records)) (senders_of records) (h_rings h)
        in case dropExtraSenders nobody rs of
             None \<Rightarrow> None
           | Some (_, rs') \<Rightarrow> Some (h\<lparr>h_rings := rs', h_back := back, h_rev := h_rev h + 1\<rparr>))"

section \<open>Facts on rings\<close>

definition entries :: "rings \<Rightarrow> stored list" where "entries rs = concat (map snd rs)"

lemma entries_simps [simp]: "entries [] = []" "entries ((k, r) # rs) = r @ entries rs"
  by (simp_all add: entries_def)

lemma delete_filter: "AList.delete k rs = filter (\<lambda>p. fst p \<noteq> k) rs"
  unfolding AList.delete_eq by (rule filter_cong) auto

lemma delete_absent: "k \<notin> fst ` set rs \<Longrightarrow> AList.delete k rs = rs"
  by (force simp: delete_filter filter_id_conv)

lemma aget_absent: "k \<notin> fst ` set rs \<Longrightarrow> aget z rs k = z"
  by (induction rs) (auto simp: aget_def)

lemma aget_Cons: "aget z ((k', v) # rs) k = (if k = k' then v else aget z rs k)"
  by (simp add: aget_def)

lemma entries_take:
  "distinct (map fst rs) \<Longrightarrow> mset (entries rs) = mset (aget [] rs k) + mset (entries (AList.delete k rs))"
proof (induction rs)
  case (Cons p rs)
  obtain k' r where p: "p = (k', r)" by fastforce
  show ?case
  proof (cases "k = k'")
    case True
    then have "AList.delete k rs = rs" using Cons.prems p by (intro delete_absent) auto
    then show ?thesis using True p by (simp add: aget_Cons)
  next
    case False
    then show ?thesis using Cons p by (simp add: aget_Cons)
  qed
qed (simp add: aget_def)

lemma delete_update: "AList.delete k (AList.update k v rs) = AList.delete k rs"
  by (induction rs) (auto simp: delete_filter)

lemma entries_update:
  "distinct (map fst rs) \<Longrightarrow>
     mset (entries (AList.update k r rs)) = mset r + mset (entries (AList.delete k rs))"
  using entries_take[of "AList.update k r rs" k] by (simp add: delete_update distinct_update)

lemma set_entries: "e \<in> set (entries rs) \<longleftrightarrow> (\<exists>k r. (k, r) \<in> set rs \<and> e \<in> set r)"
  by (force simp: entries_def)

lemma aget_in: "distinct (map fst rs) \<Longrightarrow> (k, r) \<in> set rs \<Longrightarrow> aget z rs k = r"
  by (simp add: aget_def map_of_eq_Some_iff[THEN iffD2])

lemma aget_there: "k \<in> fst ` set rs \<Longrightarrow> (k, aget z rs k) \<in> set rs"
  by (metis (no_types, lifting) aget_def map_of_SomeD map_of_eq_None_iff not_None_eq option.simps(5))

section \<open>The ring that goes\<close>

definition evictable :: "string \<Rightarrow> rings \<Rightarrow> rings" where
  "evictable arrived rs = filter (\<lambda>p. \<not> unevictable (fst p) \<and> fst p \<noteq> arrived) rs"

definition costs_less :: "ring \<Rightarrow> ring \<Rightarrow> bool" where
  "costs_less r r' \<longleftrightarrow> length r < length r' \<or> length r = length r' \<and> ring_last r < ring_last r'"

lemma cheaper_step_skip: "unevictable k \<or> k = a \<Longrightarrow> cheaper_step a (k, r) best = best"
  by (simp add: cheaper_step_def)

lemma cheaper_step_some:
  assumes "\<not> (unevictable k \<or> k = a)"
  shows "\<exists>k1 n1 l1. cheaper_step a (k, r) best = Some (k1, n1, l1)
    \<and> (best = Some (k1, n1, l1) \<or> k1 = k \<and> n1 = length r \<and> l1 = ring_last r)
    \<and> (n1 < length r \<or> n1 = length r \<and> l1 \<le> ring_last r)
    \<and> (case best of None \<Rightarrow> True | Some (_, n', l') \<Rightarrow> n1 < n' \<or> n1 = n' \<and> l1 \<le> l')"
proof (cases best)
  case None
  then show ?thesis using assms by (auto simp: cheaper_step_def)
next
  case (Some b)
  obtain k0 n0 l0 where b: "b = (k0, n0, l0)" by (cases b)
  show ?thesis
  proof (cases "length r < n0 \<or> length r = n0 \<and> ring_last r < l0")
    case True
    then show ?thesis using assms Some b by (auto simp: cheaper_step_def)
  next
    case False
    then have "cheaper_step a (k, r) best = Some (k0, n0, l0)" using assms Some b by (simp add: cheaper_step_def)
    then show ?thesis using False Some b by auto
  qed
qed

lemma cheaper_fold:
  "(case fold (cheaper_step a) rs best of
      None \<Rightarrow> best = None \<and> evictable a rs = []
    | Some (k, n, l) \<Rightarrow>
        (best = Some (k, n, l) \<or> (\<exists>r. (k, r) \<in> set (evictable a rs) \<and> n = length r \<and> l = ring_last r))
        \<and> (\<forall>(k', r') \<in> set (evictable a rs). n < length r' \<or> n = length r' \<and> l \<le> ring_last r')
        \<and> (case best of None \<Rightarrow> True | Some (_, n', l') \<Rightarrow> n < n' \<or> n = n' \<and> l \<le> l'))"
proof (induction rs arbitrary: best)
  case Nil
  show ?case by (cases best) (auto simp: evictable_def)
next
  case (Cons p rs)
  obtain k r where p: "p = (k, r)" by fastforce
  show ?case
  proof (cases "unevictable k \<or> k = a")
    case True
    then have ev: "evictable a (p # rs) = evictable a rs" by (auto simp: evictable_def p)
    have "fold (cheaper_step a) (p # rs) best = fold (cheaper_step a) rs best"
      using True by (simp add: p cheaper_step_skip)
    then show ?thesis using Cons[of best] unfolding ev by simp
  next
    case False
    then have ev: "set (evictable a (p # rs)) = insert (k, r) (set (evictable a rs))"
      by (auto simp: evictable_def p)
    let ?b = "cheaper_step a p best"
    obtain k1 n1 l1 where b: "?b = Some (k1, n1, l1)"
      "best = Some (k1, n1, l1) \<or> k1 = k \<and> n1 = length r \<and> l1 = ring_last r"
      "n1 < length r \<or> n1 = length r \<and> l1 \<le> ring_last r"
      "case best of None \<Rightarrow> True | Some (_, n', l') \<Rightarrow> n1 < n' \<or> n1 = n' \<and> l1 \<le> l'"
      using cheaper_step_some[OF False, of r best] unfolding p by blast
    have ih: "case fold (cheaper_step a) rs ?b of None \<Rightarrow> False
      | Some (k, n, l) \<Rightarrow>
        (?b = Some (k, n, l) \<or> (\<exists>r. (k, r) \<in> set (evictable a rs) \<and> n = length r \<and> l = ring_last r))
        \<and> (\<forall>(k', r') \<in> set (evictable a rs). n < length r' \<or> n = length r' \<and> l \<le> ring_last r')
        \<and> (n < n1 \<or> n = n1 \<and> l \<le> l1)"
      using Cons[of ?b] b(1) by (auto split: option.splits)
    show ?thesis
      using ih b ev by (auto split: option.splits) (fastforce+)?
  qed
qed

lemma cheapest_none: "evictable a rs = [] \<Longrightarrow> cheapest a rs = []"
  using cheaper_fold[where best = None and a = a and rs = rs] by (auto simp: cheapest_def split: option.splits)

lemma cheapest_some:
  assumes "evictable a rs \<noteq> []" and "distinct (map fst rs)"
  shows "(cheapest a rs, aget [] rs (cheapest a rs)) \<in> set (evictable a rs)"
    and "\<forall>(k, r) \<in> set (evictable a rs). \<not> costs_less r (aget [] rs (cheapest a rs))"
proof -
  obtain k n l where f: "fold (cheaper_step a) rs None = Some (k, n, l)"
    "\<exists>r. (k, r) \<in> set (evictable a rs) \<and> n = length r \<and> l = ring_last r"
    "\<forall>(k', r') \<in> set (evictable a rs). n < length r' \<or> n = length r' \<and> l \<le> ring_last r'"
    using cheaper_fold[where best = None and a = a and rs = rs] assms(1) by (auto split: option.splits)
  then obtain r where r: "(k, r) \<in> set (evictable a rs)" "n = length r" "l = ring_last r" by blast
  have k: "cheapest a rs = k" by (simp add: cheapest_def f)
  have "aget [] rs k = r" using r(1) assms(2) by (intro aget_in) (auto simp: evictable_def)
  with r k show "(cheapest a rs, aget [] rs (cheapest a rs)) \<in> set (evictable a rs)" by simp
  show "\<forall>(k, r) \<in> set (evictable a rs). \<not> costs_less r (aget [] rs (cheapest a rs))"
    unfolding k \<open>aget [] rs k = r\<close>
  proof clarify
    fix k' r' assume "(k', r') \<in> set (evictable a rs)" and "costs_less r' r"
    then have "n < length r' \<or> n = length r' \<and> l \<le> ring_last r'" using f(3) by blast
    then show False using \<open>costs_less r' r\<close> r(2,3) unfolding costs_less_def by linarith
  qed
qed

lemma SelfFrom_nobody [simp]: "SelfFrom \<noteq> nobody" "nobody \<noteq> SelfFrom"
  by (simp_all add: SelfFrom_def nobody_def)

lemma named_rings_filter:
  assumes "distinct (map fst rs)"
  shows "named_rings rs = length (filter (\<lambda>p. \<not> unevictable (fst p)) rs)"
proof -
  let ?ours = "filter (\<lambda>p. unevictable (fst p)) rs"
  have "length ?ours = card (fst ` set ?ours)"
    using assms by (metis distinct_card distinct_map_filter length_map set_map)
  also have "fst ` set ?ours = {k \<in> fst ` set rs. unevictable k}" by auto
  also have "\<dots> = set (filter (\<lambda>k. k \<in> fst ` set rs) [nobody, SelfFrom])"
    by (simp only: unevictable_def set_filter list.set) blast
  also have "card \<dots> = length (filter (\<lambda>k. k \<in> fst ` set rs) [nobody, SelfFrom])"
    by (rule distinct_card) simp
  finally show ?thesis
    using sum_length_filter_compl[of "\<lambda>p. unevictable (fst p)" rs] by (simp add: named_rings_def)
qed

lemma evictable_exists:
  assumes "distinct (map fst rs)" and "SendersMax < named_rings rs"
  shows "evictable a rs \<noteq> []"
proof
  let ?n = "filter (\<lambda>p. \<not> unevictable (fst p)) rs"
  assume "evictable a rs = []"
  then have "fst ` set ?n \<subseteq> {a}" by (auto simp: evictable_def filter_empty_conv)
  then have "card (fst ` set ?n) \<le> card {a}" by (rule card_mono[rotated]) simp
  moreover have "card (fst ` set ?n) = length ?n"
    using assms(1) by (metis distinct_card distinct_map_filter length_map set_map)
  ultimately show False using assms by (simp add: named_rings_filter SendersMax_def)
qed

lemma drop_unfold:
  assumes "distinct (map fst rs)" and "SendersMax < named_rings rs"
  shows "dropExtraSenders a rs =
    (case dropExtraSenders a (AList.delete (cheapest a rs) rs) of
       None \<Rightarrow> None | Some (gone, rs') \<Rightarrow> Some (map id_of (aget [] rs (cheapest a rs)) @ gone, rs'))"
proof -
  have "(cheapest a rs, aget [] rs (cheapest a rs)) \<in> set rs"
    using cheapest_some(1)[OF evictable_exists[OF assms] assms(1)] by (auto simp: evictable_def)
  then have "map_of rs (cheapest a rs) = Some (aget [] rs (cheapest a rs))"
    using assms(1) by simp
  then show ?thesis using assms(2) by (subst dropExtraSenders.simps) simp
qed

lemma distinct_delete: "distinct (map fst rs) \<Longrightarrow> distinct (map fst (AList.delete k rs))"
  by (simp add: delete_filter distinct_map_filter)

text \<open>
  What the loop does: it answers, and whole rings go, none of them the exempt ones and none of
  them the arriving sender's, until the bound holds.
\<close>

lemma drop_result:
  assumes "distinct (map fst rs)"
  shows "\<exists>gone ks. dropExtraSenders a rs = Some (gone, filter (\<lambda>p. fst p \<notin> set ks) rs)
     \<and> set ks \<subseteq> fst ` set (evictable a rs)
     \<and> named_rings (filter (\<lambda>p. fst p \<notin> set ks) rs) \<le> SendersMax
     \<and> mset gone + mset (map id_of (entries (filter (\<lambda>p. fst p \<notin> set ks) rs))) = mset (map id_of (entries rs))
     \<and> (named_rings rs \<le> SendersMax \<longrightarrow> ks = [])
     \<and> (\<forall>k \<in> set ks. \<forall>(k', r') \<in> set (evictable a rs). k' \<notin> set ks \<longrightarrow> \<not> costs_less r' (aget [] rs k))"
  using assms
proof (induction "length rs" arbitrary: rs rule: less_induct)
  case less
  show ?case
  proof (cases "named_rings rs \<le> SendersMax")
    case True
    then have "dropExtraSenders a rs = Some ([], rs)" by (subst dropExtraSenders.simps) simp
    then show ?thesis using True by (intro exI[of _ "[]"]) simp
  next
    case False
    let ?c = "cheapest a rs"
    let ?rest = "AList.delete ?c rs"
    note ev = evictable_exists[OF less.prems, of a] cheapest_some[OF _ less.prems, of a]
    have c: "(?c, aget [] rs ?c) \<in> set (evictable a rs)"
      "\<forall>(k, r) \<in> set (evictable a rs). \<not> costs_less r (aget [] rs ?c)"
      using ev False by auto
    have "(?c, aget [] rs ?c) \<in> set rs" using c(1) by (simp add: evictable_def)
    then have "map_of rs ?c = Some (aget [] rs ?c)" by (rule map_of_is_SomeI[OF less.prems])
    then have shorter: "length ?rest < length rs" by (rule length_delete_less)
    obtain gone ks where ih: "dropExtraSenders a ?rest = Some (gone, filter (\<lambda>p. fst p \<notin> set ks) ?rest)"
      "set ks \<subseteq> fst ` set (evictable a ?rest)"
      "named_rings (filter (\<lambda>p. fst p \<notin> set ks) ?rest) \<le> SendersMax"
      "mset gone + mset (map id_of (entries (filter (\<lambda>p. fst p \<notin> set ks) ?rest))) = mset (map id_of (entries ?rest))"
      "\<forall>k \<in> set ks. \<forall>(k', r') \<in> set (evictable a ?rest). k' \<notin> set ks \<longrightarrow> \<not> costs_less r' (aget [] ?rest k)"
      using less.hyps[OF shorter distinct_delete[OF less.prems]] by blast
    have rest: "filter (\<lambda>p. fst p \<notin> set ks) ?rest = filter (\<lambda>p. fst p \<notin> set (?c # ks)) rs"
      by (simp add: delete_filter conj_commute)
    have "evictable a ?rest = filter (\<lambda>p. fst p \<noteq> ?c) (evictable a rs)"
      by (simp add: evictable_def delete_filter conj_ac)
    then have sub: "set (evictable a ?rest) = {p \<in> set (evictable a rs). fst p \<noteq> ?c}" by auto
    have 1: "dropExtraSenders a rs =
        Some (map id_of (aget [] rs ?c) @ gone, filter (\<lambda>p. fst p \<notin> set (?c # ks)) rs)"
    proof -
      have "SendersMax < named_rings rs" using False by simp
      from drop_unfold[OF less.prems this] ih(1) show ?thesis by (simp only: option.case prod.case rest)
    qed
    have 2: "set (?c # ks) \<subseteq> fst ` set (evictable a rs)"
    proof -
      have "set ks \<subseteq> fst ` set (evictable a rs)" using ih(2) unfolding sub by blast
      moreover have "?c \<in> fst ` set (evictable a rs)" using c(1) by (rule rev_image_eqI) simp
      ultimately show ?thesis by simp
    qed
    have 3: "mset (map id_of (aget [] rs ?c) @ gone)
        + mset (map id_of (entries (filter (\<lambda>p. fst p \<notin> set (?c # ks)) rs))) = mset (map id_of (entries rs))"
    proof -
      have "mset (map id_of (entries rs)) = mset (map id_of (aget [] rs ?c)) + mset (map id_of (entries ?rest))"
        using arg_cong[OF entries_take[OF less.prems, of ?c], of "image_mset id_of"]
        by (simp only: mset_map image_mset_union)
      then show ?thesis using ih(4) unfolding rest by (simp only: mset_append add.assoc)
    qed
    have 4: "\<not> costs_less r' (aget [] rs k)"
      if "k \<in> set (?c # ks)" "(k', r') \<in> set (evictable a rs)" "k' \<notin> set (?c # ks)" for k k' r'
    proof (cases "k = ?c")
      case True
      then show ?thesis using c(2) that(2) by auto
    next
      case False
      then have "aget [] ?rest k = aget [] rs k" by simp
      moreover have "(k', r') \<in> set (evictable a ?rest)" using that sub by auto
      ultimately show ?thesis using ih(5) that False by fastforce
    qed
    show ?thesis
      using 1 2 3 4 ih(3) False unfolding rest by (intro exI[of _ "_ @ gone"] exI[of _ "?c # ks"]) blast
  qed
qed

section \<open>The invariant\<close>

definition ring_ok :: "string \<Rightarrow> ring \<Rightarrow> bool" where
  "ring_ok sender r \<longleftrightarrow> r \<noteq> [] \<and> length r \<le> PerSenderMax
     \<and> (\<forall>e \<in> set r. r_From (s_rec e) = sender) \<and> sorted_wrt (\<lambda>a b. s_seq a < s_seq b) r"

definition rings_ok :: "rings \<Rightarrow> bool" where
  "rings_ok rs \<longleftrightarrow> distinct (map fst rs) \<and> (\<forall>(k, r) \<in> set rs. ring_ok k r) \<and> inj_on s_seq (set (entries rs))"

definition hist_ok :: "history \<Rightarrow> bool" where
  "hist_ok h \<longleftrightarrow> rings_ok (h_rings h) \<and> named_rings (h_rings h) \<le> SendersMax
     \<and> h_back h \<le> 0 \<and> 0 \<le> h_seq h
     \<and> (\<forall>e \<in> set (entries (h_rings h)). h_back h \<le> s_seq e \<and> s_seq e \<le> h_seq h \<and> s_seq e \<noteq> 0)"

lemma rings_okD:
  assumes "rings_ok rs"
  shows "distinct (map fst rs)" and "(k, r) \<in> set rs \<Longrightarrow> ring_ok k r" and "inj_on s_seq (set (entries rs))"
  using assms by (auto simp: rings_ok_def)

lemma aget_ok: "rings_ok rs \<Longrightarrow> aget [] rs k = [] \<or> ring_ok k (aget [] rs k)"
  using aget_absent[of k rs "[]"] aget_there[of k rs "[]"] rings_okD(2) by metis

lemma aget_From: "rings_ok rs \<Longrightarrow> e \<in> set (aget [] rs k) \<Longrightarrow> r_From (s_rec e) = k"
  using aget_ok[of rs k] by (auto simp: ring_ok_def)

lemma entries_From: "rings_ok rs \<Longrightarrow> e \<in> set (entries rs) \<Longrightarrow> e \<in> set (aget [] rs (r_From (s_rec e)))"
  unfolding set_entries
  by (metis aget_in ring_ok_def rings_okD(1,2))

lemma entries_aget: "rings_ok rs \<Longrightarrow> e \<in> set (aget [] rs k) \<longleftrightarrow> e \<in> set (entries rs) \<and> r_From (s_rec e) = k"
proof
  assume ok: "rings_ok rs" and e: "e \<in> set (aget [] rs k)"
  then have "k \<in> fst ` set rs" using aget_absent[of k rs "[]"] by fastforce
  then show "e \<in> set (entries rs) \<and> r_From (s_rec e) = k"
    using e aget_From[OF ok e] aget_there unfolding set_entries by fast
qed (use entries_From in auto)

lemma rising_distinct: "sorted_wrt (\<lambda>a b. s_seq a < s_seq b) r \<Longrightarrow> distinct r"
  by (induction r) auto

lemma entries_distinct:
  assumes "rings_ok rs"
  shows "distinct (entries rs)"
proof -
  have "distinct (entries ps)" if "set ps \<subseteq> set rs" "distinct (map fst ps)" for ps
    using that
  proof (induction ps)
    case (Cons p ps)
    obtain k r where p: "p = (k, r)" by fastforce
    have "ring_ok k r" using Cons.prems p rings_okD(2)[OF assms] by auto
    then have "distinct r" by (auto simp: ring_ok_def intro: rising_distinct)
    moreover have "e \<notin> set (entries ps)" if "e \<in> set r" for e
    proof
      assume "e \<in> set (entries ps)"
      then obtain k' r' where "(k', r') \<in> set ps" "e \<in> set r'" unfolding set_entries by blast
      moreover have "ring_ok k' r'" using calculation Cons.prems rings_okD(2)[OF assms] by auto
      ultimately have "k' = k" using \<open>ring_ok k r\<close> that by (auto simp: ring_ok_def)
      then show False using \<open>(k', r') \<in> set ps\<close> Cons.prems(2) p by force
    qed
    ultimately show ?case using Cons p by auto
  qed simp
  then show ?thesis using rings_okD(1)[OF assms] by blast
qed

section \<open>Reading newest first\<close>

definition later :: "stored \<Rightarrow> stored \<Rightarrow> bool" where "later a b \<longleftrightarrow> s_seq a > s_seq b"

interpretation by_seq: comparator later
  using comparator_key[of "\<lambda>e. - s_seq e"] by (simp add: later_def[abs_def])

lemma newestFirst_later: "newestFirst h = sort_by later (entries (h_rings h))"
  by (simp add: newestFirst_def entries_def later_def[abs_def])

text \<open>Two strictly falling lists of the same entries are the same list.\<close>

lemma falling_unique:
  assumes "sorted_wrt later xs" and "sorted_wrt later ys" and "set xs = set ys"
  shows "xs = ys"
  using assms
proof (induction xs arbitrary: ys)
  case (Cons x xs)
  then obtain y ys' where ys: "ys = y # ys'" by (cases ys) auto
  have "x = y"
  proof (rule ccontr)
    assume "x \<noteq> y"
    then have "x \<in> set ys'" "y \<in> set xs" using Cons.prems(3) ys by auto
    then have "later y x" "later x y" using Cons.prems(1,2) ys by auto
    then show False by (simp add: later_def)
  qed
  moreover have "x \<notin> set xs" "y \<notin> set ys'" using Cons.prems(1,2) ys by (auto simp: later_def)
  ultimately have "set xs = set ys'" using Cons.prems(3) ys by auto
  then show ?case using Cons ys \<open>x = y\<close> by auto
qed simp

lemma falling_strict:
  "sorted_wrt (\<lambda>a b. \<not> later b a) xs \<Longrightarrow> distinct xs \<Longrightarrow> inj_on s_seq (set xs) \<Longrightarrow> sorted_wrt later xs"
proof (induction xs)
  case (Cons x xs)
  have "later x y" if "y \<in> set xs" for y
  proof -
    have "s_seq y \<noteq> s_seq x"
      using inj_onD[OF Cons.prems(3), of y x] Cons.prems(2) that by auto
    then show ?thesis using Cons.prems(1) that by (auto simp: later_def)
  qed
  then show ?case using Cons by (simp add: inj_on_insert)
qed simp

lemma set_newest [simp]: "set (newestFirst h) = set (entries (h_rings h))"
  by (simp add: newestFirst_later)

lemma newest_falling: "rings_ok (h_rings h) \<Longrightarrow> sorted_wrt later (newestFirst h)"
  by (rule falling_strict)
     (use by_seq.sorted_sort_by entries_distinct rings_okD(3) in \<open>auto simp: newestFirst_later\<close>)

lemma newest_unique:
  "rings_ok (h_rings h) \<Longrightarrow> sorted_wrt later xs \<Longrightarrow> set xs = set (entries (h_rings h)) \<Longrightarrow> newestFirst h = xs"
  by (rule falling_unique) (auto intro: newest_falling)

section \<open>Every operation keeps the invariant\<close>

lemma entries_delete:
  "rings_ok rs \<Longrightarrow> set (entries (AList.delete k rs)) = {e \<in> set (entries rs). r_From (s_rec e) \<noteq> k}"
  unfolding set_entries[abs_def] set_eq_iff delete_filter mem_Collect_eq
  using rings_okD(2) by (fastforce simp: set_entries ring_ok_def)

lemma entries_update_set:
  assumes "rings_ok rs"
  shows "set (entries (AList.update k r rs)) = set r \<union> {e \<in> set (entries rs). r_From (s_rec e) \<noteq> k}"
  using arg_cong[OF entries_update[OF rings_okD(1)[OF assms], of k r], of set_mset]
  by (simp add: entries_delete[OF assms])

lemma update_rings_ok:
  assumes "rings_ok rs" and "ring_ok k r"
    and "inj_on s_seq (set r \<union> {e \<in> set (entries rs). r_From (s_rec e) \<noteq> k})"
  shows "rings_ok (AList.update k r rs)"
proof -
  have d: "distinct (map fst (AList.update k r rs))" using rings_okD(1)[OF assms(1)] by (rule distinct_update)
  have "ring_ok k' r'" if "(k', r') \<in> set (AList.update k r rs)" for k' r'
  proof -
    have "aget [] (AList.update k r rs) k' = r'" by (rule aget_in[OF d that])
    moreover have "k' \<in> insert k (fst ` set rs)" using that keys_update by (metis fst_conv image_eqI)
    ultimately show ?thesis
      using aget_there[of k' rs "[]"] rings_okD(2)[OF assms(1)] assms(2) by (auto split: if_splits)
  qed
  then show ?thesis using d assms(3) unfolding rings_ok_def entries_update_set[OF assms(1)] by blast
qed

lemma entries_filter_subset: "set (entries (filter P rs)) \<subseteq> set (entries rs)"
  unfolding subset_iff set_entries by auto

lemma filter_rings_ok: "rings_ok rs \<Longrightarrow> rings_ok (filter P rs)"
  unfolding rings_ok_def
  using inj_on_subset[OF _ entries_filter_subset] by (auto simp: distinct_map_filter)

lemma entries_kept:
  assumes "rings_ok rs"
  shows "set (entries (filter (\<lambda>p. fst p \<notin> D) rs)) = {e \<in> set (entries rs). r_From (s_rec e) \<notin> D}"
proof -
  have "r_From (s_rec e) = k" if "(k, r) \<in> set rs" "e \<in> set r" for k r e
    using rings_okD(2)[OF assms that(1)] that(2) by (simp add: ring_ok_def)
  then show ?thesis unfolding set_eq_iff by (auto simp: set_entries) blast
qed

lemma named_rings_filter_le:
  assumes "distinct (map fst rs)"
  shows "named_rings (filter P rs) \<le> named_rings rs"
proof -
  have "distinct (map fst (filter P rs))" using assms by (simp add: distinct_map_filter)
  moreover have "length (filter Q (filter P rs)) \<le> length (filter Q rs)" for Q
    unfolding filter_filter by (rule length_filter_mono) simp
  ultimately show ?thesis using assms by (simp add: named_rings_filter del: filter_filter)
qed

lemma hist_okD:
  assumes "hist_ok h"
  shows "rings_ok (h_rings h)" and "named_rings (h_rings h) \<le> SendersMax" and "h_back h \<le> 0" and "0 \<le> h_seq h"
    and "e \<in> set (entries (h_rings h)) \<Longrightarrow> h_back h \<le> s_seq e \<and> s_seq e \<le> h_seq h \<and> s_seq e \<noteq> 0"
  using assms by (auto simp: hist_ok_def)

lemma empty_ok: "hist_ok empty_history"
  by (simp add: hist_ok_def empty_history_def rings_ok_def named_rings_def)

text \<open>What one arrival does to its sender's ring.\<close>

definition new_entry :: "arrival \<Rightarrow> history \<Rightarrow> stored" where
  "new_entry r h = \<lparr>s_rec = r, s_seq = h_seq h + 1\<rparr>"

definition pushed_out :: "arrival \<Rightarrow> history \<Rightarrow> stored list" where
  "pushed_out r h =
     (let ring = aget [] (h_rings h) (r_From r) in if length ring = PerSenderMax then [hd ring] else [])"

definition ring_after :: "arrival \<Rightarrow> history \<Rightarrow> ring" where
  "ring_after r h =
     drop (length (pushed_out r h)) (aget [] (h_rings h) (r_From r)) @ [new_entry r h]"

definition rings_after :: "arrival \<Rightarrow> history \<Rightarrow> rings" where
  "rings_after r h = AList.update (r_From r) (ring_after r h) (h_rings h)"

lemma add_after:
  assumes "hist_ok h"
  shows "add r h = (case dropExtraSenders (r_From r) (rings_after r h) of
      None \<Rightarrow> None
    | Some (gone, rs) \<Rightarrow> Some (map id_of (pushed_out r h) @ gone,
        h\<lparr>h_rings := rs, h_seq := h_seq h + 1, h_rev := h_rev h + 1\<rparr>))"
proof -
  let ?ring = "aget [] (h_rings h) (r_From r)"
  have "length ?ring \<le> PerSenderMax"
    using aget_ok[OF hist_okD(1)[OF assms], of "r_From r"] by (auto simp: ring_ok_def)
  then consider "length ?ring < PerSenderMax" | "length ?ring = PerSenderMax" by linarith
  then show ?thesis
  proof cases
    case 1
    then have "pushed_out r h = []" by (simp add: pushed_out_def)
    then show ?thesis using 1
      by (simp add: add_def Let_def rings_after_def ring_after_def new_entry_def split: option.splits)
  next
    case 2
    then have ne: "?ring \<noteq> []" by (auto simp: PerSenderMax_def)
    then have "take PerSenderMax (tl (?ring @ [x])) = drop 1 ?ring @ [x]" for x
      using 2 by (simp add: drop_Suc PerSenderMax_def)
    moreover have "pushed_out r h = [hd ?ring]" using 2 by (simp add: pushed_out_def)
    ultimately show ?thesis using 2 ne
      by (simp add: add_def Let_def rings_after_def ring_after_def new_entry_def split: option.splits)
  qed
qed

lemma new_entry_simps [simp]: "s_rec (new_entry r h) = r" "s_seq (new_entry r h) = h_seq h + 1"
  by (simp_all add: new_entry_def)

lemma pushed_out_in: "hist_ok h \<Longrightarrow> e \<in> set (pushed_out r h) \<Longrightarrow> e \<in> set (aget [] (h_rings h) (r_From r))"
  by (auto simp: pushed_out_def Let_def PerSenderMax_def split: if_splits intro!: hd_in_set)

lemma pushed_out_take:
  "pushed_out r h = take (length (pushed_out r h)) (aget [] (h_rings h) (r_From r))"
  by (cases "aget [] (h_rings h) (r_From r)") (auto simp: pushed_out_def Let_def PerSenderMax_def)

lemma ring_after_ok:
  assumes "hist_ok h"
  shows "ring_ok (r_From r) (ring_after r h)"
proof -
  let ?ring = "aget [] (h_rings h) (r_From r)"
  have ok: "?ring = [] \<or> ring_ok (r_From r) ?ring" by (rule aget_ok[OF hist_okD(1)[OF assms]])
  have lt: "s_seq e < h_seq h + 1" if "e \<in> set ?ring" for e
    using hist_okD(5)[OF assms] entries_aget[OF hist_okD(1)[OF assms]] that by fastforce
  have "length (ring_after r h) \<le> PerSenderMax"
    using ok by (auto simp: ring_after_def pushed_out_def ring_ok_def Let_def PerSenderMax_def)
  moreover have "sorted_wrt (\<lambda>a b. s_seq a < s_seq b) (drop n ?ring @ [new_entry r h])" for n
    using ok lt by (auto simp: ring_ok_def sorted_wrt_append dest: in_set_dropD intro: sorted_wrt_drop)
  ultimately show ?thesis
    using ok by (auto simp: ring_ok_def ring_after_def dest: in_set_dropD)
qed

lemma set_ring_after:
  assumes "hist_ok h"
  shows "set (ring_after r h) =
    insert (new_entry r h) (set (aget [] (h_rings h) (r_From r)) - set (pushed_out r h))"
proof -
  let ?ring = "aget [] (h_rings h) (r_From r)" and ?n = "length (pushed_out r h)"
  have "distinct ?ring"
    using aget_ok[OF hist_okD(1)[OF assms], of "r_From r"] by (auto simp: ring_ok_def intro: rising_distinct)
  then have "set (drop ?n ?ring) \<inter> set (take ?n ?ring) = {}"
    by (metis append_take_drop_id distinct_append inf_commute)
  moreover have "set (drop ?n ?ring) \<union> set (take ?n ?ring) = set ?ring"
    by (metis append_take_drop_id set_append sup_commute)
  ultimately have "set (drop ?n ?ring) = set ?ring - set (take ?n ?ring)" by blast
  then show ?thesis using pushed_out_take[of r h] by (simp add: ring_after_def)
qed

lemma entries_rings_after:
  assumes "hist_ok h"
  shows "set (entries (rings_after r h)) =
    insert (new_entry r h) (set (entries (h_rings h)) - set (pushed_out r h))"
proof -
  note ok = hist_okD(1)[OF assms]
  have "r_From (s_rec e) = r_From r" if "e \<in> set (pushed_out r h)" for e
    using pushed_out_in[OF assms that] aget_From[OF ok] by blast
  then show ?thesis
    unfolding rings_after_def entries_update_set[OF ok] set_ring_after[OF assms]
    using entries_aget[OF ok, of _ "r_From r"] by blast
qed

lemma seq_after:
  assumes "hist_ok h" and "e \<in> set (entries (rings_after r h))"
  shows "h_back h \<le> s_seq e \<and> s_seq e \<le> h_seq h + 1 \<and> s_seq e \<noteq> 0"
proof (cases "e = new_entry r h")
  case True
  then show ?thesis using hist_okD(3,4)[OF assms(1)] by simp
next
  case False
  then show ?thesis using hist_okD(5)[OF assms(1), of e] assms(2) entries_rings_after[OF assms(1)] by auto
qed

lemma rings_after_ok:
  assumes "hist_ok h"
  shows "rings_ok (rings_after r h)"
proof -
  note ok = hist_okD(1)[OF assms]
  have sub: "set (ring_after r h) \<union> {e \<in> set (entries (h_rings h)). r_From (s_rec e) \<noteq> r_From r}
    \<subseteq> insert (new_entry r h) (set (entries (h_rings h)))"
    using set_ring_after[OF assms] entries_aget[OF ok] by auto
  have "s_seq (new_entry r h) \<noteq> s_seq e" if "e \<in> set (entries (h_rings h))" for e
    using hist_okD(5)[OF assms that] by simp
  then have "s_seq (new_entry r h) \<notin> s_seq ` (set (entries (h_rings h)) - {new_entry r h})"
    unfolding image_iff by (metis DiffD1)
  then have "inj_on s_seq (insert (new_entry r h) (set (entries (h_rings h))))"
    using rings_okD(3)[OF ok] by (simp only: inj_on_insert simp_thms)
  then show ?thesis
    unfolding rings_after_def by (rule update_rings_ok[OF ok ring_after_ok[OF assms] inj_on_subset[OF _ sub]])
qed

text \<open>What an arrival answers and leaves: rings that went whole, and the rest as they were.\<close>

lemma add_result:
  assumes "hist_ok h"
  obtains ks gone where "add r h = Some (map id_of (pushed_out r h) @ gone,
      h\<lparr>h_rings := filter (\<lambda>p. fst p \<notin> set ks) (rings_after r h), h_seq := h_seq h + 1, h_rev := h_rev h + 1\<rparr>)"
    and "set ks \<subseteq> fst ` set (evictable (r_From r) (rings_after r h))"
    and "named_rings (filter (\<lambda>p. fst p \<notin> set ks) (rings_after r h)) \<le> SendersMax"
    and "mset gone + mset (map id_of (entries (filter (\<lambda>p. fst p \<notin> set ks) (rings_after r h))))
         = mset (map id_of (entries (rings_after r h)))"
    and "named_rings (rings_after r h) \<le> SendersMax \<Longrightarrow> ks = []"
    and "\<And>k k' r'. k \<in> set ks \<Longrightarrow> (k', r') \<in> set (evictable (r_From r) (rings_after r h)) \<Longrightarrow> k' \<notin> set ks
         \<Longrightarrow> \<not> costs_less r' (aget [] (rings_after r h) k)"
proof -
  obtain gone ks where d: "dropExtraSenders (r_From r) (rings_after r h) =
      Some (gone, filter (\<lambda>p. fst p \<notin> set ks) (rings_after r h))"
    "set ks \<subseteq> fst ` set (evictable (r_From r) (rings_after r h))"
    "named_rings (filter (\<lambda>p. fst p \<notin> set ks) (rings_after r h)) \<le> SendersMax"
    "mset gone + mset (map id_of (entries (filter (\<lambda>p. fst p \<notin> set ks) (rings_after r h)))) =
     mset (map id_of (entries (rings_after r h)))"
    "named_rings (rings_after r h) \<le> SendersMax \<longrightarrow> ks = []"
    "\<forall>k \<in> set ks. \<forall>(k', r') \<in> set (evictable (r_From r) (rings_after r h)).
       k' \<notin> set ks \<longrightarrow> \<not> costs_less r' (aget [] (rings_after r h) k)"
    using drop_result[OF rings_okD(1)[OF rings_after_ok[OF assms, of r]], of "r_From r"] by blast
  show ?thesis
    by (rule that[OF _ d(2-4)]) (use d(1,5,6) add_after[OF assms, of r] in auto)
qed

lemma add_ok:
  assumes "hist_ok h" and "add r h = Some (gone, h')"
  shows "hist_ok h'"
proof -
  obtain ks gone' where a: "add r h = Some (map id_of (pushed_out r h) @ gone',
      h\<lparr>h_rings := filter (\<lambda>p. fst p \<notin> set ks) (rings_after r h), h_seq := h_seq h + 1, h_rev := h_rev h + 1\<rparr>)"
    "named_rings (filter (\<lambda>p. fst p \<notin> set ks) (rings_after r h)) \<le> SendersMax"
    by (rule add_result[OF assms(1), of r]) blast
  have "rings_ok (filter (\<lambda>p. fst p \<notin> set ks) (rings_after r h))"
    by (rule filter_rings_ok[OF rings_after_ok[OF assms(1)]])
  moreover have "h_back h \<le> s_seq e \<and> s_seq e \<le> h_seq h + 1 \<and> s_seq e \<noteq> 0"
    if "e \<in> set (entries (filter (\<lambda>p. fst p \<notin> set ks) (rings_after r h)))" for e
    using seq_after[OF assms(1)] entries_filter_subset that by blast
  ultimately show ?thesis using a assms(2) hist_okD(3,4)[OF assms(1)] by (auto simp: hist_ok_def)
qed

section \<open>What an arrival does to the list that is read\<close>

text \<open>One sender's rows, in the order they are read.\<close>

definition rows_of :: "string \<Rightarrow> history \<Rightarrow> arrival list" where
  "rows_of sender h = filter (\<lambda>x. r_From x = sender) (Recent h)"

lemma rows_ring:
  assumes "rings_ok (h_rings h)"
  shows "rows_of sender h = rev (map s_rec (aget [] (h_rings h) sender))"
proof -
  have "filter (\<lambda>e. r_From (s_rec e) = sender) (newestFirst h) = rev (aget [] (h_rings h) sender)"
  proof (rule falling_unique)
    show "sorted_wrt later (filter (\<lambda>e. r_From (s_rec e) = sender) (newestFirst h))"
      by (rule sorted_wrt_filter[OF newest_falling[OF assms]])
    show "sorted_wrt later (rev (aget [] (h_rings h) sender))"
      using aget_ok[OF assms, of sender] by (auto simp: sorted_wrt_rev later_def ring_ok_def)
    show "set (filter (\<lambda>e. r_From (s_rec e) = sender) (newestFirst h)) = set (rev (aget [] (h_rings h) sender))"
      using entries_aget[OF assms] by auto
  qed
  then show ?thesis by (simp add: rows_of_def Recent_def filter_map comp_def rev_map)
qed

lemma aget_filter: "aget z (filter (\<lambda>p. fst p \<notin> D) rs) k = (if k \<in> D then z else aget z rs k)"
  by (induction rs) (auto simp: aget_Cons)

lemma add_rings:
  assumes "hist_ok h" and "add r h = Some (gone, h')"
  obtains D where "h_rings h' = filter (\<lambda>p. fst p \<notin> D) (rings_after r h)"
    and "D \<subseteq> fst ` set (evictable (r_From r) (rings_after r h))"
    and "h_seq h' = h_seq h + 1" and "h_back h' = h_back h" and "h_rev h' = h_rev h + 1"
    and "mset (map id_of (entries (h_rings h'))) + mset gone = add_mset (r_ID r) (mset (map id_of (entries (h_rings h))))"
    and "named_rings (rings_after r h) \<le> SendersMax \<Longrightarrow> D = {}"
    and "\<And>k k' r'. k \<in> D \<Longrightarrow> (k', r') \<in> set (evictable (r_From r) (rings_after r h)) \<Longrightarrow> k' \<notin> D
         \<Longrightarrow> \<not> costs_less r' (aget [] (rings_after r h) k)"
proof -
  obtain ks gone' where a: "add r h = Some (map id_of (pushed_out r h) @ gone',
      h\<lparr>h_rings := filter (\<lambda>p. fst p \<notin> set ks) (rings_after r h), h_seq := h_seq h + 1, h_rev := h_rev h + 1\<rparr>)"
    "set ks \<subseteq> fst ` set (evictable (r_From r) (rings_after r h))"
    "mset gone' + mset (map id_of (entries (filter (\<lambda>p. fst p \<notin> set ks) (rings_after r h))))
         = mset (map id_of (entries (rings_after r h)))"
    "named_rings (rings_after r h) \<le> SendersMax \<Longrightarrow> ks = []"
    "\<And>k k' r'. k \<in> set ks \<Longrightarrow> (k', r') \<in> set (evictable (r_From r) (rings_after r h)) \<Longrightarrow> k' \<notin> set ks
         \<Longrightarrow> \<not> costs_less r' (aget [] (rings_after r h) k)"
    by (rule add_result[OF assms(1), of r]) blast
  note d = rings_okD(1)[OF hist_okD(1)[OF assms(1)]]
  let ?ring = "aget [] (h_rings h) (r_From r)"
  have "mset (entries (rings_after r h)) + mset (pushed_out r h)
      = add_mset (new_entry r h) (mset (entries (h_rings h)))"
  proof -
    have "mset ?ring = mset (pushed_out r h) + mset (drop (length (pushed_out r h)) ?ring)"
      using pushed_out_take[of r h] by (metis append_take_drop_id mset_append)
    then show ?thesis
      using entries_take[OF d, of "r_From r"] entries_update[OF d, of "r_From r" "ring_after r h"]
      by (simp add: rings_after_def ring_after_def)
  qed
  from arg_cong[OF this, of "image_mset id_of"]
  have ids: "mset (map id_of (entries (rings_after r h))) + mset (map id_of (pushed_out r h))
      = add_mset (r_ID r) (mset (map id_of (entries (h_rings h))))" by simp
  have h': "h' = h\<lparr>h_rings := filter (\<lambda>p. fst p \<notin> set ks) (rings_after r h), h_seq := h_seq h + 1, h_rev := h_rev h + 1\<rparr>"
    and gone: "gone = map id_of (pushed_out r h) @ gone'"
    using a(1) assms(2) by auto
  have "mset (map id_of (entries (h_rings h'))) + mset gone = add_mset (r_ID r) (mset (map id_of (entries (h_rings h))))"
    using ids unfolding a(3)[symmetric] by (simp add: h' gone ac_simps)
  then show ?thesis by (intro that[of "set ks"]) (use a(2,4,5) in \<open>auto simp: h'\<close>)
qed

lemma add_newest:
  assumes "hist_ok h" and "add r h = Some (gone, h')"
  shows "newestFirst h' = new_entry r h # filter (\<lambda>e. e \<in> set (entries (h_rings h'))) (newestFirst h)"
proof -
  note ok = hist_okD(1)[OF assms(1)] and ok' = hist_okD(1)[OF add_ok[OF assms]]
  obtain D where D: "h_rings h' = filter (\<lambda>p. fst p \<notin> D) (rings_after r h)"
    "D \<subseteq> fst ` set (evictable (r_From r) (rings_after r h))"
    by (rule add_rings[OF assms])
  have ents: "set (entries (h_rings h')) =
      {e \<in> insert (new_entry r h) (set (entries (h_rings h)) - set (pushed_out r h)). r_From (s_rec e) \<notin> D}"
    unfolding D(1) entries_kept[OF rings_after_ok[OF assms(1)]] entries_rings_after[OF assms(1)] by blast
  have "r_From r \<notin> D" using D(2) by (auto simp: evictable_def)
  then have new: "new_entry r h \<in> set (entries (h_rings h'))" using ents by simp
  have "later (new_entry r h) e" if "e \<in> set (newestFirst h)" for e
    using hist_okD(5)[OF assms(1), of e] that by (simp add: later_def)
  then have "sorted_wrt later (new_entry r h # filter (\<lambda>e. e \<in> set (entries (h_rings h'))) (newestFirst h))"
    using sorted_wrt_filter[OF newest_falling[OF ok]] by simp
  moreover have "set (entries (h_rings h')) \<subseteq> insert (new_entry r h) (set (entries (h_rings h)))"
    using ents by blast
  then have "set (new_entry r h # filter (\<lambda>e. e \<in> set (entries (h_rings h'))) (newestFirst h)) = set (entries (h_rings h'))"
    using new by auto
  ultimately show ?thesis by (rule newest_unique[OF ok'])
qed

lemma Recent_ids: "mset (map r_ID (Recent h)) = mset (map id_of (entries (h_rings h)))"
  by (simp add: Recent_def newestFirst_later comp_def)

lemma add_answers: "hist_ok h \<Longrightarrow> \<exists>gone h'. add r h = Some (gone, h')"
  by (rule add_result[of h r]) auto

lemma parts_of_distinct:
  assumes "mset xs + mset ys = mset zs" and "distinct zs"
  shows "set xs \<inter> set ys = {}" and "set xs \<union> set ys = set zs"
proof -
  have "mset (xs @ ys) = mset zs" using assms(1) by simp
  then have "distinct (xs @ ys)" "set (xs @ ys) = set zs"
    using assms(2) mset_eq_imp_distinct_iff mset_eq_setD by blast+
  then show "set xs \<inter> set ys = {}" and "set xs \<union> set ys = set zs" by auto
qed

lemma kept_by_id:
  assumes "hist_ok h" and "add r h = Some (gone, h')" and "distinct (r_ID r # map r_ID (Recent h))"
    and "e \<in> set (newestFirst h)"
  shows "e \<in> set (entries (h_rings h')) \<longleftrightarrow> id_of e \<notin> set gone"
proof -
  let ?N = "newestFirst h" and ?E = "set (entries (h_rings h'))"
  have inj: "distinct (r_ID r # map id_of ?N)" using assms(3) by (simp add: Recent_def comp_def)
  have ms: "mset (map id_of (entries (h_rings h'))) + mset gone = mset (r_ID r # map id_of ?N)"
    by (rule add_rings[OF assms(1,2)]) (simp add: newestFirst_later)
  have E: "?E = insert (new_entry r h) {e \<in> set ?N. e \<in> ?E}"
    using arg_cong[OF add_newest[OF assms(1,2)], of set] by simp
  note parts = parts_of_distinct[OF ms inj]
  show ?thesis
  proof
    assume "e \<in> ?E"
    then show "id_of e \<notin> set gone" using parts(1) by auto
  next
    assume "id_of e \<notin> set gone"
    moreover have "id_of e \<in> set (map id_of (entries (h_rings h'))) \<union> set gone"
      unfolding parts(2) using assms(4) by simp
    ultimately have "id_of e \<in> id_of ` ?E" by simp
    then obtain e' where e': "e' \<in> ?E" "id_of e' = id_of e" by auto
    have "id_of e \<noteq> r_ID r" using inj assms(4) by (metis distinct.simps(2) image_eqI set_map)
    then have "e' \<in> set ?N" using e' E by (metis (mono_tags, lifting) insertE mem_Collect_eq new_entry_simps(1))
    moreover have "inj_on id_of (set ?N)" using inj by (simp add: distinct_map)
    ultimately have "e' = e" using e'(2) assms(4) by (auto dest: inj_onD)
    then show "e \<in> ?E" using e'(1) by simp
  qed
qed

text \<open>An arrival always lands, on top, and every record is accounted for. From any history
  that keeps its invariant \<open>Add\<close> answers (no panic), the new record is the first that is read,
  the records that left are exactly those whose ids the answer names, each once, and the rest
  are read in the order they were.\<close>

theorem arrival_lands_on_top:
  assumes "hist_ok h"
  shows "\<exists>gone h'. Add r h = Some (gone, h') \<and> hist_ok h'
     \<and> (\<exists>rest. Recent h' = r # rest)
     \<and> mset (map r_ID (Recent h')) + mset gone = add_mset (r_ID r) (mset (map r_ID (Recent h)))
     \<and> (distinct (r_ID r # map r_ID (Recent h)) \<longrightarrow>
          Recent h' = r # filter (\<lambda>x. r_ID x \<notin> set gone) (Recent h))"
proof -
  obtain gone h' where a: "add r h = Some (gone, h')" using add_answers[OF assms] by blast
  have ms: "mset (map id_of (entries (h_rings h'))) + mset gone = add_mset (r_ID r) (mset (map id_of (entries (h_rings h))))"
    by (rule add_rings[OF assms a])
  have R: "Recent h' = r # map s_rec (filter (\<lambda>e. e \<in> set (entries (h_rings h'))) (newestFirst h))"
    unfolding Recent_def add_newest[OF assms a] by simp
  have "Recent h' = r # filter (\<lambda>x. r_ID x \<notin> set gone) (Recent h)" if "distinct (r_ID r # map r_ID (Recent h))"
  proof -
    have "filter (\<lambda>e. e \<in> set (entries (h_rings h'))) (newestFirst h) = filter (\<lambda>e. id_of e \<notin> set gone) (newestFirst h)"
      by (rule filter_cong[OF refl]) (rule kept_by_id[OF assms a that])
    then show ?thesis using R by (simp add: Recent_def filter_map comp_def)
  qed
  then show ?thesis
    using a add_ok[OF assms a] ms R unfolding Add_def Recent_ids by blast
qed

definition sample :: "64 word \<Rightarrow> string \<Rightarrow> arrival" where
  "sample i sender = \<lparr>r_ID = i, r_From = sender, r_Self = False, r_Text = ''hello'', r_Body = [], r_Urgent = False,
     r_At = 0, r_Desk = [], r_Queued = True, r_Dismissed = False, r_Actions = [], r_Extra = 0,
     r_Restored = False, r_Clipped = False, r_Private = False\<rparr>"

lemma arrival_lands_on_top_witness:
  "\<exists>gone h'. Add (sample 1 ''mail'') empty_history = Some (gone, h') \<and> hist_ok h'
     \<and> (\<exists>rest. Recent h' = sample 1 ''mail'' # rest)"
  using arrival_lands_on_top [OF empty_ok, of "sample 1 ''mail''"] by blast

section \<open>Who an arrival can cost\<close>

lemma rows_absent: 
  assumes "hist_ok h"
  shows "rows_of s h = [] \<longleftrightarrow> s \<notin> fst ` set (h_rings h)"
  using aget_absent[of s "h_rings h" "[]"] aget_there[of s "h_rings h" "[]"]
    rings_okD(2)[OF hist_okD(1)[OF assms], of s] rows_ring[OF hist_okD(1)[OF assms], of s]
  by (auto simp: ring_ok_def)

lemma senders_present: "hist_ok h \<Longrightarrow> fst ` set (h_rings h) = r_From ` set (Recent h)"
proof -
  assume ok: "hist_ok h"
  have "(s \<in> fst ` set (h_rings h)) = (\<exists>x \<in> set (Recent h). r_From x = s)" for s
    using rows_absent[OF ok, of s] by (auto simp: rows_of_def filter_empty_conv)
  then show ?thesis unfolding set_eq_iff by (metis image_iff)
qed

lemma named_update_known:
  assumes "k \<in> fst ` set rs"
  shows "named_rings (AList.update k r rs) = named_rings rs"
proof -
  have "length (AList.update k r rs) = length rs" using assms by (induction rs) auto
  moreover have "insert k (fst ` set rs) = fst ` set rs" using assms by blast
  ultimately show ?thesis by (simp add: named_rings_def)
qed

lemma rows_after:
  assumes "hist_ok h"
  shows "rev (map s_rec (aget [] (rings_after r h) s)) =
    (if s = r_From r then take PerSenderMax (r # rows_of s h) else rows_of s h)"
proof (cases "s = r_From r")
  case True
  let ?ring = "aget [] (h_rings h) (r_From r)"
  have len: "length ?ring \<le> PerSenderMax"
    using aget_ok[OF hist_okD(1)[OF assms], of "r_From r"] by (auto simp: ring_ok_def)
  have "rev (drop n (map s_rec ?ring)) = take (length ?ring - n) (rev (map s_rec ?ring))" for n
    by (metis length_map rev_drop)
  moreover have "length (pushed_out r h) = (if length ?ring = PerSenderMax then 1 else 0)"
    by (simp add: pushed_out_def Let_def)
  ultimately show ?thesis
    using True len rows_ring[OF hist_okD(1)[OF assms], of "r_From r"]
    by (auto simp: rings_after_def ring_after_def drop_map PerSenderMax_def take_Cons' simp flip: rev_map)
next
  case False
  then show ?thesis using rows_ring[OF hist_okD(1)[OF assms], of s] by (simp add: rings_after_def)
qed

text \<open>A loud sender costs itself and nobody else. After an arrival its sender's rows are the
  new one and its newest before that, thirty at most; every other sender's rows are exactly
  what they were, unless a new name arrived with the twelve taken, and then a sender that went
  whole held no more rows than any evictable sender that stayed, and it was neither the nameless
  sender nor the desktop itself.\<close>

theorem loud_sender_costs_itself:
  assumes "hist_ok h" and "Add r h = Some (gone, h')"
  shows "rows_of (r_From r) h' = take PerSenderMax (r # rows_of (r_From r) h)
    \<and> (\<forall>s. s \<noteq> r_From r \<longrightarrow> rows_of s h' = rows_of s h
         \<or> rows_of s h' = [] \<and> rows_of (r_From r) h = [] \<and> \<not> unevictable s
           \<and> (\<forall>s'. s' \<noteq> r_From r \<longrightarrow> \<not> unevictable s' \<longrightarrow> rows_of s' h' \<noteq> []
                \<longrightarrow> length (rows_of s h) \<le> length (rows_of s' h')))"
proof -
  note a = assms(2)[unfolded Add_def]
  note ok' = add_ok[OF assms(1) a]
  obtain D where D: "h_rings h' = filter (\<lambda>p. fst p \<notin> D) (rings_after r h)"
    "D \<subseteq> fst ` set (evictable (r_From r) (rings_after r h))"
    "named_rings (rings_after r h) \<le> SendersMax \<Longrightarrow> D = {}"
    "\<And>k k' r'. k \<in> D \<Longrightarrow> (k', r') \<in> set (evictable (r_From r) (rings_after r h)) \<Longrightarrow> k' \<notin> D
         \<Longrightarrow> \<not> costs_less r' (aget [] (rings_after r h) k)"
    by (rule add_rings[OF assms(1) a]) blast
  have rows: "rows_of s h' = (if s \<in> D then [] else
      if s = r_From r then take PerSenderMax (r # rows_of s h) else rows_of s h)" for s
    using rows_after[OF assms(1), of r s] rows_ring[OF hist_okD(1)[OF ok'], of s]
    by (simp add: D(1) aget_filter)
  have D': "s \<noteq> r_From r \<and> \<not> unevictable s" if "s \<in> D" for s
    using D(2) that by (auto simp: evictable_def)
  have new: "rows_of (r_From r) h = []" if "s \<in> D" for s
  proof (rule ccontr)
    assume "rows_of (r_From r) h \<noteq> []"
    then have "named_rings (rings_after r h) = named_rings (h_rings h)"
      unfolding rings_after_def using rows_absent[OF assms(1)] by (intro named_update_known) auto
    then have "D = {}" using D(3) hist_okD(2)[OF assms(1)] by simp
    then show False using that by simp
  qed
  have cheap: "length (rows_of s h) \<le> length (rows_of s' h')"
    if s: "s \<in> D" and s': "s' \<noteq> r_From r" "\<not> unevictable s'" "rows_of s' h' \<noteq> []" for s s'
  proof -
    have stay: "s' \<notin> D" using rows[of s'] s'(3) by auto
    have "s' \<in> fst ` set (h_rings h')" using rows_absent[OF ok'] s'(3) by blast
    then have "s' \<in> fst ` set (rings_after r h)" unfolding D(1) by auto
    then have "(s', aget [] (rings_after r h) s') \<in> set (evictable (r_From r) (rings_after r h))"
      using aget_there s' by (fastforce simp: evictable_def)
    then have "\<not> costs_less (aget [] (rings_after r h) s') (aget [] (rings_after r h) s)"
      using D(4)[OF s] stay by blast
    then have "length (aget [] (rings_after r h) s) \<le> length (aget [] (rings_after r h) s')"
      by (auto simp: costs_less_def)
    moreover have "length (rows_of s h) = length (aget [] (rings_after r h) s)"
      using rows_after[OF assms(1), of r s] D'[OF s] by (metis length_map length_rev)
    moreover have "length (rows_of s' h') = length (aget [] (rings_after r h) s')"
      using rows_after[OF assms(1), of r s'] rows[of s'] s'(1) stay by (metis length_map length_rev)
    ultimately show ?thesis by simp
  qed
  show ?thesis
  proof (intro conjI allI impI)
    show "rows_of (r_From r) h' = take PerSenderMax (r # rows_of (r_From r) h)"
      using rows[of "r_From r"] D' by auto
  next
    fix s assume "s \<noteq> r_From r"
    then show "rows_of s h' = rows_of s h
         \<or> rows_of s h' = [] \<and> rows_of (r_From r) h = [] \<and> \<not> unevictable s
           \<and> (\<forall>s'. s' \<noteq> r_From r \<longrightarrow> \<not> unevictable s' \<longrightarrow> rows_of s' h' \<noteq> []
                \<longrightarrow> length (rows_of s h) \<le> length (rows_of s' h'))"
      using rows[of s] new[of s] D'[of s] cheap[of s] by (cases "s \<in> D") auto
  qed
qed

lemma loud_sender_costs_itself_witness:
  "\<exists>gone h'. Add (sample 1 ''mail'') empty_history = Some (gone, h')
     \<and> rows_of ''mail'' h' = take PerSenderMax [sample 1 ''mail'']"
proof -
  obtain gone h' where a: "Add (sample 1 ''mail'') empty_history = Some (gone, h')"
    using add_answers[OF empty_ok, of "sample 1 ''mail''"] unfolding Add_def by blast
  have "rows_of ''mail'' empty_history = []" by (simp add: rows_absent[OF empty_ok]) (simp add: empty_history_def)
  then show ?thesis
    using loud_sender_costs_itself [OF empty_ok a] a by (simp add: sample_def)
qed

section \<open>Taking one out and marking one\<close>

lemma drop_first_none: "\<not> list_ex (\<lambda>e. id_of e = i) r \<Longrightarrow> drop_first i r = r"
  by (induction r) auto

lemma drop_first_append:
  "drop_first i (r @ rs) = (if list_ex (\<lambda>e. id_of e = i) r then drop_first i r @ rs else r @ drop_first i rs)"
  by (induction r) auto

lemma set_drop_first: "set (drop_first i r) \<subseteq> set r"
  by (induction r) auto

lemma drop_first_filter:
  "distinct (map id_of r) \<Longrightarrow> drop_first i r = filter (\<lambda>e. id_of e \<noteq> i) r"
proof (induction r)
  case (Cons e r)
  have "filter (\<lambda>x. id_of x \<noteq> i) r = r" if "id_of e = i"
    using Cons.prems that by (metis (mono_tags, lifting) distinct.simps(2) filter_True image_eqI list.simps(9) set_map)
  then show ?case using Cons by auto
qed simp

lemma drop_first_rising:
  "sorted_wrt (\<lambda>a b. s_seq a < s_seq b) r \<Longrightarrow> sorted_wrt (\<lambda>a b. s_seq a < s_seq b) (drop_first i r)"
  using set_drop_first by (induction r) fastforce+

lemma length_drop_first: "length (drop_first i r) \<le> length r"
  by (induction r) auto

lemma ring_ok_drop_first: "ring_ok k r \<Longrightarrow> drop_first i r \<noteq> [] \<Longrightarrow> ring_ok k (drop_first i r)"
  unfolding ring_ok_def using drop_first_rising set_drop_first length_drop_first le_trans by (meson subsetD)

lemma entries_remove_in: "entries (remove_in i rs) = drop_first i (entries rs)"
  by (induction i rs rule: remove_in.induct) (auto simp: drop_first_append)

lemma keys_remove_in: "set (map fst (remove_in i rs)) \<subseteq> set (map fst rs)
    \<and> (distinct (map fst rs) \<longrightarrow> distinct (map fst (remove_in i rs)))"
  by (induction i rs rule: remove_in.induct) auto

lemma remove_in_rings: "\<forall>(k, r) \<in> set rs. ring_ok k r \<Longrightarrow> \<forall>(k, r) \<in> set (remove_in i rs). ring_ok k r"
  by (induction i rs rule: remove_in.induct) (auto intro: ring_ok_drop_first)

lemma remove_in_ok: "rings_ok rs \<Longrightarrow> rings_ok (remove_in i rs)"
proof -
  assume ok: "rings_ok rs"
  have "inj_on s_seq (set (entries (remove_in i rs)))"
    unfolding entries_remove_in by (rule inj_on_subset[OF rings_okD(3)[OF ok] set_drop_first])
  moreover have "\<forall>(k, r) \<in> set rs. ring_ok k r" using ok by (simp add: rings_ok_def)
  then have "\<forall>(k, r) \<in> set (remove_in i rs). ring_ok k r" by (rule remove_in_rings)
  ultimately show ?thesis using keys_remove_in[of i rs] rings_okD(1)[OF ok] by (simp add: rings_ok_def)
qed

lemma named_rings_card:
  assumes "distinct (map fst xs)"
  shows "named_rings xs = card {k \<in> fst ` set xs. \<not> unevictable k}"
proof -
  have "length (filter (\<lambda>p. \<not> unevictable (fst p)) xs) = card (fst ` set (filter (\<lambda>p. \<not> unevictable (fst p)) xs))"
    using assms by (metis distinct_card distinct_map_filter length_map set_map)
  moreover have "fst ` set (filter (\<lambda>p. \<not> unevictable (fst p)) xs) = {k \<in> fst ` set xs. \<not> unevictable k}"
    by auto
  ultimately show ?thesis using assms by (simp add: named_rings_filter)
qed

lemma named_rings_mono:
  assumes "distinct (map fst rs)" and "distinct (map fst rs')" and "fst ` set rs' \<subseteq> fst ` set rs"
  shows "named_rings rs' \<le> named_rings rs"
  unfolding named_rings_card[OF assms(1)] named_rings_card[OF assms(2)] using assms(3) by (intro card_mono) auto

lemma remove_ok:
  assumes "hist_ok h"
  shows "hist_ok (snd (remove i h))"
proof -
  note d = hist_okD[OF assms]
  have "named_rings (remove_in i (h_rings h)) \<le> named_rings (h_rings h)"
    using keys_remove_in[of i "h_rings h"] rings_okD(1)[OF d(1)] by (intro named_rings_mono) auto
  then show ?thesis
    using d remove_in_ok[OF d(1)] set_drop_first
    by (fastforce simp: hist_ok_def remove_def entries_remove_in)
qed

lemma distinct_ids: "distinct (map r_ID (Recent h)) \<longleftrightarrow> distinct (map id_of (entries (h_rings h)))"
  using Recent_ids[of h] mset_eq_imp_distinct_iff by blast

lemma Recent_remove:
  assumes "hist_ok h" and "distinct (map r_ID (Recent h))"
  shows "Recent (snd (remove i h)) = filter (\<lambda>x. r_ID x \<noteq> i) (Recent h)"
proof -
  have "newestFirst (snd (remove i h)) = filter (\<lambda>e. id_of e \<noteq> i) (newestFirst h)"
    using assms(2) unfolding distinct_ids
    by (intro newest_unique[OF hist_okD(1)[OF remove_ok[OF assms(1)]]])
       (auto simp: remove_def entries_remove_in drop_first_filter
         intro: sorted_wrt_filter newest_falling hist_okD(1)[OF assms(1)])
  then show ?thesis by (simp add: Recent_def filter_map comp_def)
qed

text \<open>A replacement takes its predecessor's place at the top. Where ids are distinct and the new
  one is fresh, \<open>Replace\<close> answers, the old record is gone without being named in the answer, the
  new one is read first, and nothing else is lost but what the answer names.\<close>

theorem replacement_supersedes:
  assumes "hist_ok h" and "distinct (r_ID r # map r_ID (Recent h))"
  shows "\<exists>gone h'. Replace old r h = Some (gone, h') \<and> hist_ok h' \<and> old \<notin> set gone
     \<and> Recent h' = r # filter (\<lambda>x. r_ID x \<noteq> old \<and> r_ID x \<notin> set gone) (Recent h)"
proof -
  let ?h = "snd (remove old h)"
  note ok = remove_ok[OF assms(1), of old]
  have d: "distinct (map r_ID (Recent h))" using assms(2) by simp
  have R: "Recent ?h = filter (\<lambda>x. r_ID x \<noteq> old) (Recent h)" by (rule Recent_remove[OF assms(1) d])
  have d': "distinct (r_ID r # map r_ID (Recent ?h))"
    using assms(2) unfolding R by (auto simp: distinct_map_filter)
  obtain gone h' where a: "add r ?h = Some (gone, h')" using add_answers[OF ok] by blast
  have ms: "mset (map id_of (entries (h_rings h'))) + mset gone = mset (r_ID r # map r_ID (Recent ?h))"
    by (rule add_rings[OF ok a]) (simp add: Recent_ids[unfolded mset_map] )
  have N: "filter (\<lambda>e. e \<in> set (entries (h_rings h'))) (newestFirst ?h) = filter (\<lambda>e. id_of e \<notin> set gone) (newestFirst ?h)"
    by (rule filter_cong[OF refl]) (rule kept_by_id[OF ok a d'])
  have "Recent h' = r # filter (\<lambda>x. r_ID x \<notin> set gone) (Recent ?h)"
    unfolding Recent_def add_newest[OF ok a] N by (simp add: filter_map comp_def)
  moreover have "old \<notin> set gone" if "old \<noteq> r_ID r"
    using parts_of_distinct(2)[OF ms d'] that unfolding R by auto
  moreover have "r_ID r \<notin> set gone"
  proof -
    have "new_entry r ?h \<in> set (entries (h_rings h'))"
      using arg_cong[OF add_newest[OF ok a], of set] by auto
    then have "r_ID r \<in> set (map id_of (entries (h_rings h')))" by force
    then show ?thesis using parts_of_distinct(1)[OF ms d'] by blast
  qed
  ultimately show ?thesis
    using a add_ok[OF ok a] unfolding Replace_def R filter_filter by (metis (mono_tags, lifting) filter_cong)
qed

lemma dismissed_simps [simp]: "s_seq (dismissed e) = s_seq e" "r_From (s_rec (dismissed e)) = r_From (s_rec e)"
  "id_of (dismissed e) = id_of e" "s_rec (dismissed e) = (s_rec e)\<lparr>r_Dismissed := True\<rparr>"
  by (simp_all add: dismissed_def)

lemma mark_first_append:
  "mark_first i (r @ rs) = (if list_ex (\<lambda>e. id_of e = i) r then mark_first i r @ rs else r @ mark_first i rs)"
  by (induction r) auto

lemma mark_first_keeps:
  "map s_seq (mark_first i r) = map s_seq r" "map id_of (mark_first i r) = map id_of r"
  "map (\<lambda>e. r_From (s_rec e)) (mark_first i r) = map (\<lambda>e. r_From (s_rec e)) r"
  "length (mark_first i r) = length r"
  by (induction r) auto

lemma mark_first_map:
  "distinct (map id_of r) \<Longrightarrow> mark_first i r = map (\<lambda>e. if id_of e = i then dismissed e else e) r"
proof (induction r)
  case (Cons e r)
  have "map (\<lambda>x. if id_of x = i then dismissed x else x) r = r" if "id_of e = i"
    using Cons.prems that by (intro map_idI) (auto simp: image_iff)
  then show ?case using Cons by auto
qed simp

lemma entries_dismiss_in: "entries (dismiss_in i rs) = mark_first i (entries rs)"
proof (induction i rs rule: dismiss_in.induct)
  case (1 i)
  show ?case by simp
next
  case (2 i k r rs)
  then show ?case by (simp add: mark_first_append)
qed

lemma dismiss_in_keys: "map fst (dismiss_in i rs) = map fst rs"
  by (induction i rs rule: dismiss_in.induct) auto

lemma rising_iff: "sorted_wrt (\<lambda>a b. s_seq a < s_seq b) r = sorted_wrt (<) (map s_seq r)"
  by (simp add: sorted_wrt_map)

lemma ring_ok_mark_first: "ring_ok k r \<Longrightarrow> ring_ok k (mark_first i r)"
proof -
  assume ok: "ring_ok k r"
  have "\<forall>x \<in> set (map (\<lambda>e. r_From (s_rec e)) (mark_first i r)). x = k"
    using ok unfolding mark_first_keeps by (simp add: ring_ok_def)
  then have "\<forall>e \<in> set (mark_first i r). r_From (s_rec e) = k" by simp
  moreover have "mark_first i r \<noteq> []" using ok by (cases r) (auto simp: ring_ok_def)
  ultimately show ?thesis
    using ok unfolding ring_ok_def rising_iff mark_first_keeps by blast
qed

lemma dismiss_in_rings: "\<forall>(k, r) \<in> set rs. ring_ok k r \<Longrightarrow> \<forall>(k, r) \<in> set (dismiss_in i rs). ring_ok k r"
  by (induction i rs rule: dismiss_in.induct) (auto intro: ring_ok_mark_first)

lemma rings_ok_map:
  assumes "map fst rs' = map fst rs" and "\<forall>(k, r) \<in> set rs'. ring_ok k r"
    and "map s_seq (entries rs') = map s_seq (entries rs)" and "rings_ok rs"
  shows "rings_ok rs'"
proof -
  have "distinct (entries rs)" "inj_on s_seq (set (entries rs))"
    using entries_distinct[OF assms(4)] rings_okD(3)[OF assms(4)] by blast+
  then have "distinct (map s_seq (entries rs'))" unfolding assms(3) by (simp add: distinct_map)
  then have "inj_on s_seq (set (entries rs'))" by (simp add: distinct_map)
  then show ?thesis using assms(1,2) rings_okD(1)[OF assms(4)] by (simp add: rings_ok_def)
qed

lemma Dismiss_ok:
  assumes "hist_ok h"
  shows "hist_ok (snd (Dismiss i h))"
proof -
  note d = hist_okD[OF assms]
  have seqs: "map s_seq (entries (dismiss_in i (h_rings h))) = map s_seq (entries (h_rings h))"
    by (simp add: entries_dismiss_in mark_first_keeps)
  have "rings_ok (dismiss_in i (h_rings h))"
    by (rule rings_ok_map[OF dismiss_in_keys dismiss_in_rings seqs d(1)])
       (use d(1) in \<open>simp add: rings_ok_def\<close>)
  moreover have "named_rings (dismiss_in i (h_rings h)) = named_rings (h_rings h)"
    unfolding named_rings_def using dismiss_in_keys[of i "h_rings h"] by (metis length_map set_map)
  moreover have "h_back h \<le> s \<and> s \<le> h_seq h \<and> s \<noteq> 0"
    if "s \<in> set (map s_seq (entries (dismiss_in i (h_rings h))))" for s
    using that d(5) unfolding seqs by auto
  ultimately show ?thesis using d by (auto simp: hist_ok_def Dismiss_def)
qed

lemma Find_Recent:
  assumes "hist_ok h" and "distinct (map r_ID (Recent h))"
  shows "Find i h = Some x \<longleftrightarrow> x \<in> set (Recent h) \<and> r_ID x = i"
proof -
  let ?es = "entries (h_rings h)"
  have "(\<exists>e. List.find (\<lambda>e. id_of e = i) ?es = Some e \<and> s_rec e = x) \<longleftrightarrow> (\<exists>e \<in> set ?es. s_rec e = x \<and> r_ID x = i)"
  proof
    assume "\<exists>e. List.find (\<lambda>e. id_of e = i) ?es = Some e \<and> s_rec e = x"
    then show "\<exists>e \<in> set ?es. s_rec e = x \<and> r_ID x = i" by (auto simp: find_Some_iff)
  next
    assume "\<exists>e \<in> set ?es. s_rec e = x \<and> r_ID x = i"
    then obtain e where e: "e \<in> set ?es" "s_rec e = x" "r_ID x = i" by blast
    then obtain e' where e': "List.find (\<lambda>e. id_of e = i) ?es = Some e'"
      by (metis (mono_tags, lifting) find_None_iff not_None_eq)
    then have "e' \<in> set ?es" "id_of e' = i" by (auto simp: find_Some_iff)
    then have "e' = e" using e assms(2) unfolding distinct_ids by (metis distinct_map inj_onD)
    then show "\<exists>e. List.find (\<lambda>e. id_of e = i) ?es = Some e \<and> s_rec e = x" using e' e(2) by blast
  qed
  then show ?thesis by (auto simp: Find_def Recent_def entries_def)
qed

text \<open>Dismissing marks one record and moves none. Where ids are distinct, \<open>Dismiss\<close> says whether
  the id is there, the list that is read keeps its order and every other record, the one record is
  marked as not waiting, \<open>Find\<close> then answers with it marked, and the revision moves exactly
  when something was marked.\<close>

theorem dismiss_marks_one:
  assumes "hist_ok h" and "distinct (map r_ID (Recent h))"
  shows "hist_ok (snd (Dismiss i h))
    \<and> fst (Dismiss i h) = (i \<in> r_ID ` set (Recent h))
    \<and> Recent (snd (Dismiss i h)) = map (\<lambda>x. if r_ID x = i then x\<lparr>r_Dismissed := True\<rparr> else x) (Recent h)
    \<and> Find i (snd (Dismiss i h)) = map_option (\<lambda>x. x\<lparr>r_Dismissed := True\<rparr>) (Find i h)
    \<and> Rev (snd (Dismiss i h)) = Rev h + (if fst (Dismiss i h) then 1 else 0)"
proof -
  let ?h = "snd (Dismiss i h)" and ?mark = "\<lambda>e. if id_of e = i then dismissed e else e"
  have holds: "holds_id i (h_rings h) = (i \<in> r_ID ` set (Recent h))"
    by (force simp: holds_id_def list_ex_iff Recent_def set_entries)
  have ents: "entries (h_rings ?h) = map ?mark (entries (h_rings h))"
  proof (cases "holds_id i (h_rings h)")
    case True
    then show ?thesis using assms(2) unfolding distinct_ids
      by (simp add: Dismiss_def entries_dismiss_in mark_first_map)
  next
    case False
    then have "id_of e \<noteq> i" if "e \<in> set (entries (h_rings h))" for e
      using that by (fastforce simp: holds_id_def list_ex_iff set_entries)
    then show ?thesis using False by (simp add: Dismiss_def map_idI)
  qed
  have "newestFirst ?h = map ?mark (newestFirst h)"
  proof (rule newest_unique[OF hist_okD(1)[OF Dismiss_ok[OF assms(1)]]])
    have "later (?mark a) (?mark b) = later a b" for a b by (simp add: later_def)
    then show "sorted_wrt later (map ?mark (newestFirst h))"
      using newest_falling[OF hist_okD(1)[OF assms(1)]] by (simp add: sorted_wrt_map)
  qed (simp add: ents)
  then have R: "Recent ?h = map (\<lambda>x. if r_ID x = i then x\<lparr>r_Dismissed := True\<rparr> else x) (Recent h)"
    by (simp add: Recent_def comp_def)
  have d': "distinct (map r_ID (Recent ?h))"
    using assms(2) unfolding R by (simp add: comp_def if_distrib cong: if_cong)
  have "Find i ?h = map_option (\<lambda>x. x\<lparr>r_Dismissed := True\<rparr>) (Find i h)"
  proof (cases "Find i h")
    case None
    then have "\<not> (\<exists>x. Find i ?h = Some x)"
      using Find_Recent[OF Dismiss_ok[OF assms(1)] d', of i] Find_Recent[OF assms, of i] unfolding R by auto
    then show ?thesis using None by simp
  next
    case (Some x)
    then have "x \<in> set (Recent h)" "r_ID x = i" using Find_Recent[OF assms] by auto
    then have "Find i ?h = Some (x\<lparr>r_Dismissed := True\<rparr>)"
      unfolding Find_Recent[OF Dismiss_ok[OF assms(1)] d'] R by force
    then show ?thesis using Some by simp
  qed
  moreover have "fst (Dismiss i h) = (i \<in> r_ID ` set (Recent h))"
    and "Rev ?h = Rev h + (if fst (Dismiss i h) then 1 else 0)"
    using holds by (simp_all add: Dismiss_def Rev_def)
  ultimately show ?thesis using Dismiss_ok[OF assms(1)] R by blast
qed

section \<open>Putting a snapshot back\<close>

lemma senders_of_aux:
  "distinct order \<Longrightarrow>
     distinct (fold (\<lambda>r order. if r_From r \<in> set order then order else order @ [r_From r]) records order)
   \<and> set (fold (\<lambda>r order. if r_From r \<in> set order then order else order @ [r_From r]) records order)
     = set order \<union> r_From ` set records"
  by (induction records arbitrary: order) auto

lemma senders_of_facts [simp]: "distinct (senders_of records)" "set (senders_of records) = r_From ` set records"
  using senders_of_aux[of "[]" records] by (auto simp: senders_of_def)

lemma numbered_recs: "map s_rec (numbered sq records) = records"
  by (induction records arbitrary: sq) auto

lemma numbered_seqs:
  "e \<in> set (numbered sq records) \<Longrightarrow> sq \<le> s_seq e \<and> s_seq e < sq + int (length records)"
  by (induction records arbitrary: sq) force+

lemma numbered_rising: "sorted_wrt (\<lambda>a b. s_seq a < s_seq b) (numbered sq records)"
  by (induction records arbitrary: sq) (fastforce dest: numbered_seqs)+

definition file_entries :: "arrival list \<Rightarrow> history \<Rightarrow> stored list" where
  "file_entries records h = numbered (h_back h - int (length records)) records"

definition rings_restored :: "arrival list \<Rightarrow> history \<Rightarrow> rings" where
  "rings_restored records h = fold (file_under (file_entries records h)) (senders_of records) (h_rings h)"

abbreviation of_sender :: "string \<Rightarrow> stored list \<Rightarrow> stored list" where
  "of_sender s es \<equiv> filter (\<lambda>e. r_From (s_rec e) = s) es"

lemma file_under_fold:
  assumes "distinct ss" and "distinct (map fst rs)"
  shows "aget [] (fold (file_under es) ss rs) k =
           (if k \<in> set ss then prepend (of_sender k es) (aget [] rs k) else aget [] rs k)"
    and "fst ` set (fold (file_under es) ss rs) = set ss \<union> fst ` set rs"
    and "distinct (map fst (fold (file_under es) ss rs))"
proof -
  show "aget [] (fold (file_under es) ss rs) k =
           (if k \<in> set ss then prepend (of_sender k es) (aget [] rs k) else aget [] rs k)"
    using assms(1) by (induction ss arbitrary: rs) (auto simp: file_under_def)
  show "fst ` set (fold (file_under es) ss rs) = set ss \<union> fst ` set rs"
    by (induction ss arbitrary: rs) (auto simp: file_under_def)
  show "distinct (map fst (fold (file_under es) ss rs))"
    using assms(2) by (induction ss arbitrary: rs) (auto simp: file_under_def distinct_update)
qed

lemma prepend_drop: "prepend es r = drop (length es + length r - PerSenderMax) (es @ r)"
  by (simp add: prepend_def Let_def)

lemma restored_rings:
  assumes "hist_ok h"
  shows "aget [] (rings_restored records h) k =
           prepend (of_sender k (file_entries records h)) (aget [] (h_rings h) k)"
    and "fst ` set (rings_restored records h) = r_From ` set records \<union> fst ` set (h_rings h)"
    and "distinct (map fst (rings_restored records h))"
proof -
  note d = rings_okD(1)[OF hist_okD(1)[OF assms]]
  note f = file_under_fold[where es = "file_entries records h", OF senders_of_facts(1)[of records] d]
  have "of_sender k (file_entries records h) = []" if "k \<notin> r_From ` set records"
  proof -
    have "r_From (s_rec e) \<noteq> k" if "e \<in> set (file_entries records h)" for e
      using arg_cong[OF numbered_recs, of set] that \<open>k \<notin> _\<close> unfolding file_entries_def by fastforce
    then show ?thesis by (simp add: filter_empty_conv)
  qed
  moreover have "prepend [] (aget [] (h_rings h) k) = aget [] (h_rings h) k"
    using aget_ok[OF hist_okD(1)[OF assms], of k] by (auto simp: prepend_drop ring_ok_def)
  ultimately show "aget [] (rings_restored records h) k =
      prepend (of_sender k (file_entries records h)) (aget [] (h_rings h) k)"
    using f(1)[of k] by (auto simp: rings_restored_def)
  show "fst ` set (rings_restored records h) = r_From ` set records \<union> fst ` set (h_rings h)"
    and "distinct (map fst (rings_restored records h))"
    using f(2,3) by (simp_all add: rings_restored_def)
qed

lemma file_entries_facts:
  assumes "e \<in> set (file_entries records h)"
  shows "h_back h - int (length records) \<le> s_seq e" and "s_seq e < h_back h" and "s_rec e \<in> set records"
  using numbered_seqs[OF assms[unfolded file_entries_def]]
    arg_cong[OF numbered_recs[of "h_back h - int (length records)" records], of set] assms
  unfolding file_entries_def by auto

lemma rising_append:
  assumes "hist_ok h"
  shows "sorted_wrt (\<lambda>a b. s_seq a < s_seq b) (of_sender k (file_entries records h) @ aget [] (h_rings h) k)"
proof -
  have "s_seq a < s_seq b" if "a \<in> set (file_entries records h)" "b \<in> set (aget [] (h_rings h) k)" for a b
    using file_entries_facts(2)[OF that(1)] hist_okD(5)[OF assms, of b] entries_aget[OF hist_okD(1)[OF assms]] that(2)
    by fastforce
  moreover have "sorted_wrt (\<lambda>a b. s_seq a < s_seq b) (aget [] (h_rings h) k)"
    using aget_ok[OF hist_okD(1)[OF assms], of k] by (auto simp: ring_ok_def)
  ultimately show ?thesis
    using sorted_wrt_filter[OF numbered_rising] by (simp add: sorted_wrt_append file_entries_def)
qed

lemma entries_of_aget:
  assumes "distinct (map fst rs)" and "e \<in> set (entries rs)"
  obtains k where "k \<in> fst ` set rs" and "e \<in> set (aget [] rs k)"
proof -
  obtain k r where k: "(k, r) \<in> set rs" "e \<in> set r" using assms(2) unfolding set_entries by blast
  then have "aget [] rs k = r" by (intro aget_in[OF assms(1)])
  then show ?thesis using that[of k] k by force
qed

lemma rings_okI:
  assumes "distinct (map fst rs)" and "\<And>k. k \<in> fst ` set rs \<Longrightarrow> ring_ok k (aget [] rs k)"
    and "set (entries rs) \<subseteq> S" and "inj_on s_seq S"
  shows "rings_ok rs"
proof -
  have "ring_ok k r" if "(k, r) \<in> set rs" for k r
    using assms(2)[of k] aget_in[OF assms(1) that] that by force
  then show ?thesis using assms(1) inj_on_subset[OF assms(4,3)] by (auto simp: rings_ok_def)
qed

lemma prepend_subset: "set (prepend es r) \<subseteq> set es \<union> set r"
  unfolding prepend_drop using set_drop_subset[of "length es + length r - PerSenderMax" "es @ r"]
  by (simp only: set_append)

lemma prepend_nonempty: "es @ r \<noteq> [] \<Longrightarrow> prepend es r \<noteq> []"
proof -
  assume "es @ r \<noteq> []"
  then have "0 < length (es @ r)" unfolding length_greater_0_conv .
  then have "0 < length (prepend es r)" unfolding prepend_drop length_drop by (simp add: PerSenderMax_def)
  then show ?thesis by auto
qed

lemma of_sender_some:
  "k \<in> r_From ` set records \<Longrightarrow> of_sender k (file_entries records h) \<noteq> []"
proof -
  assume "k \<in> r_From ` set records"
  then have "k \<in> r_From ` set (map s_rec (file_entries records h))"
    by (simp only: file_entries_def numbered_recs)
  then show ?thesis by (auto simp: filter_empty_conv)
qed

lemma restored_ring_ok:
  assumes "hist_ok h" and "k \<in> fst ` set (rings_restored records h)"
  shows "ring_ok k (aget [] (rings_restored records h) k)"
proof -
  let ?es = "of_sender k (file_entries records h)" and ?r = "aget [] (h_rings h) k"
  have r: "?r = [] \<or> ring_ok k ?r" by (rule aget_ok[OF hist_okD(1)[OF assms(1)]])
  have "?es @ ?r \<noteq> []"
    using assms(2) of_sender_some[of k records h] aget_there[of k "h_rings h" "[]"]
      rings_okD(2)[OF hist_okD(1)[OF assms(1)], of k ?r]
    unfolding restored_rings(2)[OF assms(1)] by (auto simp: ring_ok_def)

  then have ne: "prepend ?es ?r \<noteq> []" using prepend_nonempty by blast
  have "length (prepend ?es ?r) \<le> PerSenderMax" by (simp add: prepend_drop)
  moreover have "r_From (s_rec e) = k" if "e \<in> set (prepend ?es ?r)" for e
    using subsetD[OF prepend_subset that] aget_From[OF hist_okD(1)[OF assms(1)]] by auto
  moreover have "sorted_wrt (\<lambda>a b. s_seq a < s_seq b) (prepend ?es ?r)"
    unfolding prepend_drop by (rule sorted_wrt_drop[OF rising_append[OF assms(1)]])
  ultimately show ?thesis using ne unfolding restored_rings(1)[OF assms(1)] ring_ok_def by blast
qed

lemma restored_entries:
  assumes "hist_ok h"
  shows "set (entries (rings_restored records h)) \<subseteq> set (file_entries records h) \<union> set (entries (h_rings h))"
proof
  fix e assume "e \<in> set (entries (rings_restored records h))"
  then obtain k where "e \<in> set (aget [] (rings_restored records h) k)"
    using entries_of_aget[OF restored_rings(3)[OF assms]] by blast
  then have "e \<in> set (of_sender k (file_entries records h)) \<union> set (aget [] (h_rings h) k)"
    unfolding restored_rings(1)[OF assms] using prepend_subset by blast
  then show "e \<in> set (file_entries records h) \<union> set (entries (h_rings h))"
    using entries_aget[OF hist_okD(1)[OF assms]] by auto
qed

lemma inj_all:
  assumes "hist_ok h"
  shows "inj_on s_seq (set (file_entries records h) \<union> set (entries (h_rings h)))"
proof -
  have "inj_on s_seq (set (file_entries records h))"
    using numbered_rising unfolding file_entries_def
    by (metis distinct_map rising_iff strict_sorted_iff)
  moreover have "s_seq a \<noteq> s_seq b" if "a \<in> set (file_entries records h)" "b \<in> set (entries (h_rings h))" for a b
    using file_entries_facts(2)[OF that(1)] hist_okD(5)[OF assms that(2)] by simp
  ultimately show ?thesis using rings_okD(3)[OF hist_okD(1)[OF assms]] by (fastforce simp: inj_on_def)
qed

lemma restored_ok:
  assumes "hist_ok h"
  shows "rings_ok (rings_restored records h)"
  by (rule rings_okI[OF restored_rings(3) restored_ring_ok restored_entries inj_all])
     (use assms in auto)

lemma Restore_result:
  assumes "hist_ok h" and "records \<noteq> []"
  obtains D where "Restore records h = Some (h\<lparr>h_rings := filter (\<lambda>p. fst p \<notin> D) (rings_restored records h),
      h_back := h_back h - int (length records), h_rev := h_rev h + 1\<rparr>)"
    and "named_rings (filter (\<lambda>p. fst p \<notin> D) (rings_restored records h)) \<le> SendersMax"
    and "named_rings (rings_restored records h) \<le> SendersMax \<Longrightarrow> D = {}"
    and "\<And>s. s \<in> D \<Longrightarrow> \<not> unevictable s"
proof -
  obtain gone ks where d: "dropExtraSenders nobody (rings_restored records h) =
      Some (gone, filter (\<lambda>p. fst p \<notin> set ks) (rings_restored records h))"
    "set ks \<subseteq> fst ` set (evictable nobody (rings_restored records h))"
    "named_rings (filter (\<lambda>p. fst p \<notin> set ks) (rings_restored records h)) \<le> SendersMax"
    "named_rings (rings_restored records h) \<le> SendersMax \<longrightarrow> ks = []"
    using drop_result[OF restored_rings(3)[OF assms(1)], of nobody records] by blast
  have "Restore records h = Some (h\<lparr>h_rings := filter (\<lambda>p. fst p \<notin> set ks) (rings_restored records h),
      h_back := h_back h - int (length records), h_rev := h_rev h + 1\<rparr>)"
    using assms(2) d(1) by (simp add: Restore_def Let_def rings_restored_def file_entries_def)
  moreover have "\<not> unevictable s" if "s \<in> set ks" for s using d(2) that by (auto simp: evictable_def)
  ultimately show ?thesis using that[of "set ks"] d(3,4) by auto
qed

lemma Restore_ok:
  assumes "hist_ok h" and "Restore records h = Some h'"
  shows "hist_ok h'"
proof (cases "records = []")
  case True
  then show ?thesis using assms by (simp add: Restore_def)
next
  case False
  obtain D where D: "Restore records h = Some (h\<lparr>h_rings := filter (\<lambda>p. fst p \<notin> D) (rings_restored records h),
      h_back := h_back h - int (length records), h_rev := h_rev h + 1\<rparr>)"
    "named_rings (filter (\<lambda>p. fst p \<notin> D) (rings_restored records h)) \<le> SendersMax"
    by (rule Restore_result[OF assms(1) False])
  note ok = restored_ok[OF assms(1), of records]
  note d = hist_okD[OF assms(1)]
  have "h_back h - int (length records) \<le> s_seq e \<and> s_seq e \<le> h_seq h \<and> s_seq e \<noteq> 0"
    if "e \<in> set (entries (filter (\<lambda>p. fst p \<notin> D) (rings_restored records h)))" for e
  proof -
    have "e \<in> set (file_entries records h) \<union> set (entries (h_rings h))"
      using restored_entries[OF assms(1)] entries_filter_subset that by blast
    then show ?thesis
    proof
      assume "e \<in> set (file_entries records h)"
      then show ?thesis using file_entries_facts(1,2)[of e records h] d(3,4) by simp
    next
      assume "e \<in> set (entries (h_rings h))"
      then show ?thesis using d(5)[of e] by simp
    qed
  qed
  then show ?thesis
    using D assms(2) filter_rings_ok[OF ok] d(3,4) by (auto simp: hist_ok_def)
qed

lemma restored_rows:
  assumes "hist_ok h"
  shows "rev (map s_rec (aget [] (rings_restored records h) s)) =
    take PerSenderMax (rows_of s h @ rev (filter (\<lambda>r. r_From r = s) records))"
proof -
  let ?all = "of_sender s (file_entries records h) @ aget [] (h_rings h) s"
  have "map s_rec (of_sender s (file_entries records h)) = filter (\<lambda>r. r_From r = s) (map s_rec (file_entries records h))"
    by (simp add: filter_map comp_def)
  then have es: "map s_rec (of_sender s (file_entries records h)) = filter (\<lambda>r. r_From r = s) records"
    by (simp only: file_entries_def numbered_recs)
  have "rev (map s_rec (drop (length ?all - PerSenderMax) ?all)) = take PerSenderMax (rev (map s_rec ?all))"
    by (cases "length ?all \<le> PerSenderMax") (simp_all only: drop_map[symmetric] rev_drop length_map diff_is_0_eq' drop_0 take_all
        length_rev diff_diff_cancel nat_le_linear)
  moreover have "rev (map s_rec ?all) = rows_of s h @ rev (filter (\<lambda>r. r_From r = s) records)"
    using rows_ring[OF hist_okD(1)[OF assms], of s] es by simp
  ultimately show ?thesis unfolding restored_rings(1)[OF assms] prepend_drop by (simp only: length_append)
qed

lemma restored_newest:
  assumes "hist_ok h" and "hist_ok h'" and "h_rings h' = filter (\<lambda>p. fst p \<notin> D) (rings_restored records h)"
  shows "newestFirst h' = filter (\<lambda>e. e \<in> set (entries (h_rings h'))) (newestFirst h)
     @ filter (\<lambda>e. e \<in> set (entries (h_rings h'))) (rev (file_entries records h))"
proof (rule newest_unique[OF hist_okD(1)[OF assms(2)]])
  have "later a b" if "a \<in> set (newestFirst h)" "b \<in> set (file_entries records h)" for a b
    using file_entries_facts(2)[OF that(2)] hist_okD(5)[OF assms(1), of a] that(1) by (simp add: later_def)
  moreover have "sorted_wrt later (rev (file_entries records h))"
    using numbered_rising by (simp add: sorted_wrt_rev later_def file_entries_def)
  ultimately show "sorted_wrt later (filter (\<lambda>e. e \<in> set (entries (h_rings h'))) (newestFirst h)
     @ filter (\<lambda>e. e \<in> set (entries (h_rings h'))) (rev (file_entries records h)))"
    using newest_falling[OF hist_okD(1)[OF assms(1)]]
    by (auto simp: sorted_wrt_append intro: sorted_wrt_filter)
  have "set (entries (h_rings h')) \<subseteq> set (file_entries records h) \<union> set (entries (h_rings h))"
    unfolding assms(3) using entries_filter_subset restored_entries[OF assms(1)] by blast
  then show "set (filter (\<lambda>e. e \<in> set (entries (h_rings h'))) (newestFirst h)
     @ filter (\<lambda>e. e \<in> set (entries (h_rings h'))) (rev (file_entries records h))) = set (entries (h_rings h'))"
    by auto
qed

text \<open>The names a history and a file would hold together, as the bound counts them.\<close>

definition names_with :: "arrival list \<Rightarrow> history \<Rightarrow> string set" where
  "names_with records h = {s \<in> r_From ` (set records \<union> set (Recent h)). \<not> unevictable s}"

lemma restore_parts:
  assumes "hist_ok h"
  shows "\<exists>h' live old. Restore records h = Some h' \<and> hist_ok h'
     \<and> Recent h' = live @ old \<and> subseq live (Recent h) \<and> subseq old (rev records)
     \<and> (\<forall>s. rows_of s h' = take PerSenderMax (rows_of s h @ rev (filter (\<lambda>r. r_From r = s) records))
          \<or> rows_of s h' = [] \<and> \<not> unevictable s \<and> SendersMax < card (names_with records h))"
proof (cases "records = []")
  case True
  have "length (rows_of s h) \<le> PerSenderMax" for s
    using aget_ok[OF hist_okD(1)[OF assms], of s]
    by (auto simp: rows_ring[OF hist_okD(1)[OF assms]] ring_ok_def)
  then show ?thesis using True assms by (intro exI[of _ h] exI[of _ "Recent h"] exI[of _ "[]"]) (simp add: Restore_def)
next
  case False
  obtain D where D: "Restore records h = Some (h\<lparr>h_rings := filter (\<lambda>p. fst p \<notin> D) (rings_restored records h),
      h_back := h_back h - int (length records), h_rev := h_rev h + 1\<rparr>)"
    "named_rings (rings_restored records h) \<le> SendersMax \<Longrightarrow> D = {}"
    "\<And>s. s \<in> D \<Longrightarrow> \<not> unevictable s"
    by (rule Restore_result[OF assms False]) blast
  define h' where "h' = h\<lparr>h_rings := filter (\<lambda>p. fst p \<notin> D) (rings_restored records h),
      h_back := h_back h - int (length records), h_rev := h_rev h + 1\<rparr>"
  have R: "Restore records h = Some h'" using D(1) by (simp add: h'_def)
  have ok': "hist_ok h'" by (rule Restore_ok[OF assms R])
  have rings: "h_rings h' = filter (\<lambda>p. fst p \<notin> D) (rings_restored records h)" by (simp add: h'_def)
  let ?in = "\<lambda>e. e \<in> set (entries (h_rings h'))"
  have "Recent h' = map s_rec (filter ?in (newestFirst h)) @ map s_rec (filter ?in (rev (file_entries records h)))"
    unfolding Recent_def restored_newest[OF assms ok' rings] by simp
  moreover have "subseq (map s_rec (filter ?in (newestFirst h))) (Recent h)"
    unfolding Recent_def by (intro subseq_map) simp
  moreover have "map s_rec (rev (file_entries records h)) = rev records"
    by (simp add: file_entries_def numbered_recs flip: rev_map)
  then have "subseq (map s_rec (filter ?in (rev (file_entries records h)))) (rev records)"
    by (metis subseq_filter_left subseq_map)
  moreover have "rows_of s h' = take PerSenderMax (rows_of s h @ rev (filter (\<lambda>r. r_From r = s) records))
      \<or> rows_of s h' = [] \<and> \<not> unevictable s \<and> SendersMax < card (names_with records h)" for s
  proof (cases "s \<in> D")
    case True
    have "names_with records h = {k \<in> fst ` set (rings_restored records h). \<not> unevictable k}"
      unfolding restored_rings(2)[OF assms] names_with_def senders_present[OF assms] by auto
    then have "card (names_with records h) = named_rings (rings_restored records h)"
      using named_rings_card[OF restored_rings(3)[OF assms], of records] by simp
    then have "SendersMax < card (names_with records h)" using D(2) True by fastforce
    then show ?thesis
      using rows_ring[OF hist_okD(1)[OF ok'], of s] True D(3)[OF True] by (simp add: rings aget_filter)
  next
    case False
    then show ?thesis
      using rows_ring[OF hist_okD(1)[OF ok'], of s] restored_rows[OF assms, of records s]
      by (simp only: rings aget_filter if_False simp_thms)
  qed
  ultimately show ?thesis using R ok' by blast
qed

text \<open>A restored snapshot goes behind everything this session received. \<open>Restore\<close> answers
  from every history that keeps its invariant and keeps it; what is read afterwards is live
  records in the order they were, then records of the file newest first, and nothing else;
  a sender's rows are its live ones followed by the file's, cut at thirty from the old end,
  unless the sender went whole; and no sender goes while the names fit in the bound.\<close>

theorem restore_goes_behind:
  assumes "hist_ok h"
  shows "\<exists>h' live old. Restore records h = Some h' \<and> hist_ok h'
     \<and> Recent h' = live @ old \<and> subseq live (Recent h) \<and> subseq old (rev records)
     \<and> (\<forall>s. rows_of s h' = take PerSenderMax (rows_of s h @ rev (filter (\<lambda>r. r_From r = s) records))
          \<or> rows_of s h' = [] \<and> \<not> unevictable s \<and> SendersMax < card (names_with records h))"
  by (rule restore_parts[OF assms])

lemma restore_goes_behind_witness:
  "\<exists>h' live old. Restore [sample 7 ''mail''] empty_history = Some h' \<and> hist_ok h' \<and> Recent h' = live @ old
     \<and> subseq old [sample 7 ''mail'']"
  using restore_goes_behind [OF empty_ok, of "[sample 7 ''mail'']"] by auto

lemma restore_answers: "hist_ok h \<Longrightarrow> \<exists>h'. Restore records h = Some h'"
proof (cases "records = []")
  case True
  then show ?thesis by (simp add: Restore_def)
next
  case False
  assume "hist_ok h"
  then show ?thesis by (rule Restore_result[OF _ False]) blast
qed

section \<open>Reachable histories\<close>

inductive hist_step :: "history \<Rightarrow> history \<Rightarrow> bool" where
  arrives: "Add r h = Some (gone, h') \<Longrightarrow> hist_step h h'"
| replaces: "Replace old r h = Some (gone, h') \<Longrightarrow> hist_step h h'"
| dismisses: "hist_step h (snd (Dismiss i h))"
| restores: "Restore records h = Some h' \<Longrightarrow> hist_step h h'"

inductive hist_reached :: "history \<Rightarrow> bool" where
  start: "hist_reached empty_history"
| step: "hist_reached h \<Longrightarrow> hist_step h h' \<Longrightarrow> hist_reached h'"

lemma Add_ok: "hist_ok h \<Longrightarrow> Add r h = Some (gone, h') \<Longrightarrow> hist_ok h'"
  unfolding Add_def by (rule add_ok)

lemma Replace_ok: "hist_ok h \<Longrightarrow> Replace old r h = Some (gone, h') \<Longrightarrow> hist_ok h'"
  unfolding Replace_def by (rule add_ok[OF remove_ok])

lemma hist_step_ok: "hist_step h h' \<Longrightarrow> hist_ok h \<Longrightarrow> hist_ok h'"
  by (induction rule: hist_step.induct) (auto intro: Add_ok Replace_ok Dismiss_ok Restore_ok)

lemma hist_reached_ok: "hist_reached h \<Longrightarrow> hist_ok h"
  by (induction rule: hist_reached.induct) (auto intro: empty_ok hist_step_ok)

lemma length_entries:
  "\<forall>(k, r) \<in> set rs. length r \<le> n \<Longrightarrow> length (entries rs) \<le> length rs * n"
proof (induction rs)
  case (Cons p rs)
  then show ?case by (cases p) fastforce
qed simp

lemma rows_bounded: "hist_ok h \<Longrightarrow> length (rows_of s h) \<le> PerSenderMax"
  using aget_ok[OF hist_okD(1), where k = s] rows_ring[OF hist_okD(1)] by (fastforce simp: ring_ok_def)

lemma hist_ok_bounds:
  assumes "hist_ok h"
  shows "length (Recent h) \<le> 420"
proof -
  let ?rs = "h_rings h"
  note d = rings_okD[OF hist_okD(1)[OF assms]]
  have "length (filter (\<lambda>ours. ours \<in> fst ` set ?rs) [nobody, SelfFrom]) \<le> 2"
    using length_filter_le[of _ "[nobody, SelfFrom]"] by simp
  then have "length ?rs \<le> SendersMax + 2"
    using hist_okD(2)[OF assms] unfolding named_rings_def by linarith
  moreover have "length (entries ?rs) \<le> length ?rs * PerSenderMax"
    using d(2) by (intro length_entries) (auto simp: ring_ok_def)
  ultimately have "length (entries ?rs) \<le> (SendersMax + 2) * PerSenderMax"
    using mult_le_mono1 le_trans by blast
  then show ?thesis by (simp add: Recent_def newestFirst_later SendersMax_def PerSenderMax_def)
qed

text \<open>C4: the history is bounded whatever is sent to it. In every state reached from the empty
  history by arrivals, replacements, dismissals and restored snapshots, no sender has more than
  thirty rows, at most twelve names beside the two reserved ones have any, there are at most 420
  rows, and no operation panics on the next arrival.\<close>

theorem history_bounded:
  assumes "hist_reached h"
  shows "length (Recent h) \<le> 420 \<and> length (rows_of s h) \<le> PerSenderMax
    \<and> card {s \<in> r_From ` set (Recent h). \<not> unevictable s} \<le> SendersMax
    \<and> Add r h \<noteq> None \<and> Replace old r h \<noteq> None \<and> Restore records h \<noteq> None"
proof -
  note ok = hist_reached_ok[OF assms]
  have "card {s \<in> r_From ` set (Recent h). \<not> unevictable s} \<le> SendersMax"
    using named_rings_card[OF rings_okD(1)[OF hist_okD(1)[OF ok]]] hist_okD(2)[OF ok] senders_present[OF ok]
    by simp
  moreover have "Add r h \<noteq> None" "Replace old r h \<noteq> None"
    using add_answers[OF ok, of r] add_answers[OF remove_ok[OF ok, of old], of r] by (auto simp: Add_def Replace_def)
  moreover have "Restore records h \<noteq> None"
    using restore_answers[OF ok, of records] by blast
  ultimately show ?thesis using hist_ok_bounds[OF ok] rows_bounded[OF ok, of s] by blast
qed

lemma history_bounded_witness:
  "\<exists>h. hist_reached h \<and> length (rows_of ''mail'' h) \<le> PerSenderMax"
  using history_bounded [OF hist_reached.start, where s = "''mail''"] hist_reached.start by blast

lemma one_arrival: "\<exists>h. hist_ok h \<and> Recent h = [sample 1 ''mail'']"
proof -
  obtain gone h where a: "add (sample 1 ''mail'') empty_history = Some (gone, h)"
    using add_answers[OF empty_ok] by blast
  have "newestFirst empty_history = []" by (simp add: newestFirst_def empty_history_def)
  then have "Recent h = [sample 1 ''mail'']"
    unfolding Recent_def add_newest[OF empty_ok a] by simp
  then show ?thesis using add_ok[OF empty_ok a] by blast
qed

lemma replacement_supersedes_witness:
  "\<exists>h gone h'. Recent h = [sample 1 ''mail''] \<and> Replace 1 (sample 2 ''mail'') h = Some (gone, h')
     \<and> Recent h' = [sample 2 ''mail'']"
proof -
  obtain h where h: "hist_ok h" "Recent h = [sample 1 ''mail'']" using one_arrival by blast
  then have "distinct (r_ID (sample 2 ''mail'') # map r_ID (Recent h))" by (simp add: sample_def)
  then show ?thesis
    using replacement_supersedes [OF h(1), of "sample 2 ''mail''" 1] h(2) by (auto simp: sample_def)
qed

lemma dismiss_marks_one_witness:
  "\<exists>h. Recent h = [sample 1 ''mail''] \<and> fst (Dismiss 1 h)
     \<and> Recent (snd (Dismiss 1 h)) = [(sample 1 ''mail'')\<lparr>r_Dismissed := True\<rparr>]"
proof -
  obtain h where h: "hist_ok h" "Recent h = [sample 1 ''mail'']" using one_arrival by blast
  then show ?thesis
    using dismiss_marks_one [OF h(1), of 1] by (auto simp: sample_def)
qed

end
