(* ===== verification/Attn_Snapshot.thy ===== *)
theory Attn_Snapshot
  imports Attn_History
begin

text \<open>
  The part of the history that outlives the daemon (\<open>internal/attn/snapshot.go\<close>): what is
  written down, how the file is replaced, and what is believed of a file that is read back.
  The file is its size and what \<open>encoding/json\<close> makes of it; the size of an encoding is a
  parameter. \<open>Private\<close> is the one field that is never encoded.
\<close>

section \<open>What is written\<close>

definition snapshotMax :: nat where "snapshotMax = 40"
definition snapshotBodyMax :: nat where "snapshotBodyMax = 400"
definition snapshotBytesMax :: nat where "snapshotBytesMax = 1048576"
definition snapshotVersion :: int where "snapshotVersion = 1"

definition clip :: "unicode \<Rightarrow> string \<Rightarrow> string \<times> bool" where
  "clip u body = (clean u body snapshotBodyMax True, snapshotBodyMax < length (runes_of body))"

definition written_record :: "unicode \<Rightarrow> arrival \<Rightarrow> arrival" where
  "written_record u r =
     (case clip u (r_Body r) of (body, short) \<Rightarrow>
        r\<lparr>r_Body := body, r_Clipped := r_Clipped r \<or> short, r_Actions := [], r_Extra := 0\<rparr>)"

fun snapshot_loop :: "unicode \<Rightarrow> stored list \<Rightarrow> arrival list \<Rightarrow> arrival list" where
  "snapshot_loop u [] out = out"
| "snapshot_loop u (e # es) out =
     (if snapshotMax \<le> length out then out
      else if r_Private (s_rec e) then snapshot_loop u es out
      else snapshot_loop u es (out @ [written_record u (s_rec e)]))"

definition Snapshot :: "unicode \<Rightarrow> history \<Rightarrow> arrival list" where
  "Snapshot u h = rev (snapshot_loop u (newestFirst h) [])"

section \<open>The file\<close>

datatype disk =
    NoFile
  | NotAFile
  | Unparsed nat
  | Parsed nat int "arrival list"

datatype read_error = CannotOpen | TooLarge | NotASnapshot | OtherVersion int

fun json_action :: "action \<Rightarrow> action" where
  "json_action a = a\<lparr>Key := json_string (Key a), ActionLabel := json_string (ActionLabel a)\<rparr>"

definition json_record :: "arrival \<Rightarrow> arrival" where
  "json_record r = r\<lparr>r_From := json_string (r_From r), r_Text := json_string (r_Text r),
     r_Body := json_string (r_Body r), r_Desk := json_string (r_Desk r),
     r_Actions := map json_action (r_Actions r), r_Private := False\<rparr>"

text \<open>A write fails before the rename, and then nothing happened to the file, or it replaces it whole.\<close>

datatype write_outcome = FailedMkdir | FailedMarshal | FailedCreate | FailedWrite | FailedSync | FailedClose | FailedRename | Replaced

definition WriteSnapshot ::
  "(arrival list \<Rightarrow> nat) \<Rightarrow> write_outcome \<Rightarrow> arrival list \<Rightarrow> disk \<Rightarrow> bool \<times> disk" where
  "WriteSnapshot enc_size out records d =
     (if out = Replaced then (True, Parsed (enc_size records) snapshotVersion (map json_record records))
      else (False, d))"

definition read_record :: "unicode \<Rightarrow> arrival \<Rightarrow> arrival" where
  "read_record u r =
     (let r = r\<lparr>r_Text := oneLine u (r_Text r)\<rparr>;
          r = r\<lparr>r_From := oneLine u (r_From r)\<rparr>
      in case clip u (r_Body r) of (body, short) \<Rightarrow>
           r\<lparr>r_Body := body, r_Clipped := r_Clipped r \<or> short, r_Restored := True,
             r_Actions := [], r_Extra := 0, r_Private := False\<rparr>)"

definition read_records :: "unicode \<Rightarrow> arrival list \<Rightarrow> arrival list" where
  "read_records u records =
     (let out = map (read_record u) (filter (\<lambda>r. \<not> (r_ID r = 0 \<or> r_Text r = [])) records)
      in if snapshotMax < length out then drop (length out - snapshotMax) out else out)"

definition ReadSnapshot :: "unicode \<Rightarrow> disk \<Rightarrow> read_error + arrival list" where
  "ReadSnapshot u d =
     (case d of
        NoFile \<Rightarrow> Inr []
      | NotAFile \<Rightarrow> Inl CannotOpen
      | Unparsed bytes \<Rightarrow> if snapshotBytesMax < bytes then Inl TooLarge else Inl NotASnapshot
      | Parsed bytes version records \<Rightarrow>
          if snapshotBytesMax < bytes then Inl TooLarge
          else if version \<noteq> snapshotVersion then Inl (OtherVersion version)
          else Inr (read_records u records))"

section \<open>What the snapshot holds\<close>

lemma snapshot_loop_take:
  "length out \<le> snapshotMax \<Longrightarrow> snapshot_loop u es out =
     out @ map (written_record u) (take (snapshotMax - length out) (filter (\<lambda>r. \<not> r_Private r) (map s_rec es)))"
proof (induction es arbitrary: out)
  case (Cons e es)
  show ?case
  proof (cases "snapshotMax \<le> length out \<or> r_Private (s_rec e)")
    case True
    then show ?thesis using Cons by auto
  next
    case False
    then have "take (snapshotMax - length out) (x # xs) = x # take (snapshotMax - Suc (length out)) xs"
      for x :: arrival and xs by (simp flip: Suc_diff_Suc)
    then show ?thesis using False Cons by simp
  qed
qed simp

definition writable :: "history \<Rightarrow> arrival list" where
  "writable h = take snapshotMax (filter (\<lambda>r. \<not> r_Private r) (Recent h))"

lemma Snapshot_writable: "Snapshot u h = rev (map (written_record u) (writable h))"
  by (simp add: Snapshot_def snapshot_loop_take writable_def Recent_def)

lemma positive_bodies [simp]: "0 < snapshotBodyMax"
  by (simp add: snapshotBodyMax_def)

lemma clip_bounded: "length (runes_of (fst (clip u body))) \<le> snapshotBodyMax"
  using clean_length[of snapshotBodyMax u body True] by (simp add: clip_def)

text \<open>The snapshot is the newest forty records that may be written, and nothing that may not.
  It is at most forty records, oldest first, those of the list that is read with the private
  ones left out and no other choice made; none of them is private or carries an action, and no
  body is longer than its bound.\<close>

theorem snapshot_is_bounded:
  "length (Snapshot u h) \<le> snapshotMax
   \<and> map r_ID (Snapshot u h) = rev (map r_ID (take snapshotMax (filter (\<lambda>r. \<not> r_Private r) (Recent h))))
   \<and> (\<forall>r \<in> set (Snapshot u h). \<not> r_Private r \<and> r_Actions r = [] \<and> r_Extra r = 0
        \<and> length (runes_of (r_Body r)) \<le> snapshotBodyMax)"
proof -
  have "\<not> r_Private r \<and> r_Actions r = [] \<and> r_Extra r = 0 \<and> length (runes_of (r_Body r)) \<le> snapshotBodyMax"
    if r: "r \<in> set (Snapshot u h)" for r
  proof -
    obtain x where x: "x \<in> set (writable h)" "r = written_record u x"
      using r unfolding Snapshot_writable by auto
    then have "\<not> r_Private x" by (auto simp: writable_def dest: in_set_takeD)
    then show ?thesis using x(2) clip_bounded[of u "r_Body x"] by (simp add: written_record_def split_beta)
  qed
  moreover have "r_ID (written_record u r) = r_ID r" for r by (simp add: written_record_def split_beta)
  then have "map r_ID (Snapshot u h) = rev (map r_ID (writable h))"
    unfolding Snapshot_writable rev_map map_map comp_def by simp
  moreover have "length (Snapshot u h) \<le> snapshotMax" by (simp add: Snapshot_writable writable_def)
  ultimately show ?thesis unfolding writable_def by blast
qed

lemma snapshot_is_bounded_witness:
  "length (Snapshot ascii_unicode empty_history) \<le> snapshotMax"
  using snapshot_is_bounded [of ascii_unicode empty_history] by blast

section \<open>What is believed of a file\<close>

lemma read_record_bounds:
  "r_Restored (read_record u r) \<and> \<not> r_Private (read_record u r) \<and> r_Actions (read_record u r) = []
   \<and> r_Extra (read_record u r) = 0 \<and> r_ID (read_record u r) = r_ID r
   \<and> length (runes_of (r_Text (read_record u r))) \<le> summaryMax
   \<and> length (runes_of (r_From (read_record u r))) \<le> summaryMax
   \<and> length (runes_of (r_Body (read_record u r))) \<le> snapshotBodyMax"
  using oneLine_bounds[of u] clip_bounded[of u "r_Body r"] by (simp add: read_record_def Let_def split_beta)

text \<open>No file can make the daemon hold more than it would have written, or claim to be live.
  Whatever is on the disk, reading it answers with at most forty records, each with an id, marked
  as restored, not private, without actions, and with its summary, its sender and its body
  within their bounds; a file that is missing is no records and no error; and a write that
  fails leaves the file that was there.\<close>

theorem snapshot_file_is_not_believed:
  "(\<forall>rs. ReadSnapshot u d = Inr rs \<longrightarrow> length rs \<le> snapshotMax
      \<and> (\<forall>r \<in> set rs. r_ID r \<noteq> 0 \<and> r_Restored r \<and> \<not> r_Private r \<and> r_Actions r = [] \<and> r_Extra r = 0
           \<and> length (runes_of (r_Text r)) \<le> summaryMax \<and> length (runes_of (r_From r)) \<le> summaryMax
           \<and> length (runes_of (r_Body r)) \<le> snapshotBodyMax))
   \<and> ReadSnapshot u NoFile = Inr []
   \<and> (out \<noteq> Replaced \<longrightarrow> WriteSnapshot enc out records d = (False, d))"
proof -
  have "length rs \<le> snapshotMax \<and> (\<forall>r \<in> set rs. \<exists>x. r = read_record u x \<and> r_ID x \<noteq> 0)"
    if read: "ReadSnapshot u d = Inr rs" for rs
  proof -
    obtain xs where rs: "rs = read_records u xs"
    proof (cases d)
      case NoFile
      then show ?thesis using read that[of "[]"] by (simp add: ReadSnapshot_def read_records_def)
    next
      case (Parsed bytes version xs)
      then show ?thesis using read that[of xs] by (simp add: ReadSnapshot_def split: if_splits)
    qed (use read in \<open>simp_all add: ReadSnapshot_def split: if_splits\<close>)
    have "\<exists>x. r = read_record u x \<and> r_ID x \<noteq> 0" if "r \<in> set rs" for r
      using that unfolding rs read_records_def Let_def by (auto split: if_splits dest!: in_set_dropD)
    then show ?thesis unfolding rs by (auto simp: read_records_def Let_def)
  qed
  then show ?thesis using read_record_bounds by (auto simp: ReadSnapshot_def WriteSnapshot_def) metis+
qed

lemma snapshot_file_is_not_believed_witness:
  "ReadSnapshot ascii_unicode NoFile = Inr []"
  using snapshot_file_is_not_believed [of ascii_unicode NoFile] by blast

text \<open>A row of spaces passes the test for an empty summary and comes back with one.\<close>

lemma blank_rows_come_back:
  "ReadSnapshot ascii_unicode (Parsed 100 1 [(sample 7 ''mail'')\<lparr>r_Text := '' ''\<rparr>])
     = Inr [read_record ascii_unicode ((sample 7 ''mail'')\<lparr>r_Text := '' ''\<rparr>)]
   \<and> r_Text (read_record ascii_unicode ((sample 7 ''mail'')\<lparr>r_Text := '' ''\<rparr>)) = []"
proof -
  have "runes_of '' '' = [32]" by (simp add: runes_of_ascii ascii_def)
  then have "oneLine ascii_unicode '' '' = []"
    by (simp add: oneLine_def clean_def clean_runes_def is_space_def trim_space_def)
  then show ?thesis
    by (simp add: ReadSnapshot_def read_records_def read_record_def split_beta Let_def sample_def
        snapshotBytesMax_def snapshotVersion_def snapshotMax_def)
qed

section \<open>Across a restart\<close>

text \<open>What the daemon files: a summary and a sender that went through \<open>oneLine\<close>, an id, a desk in UTF-8.\<close>

definition row_ok :: "unicode \<Rightarrow> arrival \<Rightarrow> bool" where
  "row_ok u r \<longleftrightarrow> r_ID r \<noteq> 0 \<and> r_Text r \<noteq> [] \<and> oneLine u (r_Text r) = r_Text r
     \<and> oneLine u (r_From r) = r_From r \<and> utf8 (r_Desk r)"

definition restored_record :: "unicode \<Rightarrow> arrival \<Rightarrow> arrival" where
  "restored_record u r = (written_record u r)\<lparr>r_Restored := True\<rparr>"

lemma utf8_clean: "0 < mx \<Longrightarrow> utf8 (clean u s mx lines)"
  unfolding clean_def by (rule utf8_of_runes) (simp add: clean_runes_valid)

lemma utf8_oneLine: "oneLine u s = s \<Longrightarrow> utf8 s"
  using utf8_clean[of summaryMax u s False] by (simp add: oneLine_def)

lemma written_simps [simp]:
  "r_ID (written_record u r) = r_ID r" "r_From (written_record u r) = r_From r"
  "r_Text (written_record u r) = r_Text r" "r_Desk (written_record u r) = r_Desk r"
  "r_Actions (written_record u r) = []" "r_Extra (written_record u r) = 0"
  "r_Private (written_record u r) = r_Private r"
  "r_Body (written_record u r) = clean u (r_Body r) snapshotBodyMax True"
  by (simp_all add: written_record_def clip_def)

lemma json_written:
  assumes "row_ok u r" and "\<not> r_Private r"
  shows "json_record (written_record u r) = written_record u r"
proof -
  let ?w = "written_record u r"
  have "json_string (r_From ?w) = r_From ?w" "json_string (r_Text ?w) = r_Text ?w"
    "json_string (r_Desk ?w) = r_Desk ?w" "json_string (r_Body ?w) = r_Body ?w"
    using assms(1) utf8_oneLine utf8_clean[of snapshotBodyMax u "r_Body r" True]
    by (auto simp: row_ok_def utf8_def)
  moreover have "map json_action (r_Actions ?w) = r_Actions ?w" "r_Private ?w = False" using assms(2) by simp_all
  ultimately show ?thesis unfolding json_record_def by simp
qed

lemma read_written:
  assumes "row_ok u r" and "\<not> r_Private r"
  shows "read_record u (written_record u r) = restored_record u r"
proof -
  have body: "clip u (clean u (r_Body r) snapshotBodyMax True) = (clean u (r_Body r) snapshotBodyMax True, False)"
    using clean_length[of snapshotBodyMax u "r_Body r" True] by (simp add: clip_def clean_clean)
  show ?thesis
    using assms body by (simp add: read_record_def restored_record_def row_ok_def)
qed

lemma restored_simps [simp]: "r_ID (restored_record u r) = r_ID r" "r_From (restored_record u r) = r_From r"
  by (simp_all add: restored_record_def)

lemma subseq_by_class:
  assumes "subseq xs ys" and "\<And>s. filter (\<lambda>x. f x = s) xs = filter (\<lambda>x. f x = s) ys"
  shows "xs = ys"
proof -
  have "count (mset zs) x = count (mset (filter (\<lambda>y. f y = f x) zs)) x" for zs x by simp
  then have "count (mset xs) x = count (mset ys) x" for x using assms(2)[of "f x"] by metis
  then have "mset xs = mset ys" by (intro multiset_eqI)
  then show ?thesis using assms(1) mset_eq_length subseq_same_length by blast
qed

lemma rows_of_empty: "rows_of s empty_history = []"
  using rows_absent[OF empty_ok] by (simp add: empty_history_def)

lemma restore_into_empty:
  assumes "card {s \<in> r_From ` set rs. \<not> unevictable s} \<le> SendersMax"
    and "\<And>s. length (filter (\<lambda>r. r_From r = s) rs) \<le> PerSenderMax"
  shows "\<exists>h'. Restore rs empty_history = Some h' \<and> Recent h' = rev rs"
proof -
  obtain h' live old where R: "Restore rs empty_history = Some h'"
    "Recent h' = live @ old" "subseq live (Recent empty_history)" "subseq old (rev rs)"
    "\<And>s. rows_of s h' = take PerSenderMax (rows_of s empty_history @ rev (filter (\<lambda>r. r_From r = s) rs))
        \<or> SendersMax < card (names_with rs empty_history)"
    using restore_parts[OF empty_ok, of rs] by blast
  have none: "Recent empty_history = []" by (simp add: Recent_def newestFirst_def empty_history_def)
  then have "live = []" using R(3) by simp
  have "names_with rs empty_history = {s \<in> r_From ` set rs. \<not> unevictable s}"
    by (simp add: names_with_def none)
  moreover have "length (filter (\<lambda>r. r_From r = s) (rev rs)) \<le> PerSenderMax" for s
    using assms(2)[of s] by (simp flip: rev_filter)
  ultimately have rows: "rows_of s h' = filter (\<lambda>r. r_From r = s) (rev rs)" for s
    using R(5)[of s] assms(1) rows_of_empty by (simp add: rev_filter)
  have "old = rev rs"
    by (rule subseq_by_class[OF R(4)]) (use rows R(2) \<open>live = []\<close> in \<open>simp add: rows_of_def\<close>)
  then show ?thesis using R(1,2) \<open>live = []\<close> by simp
qed

text \<open>C39: a restart gives back what the snapshot took. From any history the daemon can hold, writing the
  snapshot, reading it back and restoring it into an empty history answers at every step, and
  what is then read is exactly the newest forty writable records, newest first, each as it was
  but for the actions that are gone, the body that is cut and the mark that says it is restored:
  neither bound on the rings loses any of them.\<close>

theorem history_survives_restart:
  assumes "hist_ok h" and "\<forall>r \<in> set (Recent h). row_ok u r" and "enc (Snapshot u h) \<le> snapshotBytesMax"
  shows "\<exists>rs h'. ReadSnapshot u (snd (WriteSnapshot enc Replaced (Snapshot u h) d)) = Inr rs
     \<and> Restore rs empty_history = Some h'
     \<and> Recent h' = map (restored_record u) (take snapshotMax (filter (\<lambda>r. \<not> r_Private r) (Recent h)))"
proof -
  let ?ws = "writable h"
  have ws: "row_ok u r \<and> \<not> r_Private r" if "r \<in> set ?ws" for r
    using assms(2) that by (auto simp: writable_def dest: in_set_takeD)
  have json: "map json_record (Snapshot u h) = map (written_record u) (rev ?ws)"
    using json_written ws by (simp add: Snapshot_writable rev_map)
  have "filter (\<lambda>r. \<not> (r_ID r = 0 \<or> r_Text r = [])) (map (written_record u) (rev ?ws)) = map (written_record u) (rev ?ws)"
    using ws by (auto simp: filter_id_conv row_ok_def)
  moreover have "map (read_record u) (map (written_record u) (rev ?ws)) = map (restored_record u) (rev ?ws)"
    using read_written ws by simp
  moreover have "length ?ws \<le> snapshotMax" by (simp add: writable_def)
  ultimately have read: "read_records u (map json_record (Snapshot u h)) = map (restored_record u) (rev ?ws)"
    unfolding json read_records_def Let_def by simp
  have fits: "filter (\<lambda>r. r_From r = s) (map (restored_record u) (rev ?ws)) =
      map (restored_record u) (rev (filter (\<lambda>r. r_From r = s) ?ws))" for s
    by (simp add: filter_map comp_def rev_filter)
  have len: "length (filter (\<lambda>r. r_From r = s) (map (restored_record u) (rev ?ws))) \<le> PerSenderMax" for s
  proof -
    have "subseq ?ws (Recent h)"
      unfolding writable_def by (metis append_take_drop_id list_emb_append2 subseq_filter_left subseq_order.dual_order.trans
          prefix_imp_subseq take_is_prefix)
    then have "subseq (filter (\<lambda>r. r_From r = s) ?ws) (rows_of s h)" unfolding rows_of_def by (rule subseq_filter)
    then show ?thesis unfolding fits using list_emb_length rows_bounded[OF assms(1), of s] by fastforce
  qed
  have names: "card {s \<in> r_From ` set (map (restored_record u) (rev ?ws)). \<not> unevictable s} \<le> SendersMax"
  proof -
    have "set ?ws \<subseteq> set (Recent h)" by (auto simp: writable_def dest: in_set_takeD)
    then have "{s \<in> r_From ` set (map (restored_record u) (rev ?ws)). \<not> unevictable s}
        \<subseteq> {s \<in> fst ` set (h_rings h). \<not> unevictable s}"
      unfolding senders_present[OF assms(1)] by auto
    then have "card {s \<in> r_From ` set (map (restored_record u) (rev ?ws)). \<not> unevictable s} \<le> named_rings (h_rings h)"
      unfolding named_rings_card[OF rings_okD(1)[OF hist_okD(1)[OF assms(1)]]] by (intro card_mono) auto
    then show ?thesis using hist_okD(2)[OF assms(1)] by simp
  qed
  obtain h' where "Restore (map (restored_record u) (rev ?ws)) empty_history = Some h'"
    "Recent h' = rev (map (restored_record u) (rev ?ws))"
    using restore_into_empty[OF names len] by blast
  then show ?thesis
    using assms(3) read by (simp add: WriteSnapshot_def ReadSnapshot_def snapshotVersion_def writable_def flip: rev_map)
qed

lemma history_survives_restart_witness:
  "\<exists>h rs h'. Recent h = [sample 1 ''mail'']
     \<and> ReadSnapshot ascii_unicode (snd (WriteSnapshot (\<lambda>_. 200) Replaced (Snapshot ascii_unicode h) NoFile)) = Inr rs
     \<and> Restore rs empty_history = Some h'
     \<and> Recent h' = [restored_record ascii_unicode (sample 1 ''mail'')]"
proof -
  obtain h where h: "hist_ok h" and R: "Recent h = [sample 1 ''mail'']" using one_arrival by blast
  have "oneLine ascii_unicode ''mail'' = ''mail''" "oneLine ascii_unicode ''hello'' = ''hello''"
    by (rule oneLine_plain[OF ascii_unicode_ok]; simp add: summaryMax_def)+
  then have "\<forall>r \<in> set (Recent h). row_ok ascii_unicode r"
    unfolding R by (simp add: row_ok_def sample_def)
  moreover have "take snapshotMax (filter (\<lambda>r. \<not> r_Private r) (Recent h)) = [sample 1 ''mail'']"
    unfolding R by (simp add: sample_def snapshotMax_def)
  ultimately show ?thesis
    using history_survives_restart [OF h, of ascii_unicode "\<lambda>_. 200" NoFile] R
    by (force simp: snapshotBytesMax_def)
qed

end
