(* ===== verification/Attn_Server.thy ===== *)
theory Attn_Server
  imports Attn_Text "HOL-Library.Word"
begin

text \<open>
  The notification server (\<open>internal/attn/notify.go\<close>): the two tables that say which connection
  calls which queue item by which number, and the four methods on the bus. The tables are
  Go maps read by key; what goes out on the bus is a log. The sink that arriving feeds is a pair
  of functions on a state that extends the server's, because the daemon behind it calls
  back into these tables.
\<close>

section \<open>The data\<close>

type_synonym sender = string
type_synonym owned = "sender \<times> 32 word"

definition ReasonDismissed :: "32 word" where "ReasonDismissed = 2"
definition ReasonClosed :: "32 word" where "ReasonClosed = 3"
definition DefaultAction :: string where "DefaultAction = ''default''"

record notification =
  n_From :: string
  n_Self :: bool
  n_Text :: string
  n_Body :: string
  n_Urgent :: bool
  n_Actions :: "action list"
  n_Extra :: nat
  n_Replaces :: "64 word"

datatype signal = NotificationClosed "32 word" "32 word" | ActionInvoked "32 word" string

text \<open>\<open>sv_bus\<close> says that \<open>Serve\<close> connected it: \<open>emit\<close>, \<open>act\<close> and \<open>holds\<close> are set together.\<close>

record server =
  sv_mine :: "owned \<rightharpoonup> 64 word"
  sv_by :: "64 word \<Rightarrow> owned list"
  sv_bus :: bool
  sv_out :: "signal list"

definition Local :: "unicode \<Rightarrow> string \<Rightarrow> string \<Rightarrow> notification" where
  "Local u tx body = \<lparr>n_From = SelfFrom, n_Self = True, n_Text = oneLine u tx, n_Body = bodyText u body,
     n_Urgent = False, n_Actions = [], n_Extra = 0, n_Replaces = 0\<rparr>"

section \<open>The tables\<close>

definition drop_name :: "owned list \<Rightarrow> owned \<Rightarrow> owned list" where
  "drop_name names k = filter (\<lambda>n. n \<noteq> k) names"

definition remember :: "owned \<Rightarrow> 64 word \<Rightarrow> 'a server_scheme \<Rightarrow> 'a server_scheme" where
  "remember k i s =
     (let s = (case sv_mine s k of
                 Some old \<Rightarrow> s\<lparr>sv_by := (sv_by s)(old := drop_name (sv_by s old) k)\<rparr>
               | None \<Rightarrow> s);
          s = s\<lparr>sv_mine := (sv_mine s)(k \<mapsto> i)\<rparr>
      in s\<lparr>sv_by := (sv_by s)(i := sv_by s i @ [k])\<rparr>)"

definition forget :: "64 word \<Rightarrow> 'a server_scheme \<Rightarrow> 'a server_scheme" where
  "forget i s = s\<lparr>sv_mine := (\<lambda>k. if k \<in> set (sv_by s i) then None else sv_mine s k),
                  sv_by := (sv_by s)(i := [])\<rparr>"

definition Forget :: "64 word \<Rightarrow> 'a server_scheme \<Rightarrow> 'a server_scheme" where "Forget i s = forget i s"

definition lookup_name :: "owned \<Rightarrow> 'a server_scheme \<Rightarrow> 64 word option" where "lookup_name k s = sv_mine s k"

definition senderOf :: "64 word \<Rightarrow> 'a server_scheme \<Rightarrow> sender option" where
  "senderOf i s = (case sv_by s i of [] \<Rightarrow> None | n # _ \<Rightarrow> Some (fst n))"

definition emitClosed :: "64 word \<Rightarrow> 32 word \<Rightarrow> 'a server_scheme \<Rightarrow> 'a server_scheme" where
  "emitClosed i reason s = (if sv_bus s then s\<lparr>sv_out := sv_out s @ [NotificationClosed (ucast i) reason]\<rparr> else s)"

section \<open>The methods\<close>

definition Dismissed :: "64 word \<Rightarrow> 'a server_scheme \<Rightarrow> 'a server_scheme" where
  "Dismissed i s = emitClosed i ReasonDismissed (forget i s)"

datatype invoke_error = NotHeld | AppExited | NoBus

text \<open>Whether a name still has an owner is the bus's answer, an argument.\<close>

definition Invoke :: "(sender \<Rightarrow> bool) \<Rightarrow> 64 word \<Rightarrow> string \<Rightarrow> 'a server_scheme \<Rightarrow> invoke_error option \<times> 'a server_scheme" where
  "Invoke holds i key s =
     (case senderOf i s of
        None \<Rightarrow> (Some NotHeld, s)
      | Some sender \<Rightarrow>
          if sv_bus s \<and> \<not> holds sender then (Some AppExited, s)
          else if \<not> sv_bus s then (Some NoBus, s)
          else (None, s\<lparr>sv_out := sv_out s @ [ActionInvoked (ucast i) key]\<rparr>))"

text \<open>
  \<open>Notify\<close>: the text, the refusal, the replacement, the arrival, and the names it is remembered
  under. Icon and timeout are accepted and dropped. \<open>None\<close> is an error on the bus.
\<close>

definition row_and_body :: "unicode \<Rightarrow> string \<Rightarrow> string \<Rightarrow> string \<times> string" where
  "row_and_body u summary body =
     (let tx = oneLine u summary; rest = bodyText u body
      in if \<not> Draws u tx
         then let tx = oneLine u body in (tx, if rest = tx then [] else rest)
         else (tx, rest))"

definition superseded ::
  "(64 word \<Rightarrow> 'a server_scheme \<Rightarrow> bool \<times> 'a server_scheme) \<Rightarrow> sender \<Rightarrow> 32 word
   \<Rightarrow> 'a server_scheme \<Rightarrow> bool \<times> 64 word \<times> 'a server_scheme" where
  "superseded closed sender replaces s =
     (if replaces \<noteq> 0
      then case lookup_name (sender, replaces) s of
          None \<Rightarrow> (True, 0, s)
        | Some old \<Rightarrow> (case closed old s of (ok, s) \<Rightarrow>
            if ok then (True, old, forget old s) else (False, 0, s))
      else (True, 0, s))"

definition Notify ::
  "unicode \<Rightarrow> (64 word \<Rightarrow> 'a server_scheme \<Rightarrow> bool \<times> 'a server_scheme)
   \<Rightarrow> (notification \<Rightarrow> 'a server_scheme \<Rightarrow> 64 word option \<times> 'a server_scheme)
   \<Rightarrow> sender \<Rightarrow> string \<Rightarrow> 32 word \<Rightarrow> string \<Rightarrow> string \<Rightarrow> string list \<Rightarrow> (string \<rightharpoonup> variant)
   \<Rightarrow> 'a server_scheme \<Rightarrow> 32 word option \<times> 'a server_scheme" where
  "Notify u closed arrived sender app replaces summary body actions hints s =
     (case row_and_body u summary body of (tx, rest) \<Rightarrow>
        if \<not> Draws u tx then (None, s)
        else
          case superseded closed sender replaces s of
            (False, _, s) \<Rightarrow> (None, s)
          | (True, replaced, s) \<Rightarrow>
              case takeActions u actions of (kept, extra) \<Rightarrow>
              case arrived \<lparr>n_From = claim u app sender, n_Self = False, n_Text = tx, n_Body = rest,
                      n_Urgent = (urgency hints = 2), n_Actions = kept, n_Extra = extra,
                      n_Replaces = replaced\<rparr> s of
                (None, s) \<Rightarrow> (None, s)
              | (Some i, s) \<Rightarrow>
                  let s = remember (sender, ucast i) i s;
                      s = (if replaces \<noteq> 0 then remember (sender, replaces) i s else s)
                  in (Some (ucast i), s))"

definition CloseNotification ::
  "(64 word \<Rightarrow> 'a server_scheme \<Rightarrow> bool \<times> 'a server_scheme) \<Rightarrow> sender \<Rightarrow> 32 word
   \<Rightarrow> 'a server_scheme \<Rightarrow> bool \<times> 'a server_scheme" where
  "CloseNotification closed sender i s =
     (case (case lookup_name (sender, i) s of
              None \<Rightarrow> (True, s)
            | Some item \<Rightarrow> (case closed item s of (ok, s) \<Rightarrow> if ok then (True, forget item s) else (False, s))) of
        (False, s) \<Rightarrow> (False, s)
      | (True, s) \<Rightarrow> (True, emitClosed (ucast i) ReasonClosed s))"

definition GetCapabilities :: "string list" where
  "GetCapabilities = [''actions'', ''body'', ''persistence'']"

section \<open>The tables say one thing\<close>

text \<open>
  One table is the other read backwards, and every name of an item belongs to one connection.
\<close>

definition tables_ok :: "'a server_scheme \<Rightarrow> bool" where
  "tables_ok s \<longleftrightarrow> (\<forall>k i. sv_mine s k = Some i \<longleftrightarrow> k \<in> set (sv_by s i))
     \<and> (\<forall>i. distinct (sv_by s i) \<and> (\<forall>k \<in> set (sv_by s i). \<forall>k' \<in> set (sv_by s i). fst k = fst k'))"

definition held :: "'a server_scheme \<Rightarrow> 64 word set" where
  "held s = {i. sv_by s i \<noteq> []}"

lemma tables_okD:
  assumes "tables_ok s"
  shows "sv_mine s k = Some i \<longleftrightarrow> k \<in> set (sv_by s i)" and "distinct (sv_by s i)"
    and "k \<in> set (sv_by s i) \<Longrightarrow> k' \<in> set (sv_by s i) \<Longrightarrow> fst k = fst k'"
  using assms unfolding tables_ok_def by blast+

lemma senderOf_name: "tables_ok s \<Longrightarrow> k \<in> set (sv_by s i) \<Longrightarrow> senderOf i s = Some (fst k)"
  using tables_okD(3)[of s "hd (sv_by s i)" i k] unfolding senderOf_def by (cases "sv_by s i") auto

lemma remember_tables:
  "sv_mine (remember k i s) = (sv_mine s)(k \<mapsto> i)"
  "sv_by (remember k i s) j =
     (let names = (if sv_mine s k = Some j then drop_name (sv_by s j) k else sv_by s j)
      in if j = i then names @ [k] else names)"
  by (auto simp: remember_def Let_def split: option.splits)

lemma forget_tables:
  "sv_mine (forget i s) = (\<lambda>k. if k \<in> set (sv_by s i) then None else sv_mine s k)"
  "sv_by (forget i s) = (sv_by s)(i := [])"
  by (simp_all add: forget_def)

lemma remember_more [simp]: "server.more (remember k i s) = server.more s" "sv_out (remember k i s) = sv_out s"
    "sv_bus (remember k i s) = sv_bus s"
  by (auto simp: remember_def Let_def split: option.splits)

lemma forget_more [simp]: "server.more (forget i s) = server.more s" "sv_out (forget i s) = sv_out s"
    "sv_bus (forget i s) = sv_bus s"
  by (simp_all add: forget_def)

lemma emitClosed_tables [simp]: "sv_mine (emitClosed i r s) = sv_mine s" "sv_by (emitClosed i r s) = sv_by s"
    "server.more (emitClosed i r s) = server.more s"
  by (simp_all add: emitClosed_def)

lemma set_drop_name [simp]: "set (drop_name names k) = set names - {k}"
  by (auto simp: drop_name_def)

lemma forget_ok: "tables_ok s \<Longrightarrow> tables_ok (forget i s)"
proof -
  assume ok: "tables_ok s"
  have "(sv_mine (forget i s) k = Some j) = (k \<in> set (sv_by (forget i s) j))" for k j
  proof (cases "k \<in> set (sv_by s i)")
    case True
    then have "k \<notin> set (sv_by s j)" if "j \<noteq> i"
      using that tables_okD(1)[OF ok] by (metis option.inject)
    then show ?thesis using True by (simp add: forget_tables)
  next
    case False
    then show ?thesis using tables_okD(1)[OF ok, of k j] by (auto simp: forget_tables)
  qed
  moreover have "distinct (sv_by (forget i s) j)" for j
    using tables_okD(2)[OF ok] by (simp add: forget_tables)
  moreover have "fst a = fst b" if "a \<in> set (sv_by (forget i s) j)" "b \<in> set (sv_by (forget i s) j)" for a b j
    using that tables_okD(3)[OF ok, of a j b] by (cases "j = i") (simp_all add: forget_tables)
  ultimately show ?thesis unfolding tables_ok_def by blast
qed

lemma tables_only: "sv_mine t = sv_mine s \<Longrightarrow> sv_by t = sv_by s \<Longrightarrow> tables_ok t = tables_ok s"
  by (simp add: tables_ok_def)

lemma remember_names:
  assumes "tables_ok s"
  shows "set (sv_by (remember k i s) j) = (if j = i then insert k (set (sv_by s j)) else set (sv_by s j) - {k})"
  unfolding remember_tables Let_def tables_okD(1)[OF assms] by auto

lemma remember_ok:
  assumes "tables_ok s" and "\<forall>n \<in> set (sv_by s i). fst n = fst k"
  shows "tables_ok (remember k i s)"
proof -
  have "(sv_mine (remember k i s) k' = Some j) = (k' \<in> set (sv_by (remember k i s) j))" for k' j
    using tables_okD(1)[OF assms(1), of k' j] unfolding remember_names[OF assms(1)] remember_tables(1)
    by (cases "k' = k"; cases "j = i") simp_all
  moreover have "distinct (sv_by (remember k i s) j)" for j
    using tables_okD(2)[OF assms(1), of j] unfolding remember_tables(2) Let_def tables_okD(1)[OF assms(1)]
    by (auto simp: drop_name_def)
  moreover have "fst a = fst b" if "a \<in> set (sv_by (remember k i s) j)" "b \<in> set (sv_by (remember k i s) j)" for a b j
  proof (cases "j = i")
    case True
    then show ?thesis using that assms(2) unfolding remember_names[OF assms(1)] by (metis insertE)
  next
    case False
    then show ?thesis using that tables_okD(3)[OF assms(1), of a j b] unfolding remember_names[OF assms(1)] by simp
  qed
  ultimately show ?thesis unfolding tables_ok_def by blast
qed

lemma Draws_text: "Draws u tx \<Longrightarrow> tx \<noteq> []"
  by (auto simp: Draws_def drawn_def drawn_runes_def trim_space_def runes_of_def string_of_runes_def)

section \<open>The interface to the daemon\<close>

text \<open>
  What the server asks of its sink, and nothing more: an arrival with a text answers with an id that
  was never given out, and changes the tables only by forgetting; closing one does not touch them. \<open>given\<close>
  is every id the sink has given out, \<open>room\<close> that it has another.
\<close>

definition same_tables :: "'a server_scheme \<Rightarrow> 'a server_scheme \<Rightarrow> bool" where
  "same_tables s t \<longleftrightarrow> sv_mine s = sv_mine t \<and> sv_by s = sv_by t"

locale sink =
  fixes given :: "'a server_scheme \<Rightarrow> 64 word set"
    and room :: "'a server_scheme \<Rightarrow> bool"
    and inv :: "'a server_scheme \<Rightarrow> bool"
    and closed :: "64 word \<Rightarrow> 'a server_scheme \<Rightarrow> bool \<times> 'a server_scheme"
    and arrived :: "notification \<Rightarrow> 'a server_scheme \<Rightarrow> 64 word option \<times> 'a server_scheme"
  assumes closed_keeps: "inv s \<Longrightarrow> closed i s = (b, s') \<Longrightarrow>
      inv s' \<and> given s' = given s \<and> room s' = room s \<and> same_tables s' s"
    and arrived_fails: "inv s \<Longrightarrow> room s \<Longrightarrow> n_Text n \<noteq> [] \<Longrightarrow> arrived n s = (None, s') \<Longrightarrow>
      inv s' \<and> given s' = given s \<and> same_tables s' s"
    and arrived_fresh: "inv s \<Longrightarrow> room s \<Longrightarrow> n_Text n \<noteq> [] \<Longrightarrow> arrived n s = (Some i, s') \<Longrightarrow>
      inv s' \<and> i \<notin> given s \<and> given s' = insert i (given s) \<and> (\<exists>gone. same_tables s' (fold forget gone s))"
    and tables_apart: "inv (forget i s) = inv s" "given (forget i s) = given s" "room (forget i s) = room s"
      "inv (remember k i s) = inv s" "given (remember k i s) = given s" "room (remember k i s) = room s"
      "inv (emitClosed i r s) = inv s" "given (emitClosed i r s) = given s" "room (emitClosed i r s) = room s"
begin

definition served :: "'a server_scheme \<Rightarrow> bool" where
  "served s \<longleftrightarrow> inv s \<and> tables_ok s \<and> held s \<subseteq> given s \<and> (\<forall>i. length (sv_by s i) \<le> 2)"

lemma held_same: "same_tables s t \<Longrightarrow> held s = held t" "same_tables s t \<Longrightarrow> tables_ok s = tables_ok t"
  by (auto simp: held_def same_tables_def tables_ok_def)

lemma served_same:
  "served t \<Longrightarrow> same_tables s t \<Longrightarrow> inv s \<Longrightarrow> given t \<subseteq> given s \<Longrightarrow> served s"
  using held_same[of s t] unfolding served_def by (auto simp: same_tables_def)

lemma served_forget: "served s \<Longrightarrow> served (forget i s)"
  using forget_ok[of s i] unfolding served_def tables_apart by (auto simp: held_def forget_tables split: if_splits)

lemma served_forgets: "served s \<Longrightarrow> served (fold forget gone s) \<and> given (fold forget gone s) = given s"
  by (induction gone arbitrary: s) (auto simp: served_forget tables_apart)

lemma served_closed:
  assumes "served s" and "closed i s = (b, s')"
  shows "served s'" and "given s' = given s" and "room s' = room s"
proof -
  have c: "inv s' \<and> given s' = given s \<and> room s' = room s \<and> same_tables s' s"
    by (rule closed_keeps[OF _ assms(2)]) (use assms(1) in \<open>simp add: served_def\<close>)
  then show "given s' = given s" "room s' = room s" by simp_all
  show "served s'" by (rule served_same[OF assms(1)]) (use c in simp_all)
qed

lemma served_emit: "served s \<Longrightarrow> served (emitClosed i r s)"
  by (rule served_same) (auto simp: same_tables_def tables_apart served_def)

lemma served_arrived:
  assumes "served s" and "room s" and "n_Text n \<noteq> []" and "arrived n s = (Some i, s')"
  shows "served s'" and "sv_by s' i = []" and "i \<in> given s'"
proof -
  have inv: "inv s" using assms(1) by (simp add: served_def)
  obtain gone where a: "inv s'" "i \<notin> given s" "given s' = insert i (given s)" "same_tables s' (fold forget gone s)"
    using arrived_fresh[OF inv assms(2-4)] by blast
  note f = served_forgets[OF assms(1), of gone]
  show "served s'" by (rule served_same[OF conjunct1[OF f]]) (use a f in auto)
  have "i \<notin> held (fold forget gone s)" using f a(2) unfolding served_def by blast
  then show "sv_by s' i = []" using a(4) by (simp add: held_def same_tables_def)
  show "i \<in> given s'" using a(3) by simp
qed

lemma served_remember:
  assumes "served s" and "i \<in> given s" and "set (sv_by s i) \<subseteq> {(sender, j)}"
  shows "served (remember (sender, k) i s)"
    and "set (sv_by (remember (sender, k) i s) i) \<subseteq> {(sender, j), (sender, k)}"
proof -
  have ok: "tables_ok s" using assms(1) by (simp add: served_def)
  have names: "\<forall>n \<in> set (sv_by s i). fst n = fst (sender, k)" using assms(3) by auto
  note ok' = remember_ok[OF ok names]
  have "length (sv_by (remember (sender, k) i s) l) \<le> 2" for l
  proof (cases "l = i")
    case True
    have "length (sv_by (remember (sender, k) i s) i) = card (set (sv_by (remember (sender, k) i s) i))"
      using tables_okD(2)[OF ok'] by (simp add: distinct_card)
    also have "\<dots> \<le> card {(sender, k), (sender, j)}"
      using assms(3) unfolding remember_names[OF ok] by (intro card_mono) auto
    also have "\<dots> \<le> 2" by (simp add: card_insert_if)
    finally show ?thesis using True by simp
  next
    case False
    have "length (sv_by s l) \<le> 2" using assms(1) by (simp add: served_def)
    moreover have "length (drop_name (sv_by s l) (sender, k)) \<le> length (sv_by s l)" by (simp add: drop_name_def)
    ultimately show ?thesis using False by (auto simp: remember_tables Let_def)
  qed
  moreover have "held (remember (sender, k) i s) \<subseteq> insert i (held s)"
  proof
    fix l assume "l \<in> held (remember (sender, k) i s)"
    then have "set (sv_by (remember (sender, k) i s) l) \<noteq> {}" by (simp add: held_def)
    then show "l \<in> insert i (held s)" unfolding remember_names[OF ok] by (auto simp: held_def split: if_splits)
  qed
  ultimately show "served (remember (sender, k) i s)"
    using assms(1,2) ok' unfolding served_def tables_apart by blast
  show "set (sv_by (remember (sender, k) i s) i) \<subseteq> {(sender, j), (sender, k)}"
    using assms(3) unfolding remember_names[OF ok] by auto
qed

lemma Notify_served:
  assumes "served s" and "room s"
    and "Notify u closed arrived sender app replaces summary body actions hints s = (r, s')"
  shows "served s'"
proof -
  obtain tx rest where rb: "row_and_body u summary body = (tx, rest)" by fastforce
  obtain kept extra where ta: "takeActions u actions = (kept, extra)" by fastforce
  obtain ok replaced s1 where f: "superseded closed sender replaces s = (ok, replaced, s1)"
    by (cases "superseded closed sender replaces s")
  have s1: "served s1 \<and> room s1"
  proof (cases "replaces \<noteq> 0 \<and> lookup_name (sender, replaces) s \<noteq> None")
    case True
    then obtain old where old: "lookup_name (sender, replaces) s = Some old" by blast
    obtain b s0 where c: "closed old s = (b, s0)" by fastforce
    have "served s0" "room s0" using served_closed[OF assms(1) c] assms(2) by auto
    then show ?thesis
      using f True old c served_forget unfolding superseded_def by (auto simp: tables_apart split: if_splits)
  next
    case False
    then show ?thesis using f assms(1,2) unfolding superseded_def by (auto split: if_splits option.splits)
  qed
  let ?n = "\<lparr>n_From = claim u app sender, n_Self = False, n_Text = tx, n_Body = rest,
                      n_Urgent = (urgency hints = 2), n_Actions = kept, n_Extra = extra,
                      n_Replaces = replaced\<rparr>"
  obtain ans s2 where a: "arrived ?n s1 = (ans, s2)" by fastforce
  have N: "(r, s') = (if \<not> Draws u tx then (None, s) else if \<not> ok then (None, s1)
     else case ans of None \<Rightarrow> (None, s2)
       | Some i \<Rightarrow> (Some (ucast i), if replaces \<noteq> 0 then remember (sender, replaces) i (remember (sender, ucast i) i s2)
                       else remember (sender, ucast i) i s2))"
    using assms(3) unfolding Notify_def rb prod.case ta f
    by (cases "Draws u tx"; cases ok; cases ans) (auto simp: a Let_def)
  show ?thesis
  proof (cases "Draws u tx")
    case False
    then show ?thesis using N assms(1) by simp
  next
    case True
    then have drawn: "n_Text ?n \<noteq> []" using Draws_text by simp
    show ?thesis
    proof (cases ans)
      case None
      have "served s2"
        using arrived_fails[of s1 ?n s2] a drawn s1 None served_same[of s1 s2] by (auto simp: served_def)
      then show ?thesis using N None s1 assms(1) by (auto split: if_splits)
    next
      case (Some i)
      note sa = served_arrived[OF conjunct1[OF s1] conjunct2[OF s1] drawn, of i s2]
      have "served s2" "sv_by s2 i = []" "i \<in> given s2" using sa a Some by blast+
      then have r1: "served (remember (sender, ucast i) i s2)"
        "set (sv_by (remember (sender, ucast i) i s2) i) \<subseteq> {(sender, ucast i)}"
        using served_remember[of s2 i sender "ucast i" "ucast i"] by auto
      moreover have "served (remember (sender, replaces) i (remember (sender, ucast i) i s2))"
        by (rule served_remember(1)[OF r1(1) _ r1(2)]) (use \<open>i \<in> given s2\<close> in \<open>simp add: tables_apart\<close>)
      ultimately show ?thesis using N Some s1 assms(1) by (auto split: if_splits)
    qed
  qed
qed

lemma CloseNotification_served:
  assumes "served s" and "CloseNotification closed sender i s = (b, s')"
  shows "served s'"
proof (cases "lookup_name (sender, i) s")
  case None
  then show ?thesis using assms served_emit by (auto simp: CloseNotification_def)
next
  case (Some item)
  obtain ok s1 where c: "closed item s = (ok, s1)" by fastforce
  have "served s1" by (rule served_closed(1)[OF assms(1) c])
  then show ?thesis
    using assms(2) Some c served_emit[OF served_forget] by (auto simp: CloseNotification_def split: if_splits)
qed

lemma Dismissed_served: "served s \<Longrightarrow> served (Dismissed i s)"
  unfolding Dismissed_def by (rule served_emit[OF served_forget])

end

section \<open>What a connection can do\<close>

text \<open>C19: a connection reaches its own notifications and no others. An item another connection sent,
  or that no connection sent (a reminder somebody typed), is never passed to the sink by
  \<open>CloseNotification\<close> or by a replacing \<open>Notify\<close> of this connection, whatever number it names:
  two sinks that differ only in what closing that item does are not told apart.\<close>

theorem strangers_are_out_of_reach:
  assumes "tables_ok s" and "senderOf item s \<noteq> Some sender"
    and "\<forall>j t. j \<noteq> item \<longrightarrow> closed j t = closed' j t"
  shows "CloseNotification closed sender i s = CloseNotification closed' sender i s
    \<and> Notify u closed arrived sender app replaces summary body actions hints s
      = Notify u closed' arrived sender app replaces summary body actions hints s"
proof -
  have mine: "closed j s = closed' j s" if "lookup_name (sender, k) s = Some j" for k j
  proof -
    have "(sender, k) \<in> set (sv_by s j)"
      using that tables_okD(1)[OF assms(1)] by (simp add: lookup_name_def)
    then have "senderOf j s = Some sender" using senderOf_name[OF assms(1)] by fastforce
    then have "j \<noteq> item" using assms(2) by auto
    then show ?thesis using assms(3) by blast
  qed
  have eq: "superseded closed sender replaces s = superseded closed' sender replaces s"
    unfolding superseded_def using mine[of replaces] by (cases "lookup_name (sender, replaces) s") simp_all
  have "CloseNotification closed sender i s = CloseNotification closed' sender i s"
    unfolding CloseNotification_def using mine[of i] by (cases "lookup_name (sender, i) s") simp_all
  then show ?thesis unfolding Notify_def eq by (rule conjI[OF _ refl])
qed

definition quiet_server :: server where
  "quiet_server = \<lparr>sv_mine = [('':1.7'', 5) \<mapsto> 5], sv_by = (\<lambda>i. if i = 5 then [('':1.7'', 5)] else []), sv_bus = True, sv_out = []\<rparr>"

lemma quiet_server_ok: "tables_ok quiet_server"
  by (auto simp: tables_ok_def quiet_server_def)

lemma strangers_are_out_of_reach_witness:
  "CloseNotification (\<lambda>j t. (j \<noteq> 5, t)) '':1.8'' 5 quiet_server
   = CloseNotification (\<lambda>j t. (True, t)) '':1.8'' 5 quiet_server"
proof -
  have "senderOf 5 quiet_server \<noteq> Some '':1.8''" by (simp add: senderOf_def quiet_server_def)
  then show ?thesis
    using strangers_are_out_of_reach [OF quiet_server_ok, of 5 "'':1.8''" "\<lambda>j t. (j \<noteq> 5, t)" "\<lambda>j t. (True, t)"]
    by simp
qed

lemma row_and_body_bounds:
  "row_and_body u summary body = (tx, rest) \<Longrightarrow>
     length (runes_of tx) \<le> summaryMax \<and> length (runes_of rest) \<le> bodyMax \<and> oneLine u tx = tx"
proof -
  assume rb: "row_and_body u summary body = (tx, rest)"
  then have "tx = oneLine u summary \<or> tx = oneLine u body" "rest = [] \<or> rest = bodyText u body"
    by (auto simp: row_and_body_def Let_def split: if_splits)
  moreover have "length (runes_of (bodyText u body)) \<le> bodyMax" "length (runes_of []) \<le> bodyMax"
    using clean_length[of bodyMax u body True] by (simp_all add: bodyText_def runes_of_def)
  ultimately show ?thesis using oneLine_bounds[of u] oneLine_oneLine by metis
qed

lemma remember_lookup:
  "lookup_name k (remember k i s) = Some i"
  "lookup_name k' s = Some i \<Longrightarrow> lookup_name k' (remember k i s) = Some i"
  by (simp_all add: lookup_name_def remember_tables)

lemma takeActions_bound: "takeActions u actions = (kept, extra) \<Longrightarrow> length kept \<le> actionsMax"
  by (auto simp: takeActions_pairs)

text \<open>C20: what reaches the sink off the bus is fit to be shown, and never the desktop's. When \<open>Notify\<close>
  answers with a number the sink was handed a notification that draws as something, whose
  summary, body and actions are within their bounds, whose sender is what \<open>claim\<close> makes of the
  app's name and which does not carry the desktop's mark; the number is the sink's id cut to 32
  bits, and it and the number the sender asked for now both find that item.\<close>

theorem notify_delivers:
  assumes "Notify u closed arrived sender app replaces summary body actions hints s = (Some r, s')"
  shows "\<exists>n i t t'. arrived n t = (Some i, t') \<and> r = ucast i
    \<and> Draws u (n_Text n) \<and> length (runes_of (n_Text n)) \<le> summaryMax \<and> oneLine u (n_Text n) = n_Text n
    \<and> length (runes_of (n_Body n)) \<le> bodyMax \<and> length (n_Actions n) \<le> actionsMax
    \<and> n_From n = claim u app sender \<and> \<not> n_Self n
    \<and> lookup_name (sender, r) s' = Some i \<and> (replaces \<noteq> 0 \<longrightarrow> lookup_name (sender, replaces) s' = Some i)"
proof -
  obtain tx rest where rb: "row_and_body u summary body = (tx, rest)" by fastforce
  obtain kept extra where ta: "takeActions u actions = (kept, extra)" by fastforce
  obtain ok replaced s1 where f: "superseded closed sender replaces s = (ok, replaced, s1)"
    by (cases "superseded closed sender replaces s")
  define n where "n = \<lparr>n_From = claim u app sender, n_Self = False, n_Text = tx, n_Body = rest,
                      n_Urgent = (urgency hints = 2), n_Actions = kept, n_Extra = extra,
                      n_Replaces = replaced\<rparr>"
  obtain ans s2 where a: "arrived n s1 = (ans, s2)" by fastforce
  note N = assms[unfolded Notify_def rb prod.case ta f n_def[symmetric]]
  have d: "Draws u tx" using N by (auto split: if_splits)
  have ok: "ok" using N d by (cases ok) auto
  obtain i where i: "ans = Some i" using N d ok a by (cases ans) auto
  have r: "r = ucast i" "s' = (if replaces \<noteq> 0 then remember (sender, replaces) i (remember (sender, ucast i) i s2)
                       else remember (sender, ucast i) i s2)"
    using N d ok a i by (auto simp: Let_def)
  have "lookup_name (sender, r) s' = Some i \<and> (replaces \<noteq> 0 \<longrightarrow> lookup_name (sender, replaces) s' = Some i)"
    unfolding r by (cases "replaces = 0") (simp_all add: remember_lookup(1) remember_lookup(2)[OF remember_lookup(1)])
  moreover have "length (runes_of (n_Text n)) \<le> summaryMax \<and> length (runes_of (n_Body n)) \<le> bodyMax \<and> oneLine u (n_Text n) = n_Text n"
    using row_and_body_bounds[OF rb] by (simp add: n_def)
  moreover have "length (n_Actions n) \<le> actionsMax" "n_From n = claim u app sender" "\<not> n_Self n" "Draws u (n_Text n)"
    using takeActions_bound[OF ta] d by (simp_all add: n_def)
  ultimately show ?thesis using a i r(1) by blast
qed

lemma notify_delivers_witness:
  "\<exists>n i t t'. (\<lambda>n t. (Some 9, t)) n (t :: server) = (Some i, t') \<and> (9 :: 32 word) = ucast (i :: 64 word) \<and> \<not> n_Self (n :: notification)"
proof -
  have "oneLine ascii_unicode ''hi'' = ''hi''"
    by (rule oneLine_plain[OF ascii_unicode_ok]) (simp_all add: summaryMax_def)
  moreover have "drawn ascii_unicode ''hi'' = ''hi''" by (rule drawn_ascii[OF ascii_unicode_ok]) simp
  ultimately have "row_and_body ascii_unicode ''hi'' [] = (''hi'', bodyText ascii_unicode [])" "Draws ascii_unicode ''hi''"
    by (simp_all add: Draws_def row_and_body_def)
  then have "\<exists>s'. Notify ascii_unicode (\<lambda>i t. (True, t)) (\<lambda>n t. (Some 9, t)) '':1.7'' ''mail'' 0 ''hi'' [] [] Map.empty quiet_server
      = (Some 9, s')"
    unfolding Notify_def by (simp add: superseded_def takeActions_def)
  then show ?thesis
    using notify_delivers [of ascii_unicode "\<lambda>i t. (True, t)" "\<lambda>n t. (Some 9, t)" "'':1.7''" "''mail''" 0 "''hi''" "[]" "[]" Map.empty quiet_server 9]
    by blast
qed

end
