(* ===== verification/Plainfile.thy ===== *)
theory Plainfile
  imports Prelude
begin

text \<open>
  \<open>internal/plainfile/plainfile.go\<close>, the opening of a file the daemon is about to believe,
  and the part of \<open>path/filepath\<close> the sources build their paths with. What the kernel
  answers (an open descriptor or an error, what \<open>fstat\<close> says of it, the bytes behind it) is
  an argument; the decision is the code's.
\<close>

unbundle bit_operations_syntax

section \<open>filepath.Clean, Join and Ext on a Unix system\<close>

fun clean_step :: "bool \<Rightarrow> string \<Rightarrow> string list \<Rightarrow> string list" where
  "clean_step rooted e out =
     (if e = [] \<or> e = ''.'' then out
      else if e = ''..'' then
        (case out of
           [] \<Rightarrow> if rooted then [] else [''..'']
         | t # rest \<Rightarrow> if t = ''..'' then ''..'' # out else rest)
      else e # out)"

definition Clean :: "string \<Rightarrow> string" where
  "Clean p =
     (if p = [] then ''.''
      else let rooted = (hd p = CHR ''/'');
               out = rev (fold (clean_step rooted) (split_on (CHR ''/'') p) [])
           in if rooted then CHR ''/'' # join_with (CHR ''/'') out
              else if out = [] then ''.'' else join_with (CHR ''/'') out)"

definition Join :: "string list \<Rightarrow> string" where
  "Join parts = (case dropWhile (\<lambda>e. e = []) parts of [] \<Rightarrow> [] | es \<Rightarrow> Clean (join_with (CHR ''/'') es))"

text \<open>The last dot of the last element and what follows it.\<close>

fun ext_loop :: "string \<Rightarrow> string \<Rightarrow> string" where
  "ext_loop [] acc = []"
| "ext_loop (c # cs) acc =
     (if c = CHR ''/'' then [] else if c = CHR ''.'' then c # acc else ext_loop cs (c # acc))"

definition Ext :: "string \<Rightarrow> string" where
  "Ext p = ext_loop (rev p) []"

section \<open>The code\<close>

type_synonym os_error = string

datatype open_error =
  Os os_error | NotAFile string | UnknownOwner | RootWritable | AnotherAccount | LargerThan nat

record file_stat =
  fi_mode :: "32 word"
  fi_uid :: "int option"

text \<open>
  An open descriptor: what \<open>fstat\<close> answers, the bytes behind it, and what comes after the
  last of them (the end of the file, or an error).
\<close>

record descriptor =
  d_stat :: "os_error + file_stat"
  d_bytes :: string
  d_end :: "os_error option"

definition ModeDir :: "32 word" where "ModeDir = 0x80000000"
definition ModeSymlink :: "32 word" where "ModeSymlink = 0x08000000"
definition ModeDevice :: "32 word" where "ModeDevice = 0x04000000"
definition ModeNamedPipe :: "32 word" where "ModeNamedPipe = 0x02000000"
definition ModeSocket :: "32 word" where "ModeSocket = 0x01000000"
definition ModeCharDevice :: "32 word" where "ModeCharDevice = 0x00200000"
definition ModeIrregular :: "32 word" where "ModeIrregular = 0x00080000"

definition IsRegular :: "32 word \<Rightarrow> bool" where
  "IsRegular m \<longleftrightarrow> m AND (ModeDir OR ModeSymlink OR ModeDevice OR ModeNamedPipe OR ModeSocket
     OR ModeCharDevice OR ModeIrregular) = 0"

definition Perm :: "32 word \<Rightarrow> 32 word" where "Perm m = m AND 0x1FF"

text \<open>Go's \<open>0o222\<close> is \<open>0x92\<close>, the three write bits, and its \<open>0o777\<close> is \<open>0x1FF\<close>.\<close>

definition trusted :: "int \<Rightarrow> int \<Rightarrow> 32 word \<Rightarrow> bool" where
  "trusted owner us mode = (if owner = us then True else owner = 0 \<and> Perm mode AND 0x92 = 0)"

definition kind :: "32 word \<Rightarrow> string" where
  "kind m =
     (if m AND ModeNamedPipe \<noteq> 0 then ''a named pipe''
      else if m AND ModeSocket \<noteq> 0 then ''a socket''
      else if m AND ModeDevice \<noteq> 0 then ''a device''
      else if m AND ModeDir \<noteq> 0 then ''a directory''
      else ''not a plain file'')"

definition check_file :: "int \<Rightarrow> descriptor \<Rightarrow> open_error option" where
  "check_file us f =
     (case d_stat f of
        Inl e \<Rightarrow> Some (Os e)
      | Inr fi \<Rightarrow>
          if \<not> IsRegular (fi_mode fi) then Some (NotAFile (kind (fi_mode fi)))
          else (case fi_uid fi of
                  None \<Rightarrow> Some UnknownOwner
                | Some uid \<Rightarrow>
                    if \<not> trusted uid us (fi_mode fi) then
                      (if uid = 0 then Some RootWritable else Some AnotherAccount)
                    else None))"

text \<open>
  \<open>os.OpenFile\<close> as the kernel answers it: the flag says whether a symbolic link at the last
  component is followed.
\<close>

type_synonym kernel = "string \<Rightarrow> bool \<Rightarrow> os_error + descriptor"

definition open_file :: "kernel \<Rightarrow> int \<Rightarrow> string \<Rightarrow> bool \<Rightarrow> open_error + descriptor" where
  "open_file os us path nofollow =
     (case os path nofollow of
        Inl e \<Rightarrow> Inl (Os e)
      | Inr f \<Rightarrow> (case check_file us f of Some e \<Rightarrow> Inl e | None \<Rightarrow> Inr f))"

definition Open_plain :: "kernel \<Rightarrow> int \<Rightarrow> string \<Rightarrow> open_error + descriptor" where
  "Open_plain os us path = open_file os us path False"

definition OpenNoFollow :: "kernel \<Rightarrow> int \<Rightarrow> string \<Rightarrow> open_error + descriptor" where
  "OpenNoFollow os us path = open_file os us path True"

text \<open>\<open>io.ReadAll\<close> of an \<open>io.LimitReader\<close>: past the limit the descriptor is not asked again.\<close>

definition read_limited :: "descriptor \<Rightarrow> nat \<Rightarrow> os_error + string" where
  "read_limited f n =
     (if n \<le> length (d_bytes f) then Inr (take n (d_bytes f))
      else (case d_end f of Some e \<Rightarrow> Inl e | None \<Rightarrow> Inr (d_bytes f)))"

definition Read :: "kernel \<Rightarrow> int \<Rightarrow> string \<Rightarrow> nat \<Rightarrow> open_error + string" where
  "Read os us path limit =
     (case Open_plain os us path of
        Inl e \<Rightarrow> Inl e
      | Inr f \<Rightarrow>
          (case read_limited f (limit + 1) of
             Inl e \<Rightarrow> Inl (Os e)
           | Inr bytes \<Rightarrow> if limit < length bytes then Inl (LargerThan limit) else Inr bytes))"

section \<open>What a read promises\<close>

lemma check_file_None:
  "check_file us f = None \<longleftrightarrow>
   (\<exists>fi uid. d_stat f = Inr fi \<and> IsRegular (fi_mode fi) \<and> fi_uid fi = Some uid \<and> trusted uid us (fi_mode fi))"
  by (auto simp: check_file_def split: sum.splits option.splits if_splits)

lemma read_limited_whole:
  "read_limited f (n + 1) = Inr bs \<and> length bs \<le> n \<longleftrightarrow> d_bytes f = bs \<and> d_end f = None \<and> length bs \<le> n"
  by (auto simp: read_limited_def split: option.splits)

lemma open_file_Inr: "open_file os us p b = Inr f \<longleftrightarrow> os p b = Inr f \<and> check_file us f = None"
  by (auto simp: open_file_def split: sum.splits option.splits)

lemma Read_Inr:
  "Read os us path limit = Inr bs \<longleftrightarrow>
   (\<exists>f. Open_plain os us path = Inr f \<and> read_limited f (limit + 1) = Inr bs \<and> length bs \<le> limit)"
  by (auto simp: Read_def split: sum.splits)

text \<open>C37: a bounded read answers with the whole of a regular file that is ours, or root's and
  writable by nobody, and no longer than the bound; everything else (a pipe, a socket,
  another account's file, one byte too many, an error on the way) is a refusal, and no read
  is ever a truncation.\<close>

theorem Read_whole_or_refused:
  "Read os us path limit = Inr bs \<longleftrightarrow>
   (\<exists>f fi uid. os path False = Inr f \<and> d_stat f = Inr fi \<and> IsRegular (fi_mode fi)
      \<and> fi_uid fi = Some uid \<and> (uid = us \<or> uid = 0 \<and> Perm (fi_mode fi) AND 0x92 = 0)
      \<and> d_bytes f = bs \<and> d_end f = None \<and> length bs \<le> limit)"
  unfolding Read_Inr Open_plain_def open_file_Inr check_file_None trusted_def read_limited_whole
  by (auto split: if_splits)

end
