(* ===== verification/Manifest.thy ===== *)
theory Manifest
  imports Plainfile Desk_Map Attn_Text
begin

text \<open>
  \<open>internal/manifest/manifest.go\<close>: what a desk declares, the check every manifest passes, the
  snapshot that writes a desk on the screen down as one, and the directory they are read
  from. A Go map is an association list in the order Go happens to iterate it. The YAML
  decoder and encoder are third-party code and arguments: decoding answers with an error, or
  with the first document and whether the file ends there.
\<close>

section \<open>The code\<close>

record monitor_block =
  mb_workspaces :: "string list"

record app =
  ap_app :: string
  ap_instance :: string
  ap_app_id :: string
  ap_mounts :: "(string \<times> string) list"
  ap_monitor :: string
  ap_workspace :: string
  ap_background :: string

record policies =
  pl_attn :: string
  pl_zen :: bool

record desk_manifest =
  ds_name :: string
  ds_private :: bool
  ds_monitors :: "(string \<times> monitor_block) list"
  ds_apps :: "app list"
  ds_policies :: policies
  ds_on_enter :: "string list"
  ds_on_exit :: "string list"

datatype manifest_error =
  ReservedBand | BadDeskName name_error | NoMonitors | NoWorkspaces string
| BadWorkspace name_error | DeclaredTwice string string | BadMode string
| NoApp nat | AppAddress string string string | BadApp string | BadInstance string string
| BadAppID string string | BadMount string string | BadBackground string string
| NoSuchMonitor string string | NoSuchWorkspace string string string

definition DefaultDir :: "string \<Rightarrow> os_error + string \<Rightarrow> string \<Rightarrow> string" where
  "DefaultDir config home temp =
     (if config \<noteq> [] then Join [config, ''zde'', ''desks'']
      else (case home of
              Inl e \<Rightarrow> Join [temp, ''zde'', ''desks'']
            | Inr h \<Rightarrow> Join [h, ''.config'', ''zde'', ''desks'']))"

fun contains :: "string list \<Rightarrow> string \<Rightarrow> bool" where
  "contains [] s = False"
| "contains (v # all) s = (if v = s then True else contains all s)"

definition sortedKeys :: "(string \<times> 'v) list \<Rightarrow> string list" where
  "sortedKeys m = sort_strings (map fst m)"

text \<open>\<open>strings.Cut\<close>: the text around the first separator, when there is one.\<close>

definition cut_at :: "char \<Rightarrow> string \<Rightarrow> (string \<times> string) option" where
  "cut_at c s = (if c \<in> set s then Some (takeWhile (\<lambda>x. x \<noteq> c) s, tl (dropWhile (\<lambda>x. x \<noteq> c) s)) else None)"

definition ContainsAny :: "string \<Rightarrow> string \<Rightarrow> bool" where
  "ContainsAny s cs \<longleftrightarrow> list_ex (\<lambda>c. c \<in> set cs) s"

text \<open>The characters an app id may not hold: a quote, a backslash and the two line ends.\<close>

definition kdl_breakers :: string where
  "kdl_breakers = [char_of (34 :: nat), char_of (92 :: nat), char_of (10 :: nat), char_of (13 :: nat)]"

fun check_labels :: "string \<Rightarrow> string \<Rightarrow> string list \<Rightarrow> (string \<Rightarrow> bool) \<Rightarrow> manifest_error option" where
  "check_labels name output [] seen = None"
| "check_labels name output (label # rest) seen =
     (case NewName name output label of
        Inl e \<Rightarrow> Some (BadWorkspace e)
      | Inr _ \<Rightarrow>
          if seen label then Some (DeclaredTwice output label)
          else check_labels name output rest (seen(label := True)))"

fun check_monitors :: "string \<Rightarrow> (string \<times> monitor_block) list \<Rightarrow> manifest_error option" where
  "check_monitors name [] = None"
| "check_monitors name ((output, mon) # rest) =
     (if mb_workspaces mon = [] then Some (NoWorkspaces output)
      else (case check_labels name output (mb_workspaces mon) (\<lambda>_. False) of
              Some e \<Rightarrow> Some e
            | None \<Rightarrow> check_monitors name rest))"

fun check_mounts :: "string \<Rightarrow> (string \<times> string) list \<Rightarrow> manifest_error option" where
  "check_mounts name [] = None"
| "check_mounts name ((sl, path) # rest) =
     (if \<not> ValidDesk sl then Some (BadMount name sl) else check_mounts name rest)"

definition check_pin :: "desk_manifest \<Rightarrow> app \<Rightarrow> manifest_error option" where
  "check_pin d a =
     (if ap_monitor a = [] \<and> ap_workspace a = [] then None
      else (case map_of (ds_monitors d) (ap_monitor a) of
              None \<Rightarrow> Some (NoSuchMonitor (ap_app a) (ap_monitor a))
            | Some mon \<Rightarrow>
                if \<not> contains (mb_workspaces mon) (ap_workspace a)
                then Some (NoSuchWorkspace (ap_app a) (ap_workspace a) (ap_monitor a))
                else None))"

definition check_app :: "desk_manifest \<Rightarrow> nat \<Rightarrow> app \<Rightarrow> manifest_error option" where
  "check_app d i a =
     (if ap_app a = [] then Some (NoApp (i + 1))
      else (case cut_at (CHR ''@'') (ap_app a) of
         Some (base, inst) \<Rightarrow> Some (AppAddress (ap_app a) base inst)
       | None \<Rightarrow>
           if \<not> ValidDesk (ap_app a) then Some (BadApp (ap_app a))
           else if ap_instance a \<noteq> [] \<and> \<not> ValidDesk (ap_instance a)
             then Some (BadInstance (ap_app a) (ap_instance a))
           else if ContainsAny (ap_app_id a) kdl_breakers then Some (BadAppID (ap_app a) (ap_app_id a))
           else (case check_mounts (ap_app a) (ap_mounts a) of
              Some e \<Rightarrow> Some e
            | None \<Rightarrow>
                if ap_background a = [] \<or> ap_background a = ''keep'' \<or> ap_background a = ''pause''
                then check_pin d a
                else Some (BadBackground (ap_app a) (ap_background a)))))"

fun check_apps :: "desk_manifest \<Rightarrow> nat \<Rightarrow> app list \<Rightarrow> manifest_error option" where
  "check_apps d i [] = None"
| "check_apps d i (a # rest) =
     (case check_app d i a of Some e \<Rightarrow> Some e | None \<Rightarrow> check_apps d (i + 1) rest)"

definition check_mode :: "desk_manifest \<Rightarrow> manifest_error option" where
  "check_mode d =
     (if pl_attn (ds_policies d) = [] then None
      else (case ParseMode (pl_attn (ds_policies d)) of Inl e \<Rightarrow> Some (BadMode e) | Inr _ \<Rightarrow> None))"

definition check :: "desk_manifest \<Rightarrow> manifest_error option" where
  "check d =
     (if ds_name d = Regulars then Some ReservedBand
      else (case NewName (ds_name d) ''DP-1'' ''check'' of
         Inl e \<Rightarrow> Some (BadDeskName e)
       | Inr _ \<Rightarrow>
           if ds_monitors d = [] then Some NoMonitors
           else (case check_monitors (ds_name d) (ds_monitors d) of
              Some e \<Rightarrow> Some e
            | None \<Rightarrow> (case check_mode d of
                 Some e \<Rightarrow> Some e
               | None \<Rightarrow> check_apps d 0 (ds_apps d)))))"

text \<open>The inner loop of \<open>Workspaces\<close>: a label that mints no name is left out.\<close>

fun declared_names :: "string \<Rightarrow> string \<Rightarrow> string list \<Rightarrow> name list" where
  "declared_names name output [] = []"
| "declared_names name output (label # rest) =
     (case NewName name output label of
        Inl _ \<Rightarrow> declared_names name output rest
      | Inr n \<Rightarrow> n # declared_names name output rest)"

definition block_of :: "desk_manifest \<Rightarrow> string \<Rightarrow> monitor_block" where
  "block_of d output = aget \<lparr>mb_workspaces = []\<rparr> (ds_monitors d) output"

definition declared_workspaces :: "desk_manifest \<Rightarrow> name list" where
  "declared_workspaces d =
     concat (map (\<lambda>output. declared_names (ds_name d) output (mb_workspaces (block_of d output)))
       (sortedKeys (ds_monitors d)))"

datatype snapshot_error = NothingToWrite string | NotAManifest manifest_error

definition add_workspace :: "name \<Rightarrow> desk_manifest \<Rightarrow> desk_manifest" where
  "add_workspace n d =
     (let mon = block_of d (monitor n)
      in d\<lparr>ds_monitors := AList.update (monitor n) (mon\<lparr>mb_workspaces := mb_workspaces mon @ [slot n]\<rparr>)
             (ds_monitors d)\<rparr>)"

definition new_desk :: "string \<Rightarrow> bool \<Rightarrow> desk_manifest" where
  "new_desk name priv =
     \<lparr>ds_name = name, ds_private = priv, ds_monitors = [], ds_apps = [],
      ds_policies = \<lparr>pl_attn = [], pl_zen = False\<rparr>, ds_on_enter = [], ds_on_exit = []\<rparr>"

definition FromMap :: "desk_map \<Rightarrow> string \<Rightarrow> bool \<Rightarrow> snapshot_error + desk_manifest" where
  "FromMap m name priv =
     (if Workspaces m name = [] then Inl (NothingToWrite name)
      else let d = fold add_workspace (Workspaces m name) (new_desk name priv)
           in (case check d of Some e \<Rightarrow> Inl (NotAManifest e) | None \<Rightarrow> Inr d))"

section \<open>The directory\<close>

text \<open>The YAML decoder: an error, or the first document and whether nothing follows it.\<close>

type_synonym yaml = "string \<Rightarrow> string + desk_manifest \<times> bool"

datatype parse_error = Yaml string | SecondDocument string | Refused manifest_error

definition Parse :: "yaml \<Rightarrow> string \<Rightarrow> parse_error + desk_manifest" where
  "Parse dec bytes =
     (case dec bytes of
        Inl e \<Rightarrow> Inl (Yaml e)
      | Inr (d, eof) \<Rightarrow>
          if \<not> eof then Inl (SecondDocument (ds_name d))
          else (case check d of Some e \<Rightarrow> Inl (Refused e) | None \<Rightarrow> Inr d))"

definition bytesMax :: nat where "bytesMax = 64 * 1024"
definition manifestsMax :: nat where "manifestsMax = 256"

datatype problem_cause =
  Unreadable open_error | Unparsed parse_error | TooMany | AlreadyDeclared string string

record problem =
  Path :: string
  Err :: problem_cause

definition Load :: "kernel \<Rightarrow> int \<Rightarrow> yaml \<Rightarrow> string \<Rightarrow> problem_cause + desk_manifest" where
  "Load os us dec path =
     (case Read os us path bytesMax of
        Inl e \<Rightarrow> Inl (Unreadable e)
      | Inr bytes \<Rightarrow> (case Parse dec bytes of Inl e \<Rightarrow> Inl (Unparsed e) | Inr d \<Rightarrow> Inr d))"

text \<open>What \<open>os.ReadDir\<close> answers: a listing sorted by name, or an error.\<close>

record dir_entry =
  de_name :: string
  de_dir :: bool

datatype listing = NotThere | Unlistable os_error | Listed "dir_entry list"

record loaded =
  ld_out :: "(string \<times> desk_manifest) list"
  ld_files :: "(string \<times> string) list"
  ld_problems :: "problem list"

definition nothing_loaded :: loaded where
  "nothing_loaded = \<lparr>ld_out = [], ld_files = [], ld_problems = []\<rparr>"

definition is_manifest :: "dir_entry \<Rightarrow> bool" where
  "is_manifest e \<longleftrightarrow> \<not> de_dir e \<and> (Ext (de_name e) = ''.yaml'' \<or> Ext (de_name e) = ''.yml'')"

text \<open>One file that is a manifest by its name.\<close>

definition load_one :: "kernel \<Rightarrow> int \<Rightarrow> yaml \<Rightarrow> string \<Rightarrow> loaded \<Rightarrow> loaded" where
  "load_one os us dec path l =
     (case Load os us dec path of
        Inl e \<Rightarrow> l\<lparr>ld_problems := ld_problems l @ [\<lparr>Path = path, Err = e\<rparr>]\<rparr>
      | Inr d \<Rightarrow>
          (case map_of (ld_out l) (ds_name d) of
             Some prev \<Rightarrow>
               l\<lparr>ld_problems := ld_problems l @
                  [\<lparr>Path = path, Err = AlreadyDeclared (ds_name prev) (aget [] (ld_files l) (ds_name prev))\<rparr>]\<rparr>
           | None \<Rightarrow>
               l\<lparr>ld_out := AList.update (ds_name d) d (ld_out l),
                 ld_files := AList.update (ds_name d) path (ld_files l)\<rparr>))"

fun load_entries :: "kernel \<Rightarrow> int \<Rightarrow> yaml \<Rightarrow> string \<Rightarrow> dir_entry list \<Rightarrow> loaded \<Rightarrow> loaded" where
  "load_entries os us dec dir [] l = l"
| "load_entries os us dec dir (e # rest) l =
     (if de_dir e then load_entries os us dec dir rest l
      else if Ext (de_name e) \<noteq> ''.yaml'' \<and> Ext (de_name e) \<noteq> ''.yml''
        then load_entries os us dec dir rest l
      else if manifestsMax \<le> length (ld_out l) + length (ld_problems l)
        then l\<lparr>ld_problems := ld_problems l @ [\<lparr>Path = dir, Err = TooMany\<rparr>]\<rparr>
      else load_entries os us dec dir rest (load_one os us dec (Join [dir, de_name e]) l))"

definition loadDir :: "kernel \<Rightarrow> int \<Rightarrow> yaml \<Rightarrow> (string \<Rightarrow> listing) \<Rightarrow> string \<Rightarrow> os_error + loaded" where
  "loadDir os us dec ls dir =
     (case ls dir of
        NotThere \<Rightarrow> Inr nothing_loaded
      | Unlistable e \<Rightarrow> Inl e
      | Listed es \<Rightarrow> Inr (load_entries os us dec dir es nothing_loaded))"

definition LoadDir ::
  "kernel \<Rightarrow> int \<Rightarrow> yaml \<Rightarrow> (string \<Rightarrow> listing) \<Rightarrow> string
   \<Rightarrow> os_error + (string \<times> desk_manifest) list \<times> problem list" where
  "LoadDir os us dec ls dir =
     map_sum id (\<lambda>l. (ld_out l, ld_problems l)) (loadDir os us dec ls dir)"

text \<open>
  Saving. Every call that can fail has an outcome of its own (\<open>None\<close> when it succeeds); the
  disk is a map from paths to contents.
\<close>

record outcomes =
  oc_mkdir :: "os_error option"
  oc_chmod :: "os_error option"
  oc_create :: "os_error option"
  oc_write :: "os_error option"
  oc_sync :: "os_error option"
  oc_mode :: "os_error option"
  oc_close :: "os_error option"
  oc_link :: "os_error option"

datatype write_error = Failed os_error | Exists

text \<open>The temporary file is removed on every path, so only a link that succeeds leaves anything.\<close>

definition writeNew ::
  "outcomes \<Rightarrow> string \<Rightarrow> string \<Rightarrow> (string \<rightharpoonup> string) \<Rightarrow> write_error option \<times> (string \<rightharpoonup> string)" where
  "writeNew oc path content fs =
     (case oc_create oc of Some e \<Rightarrow> (Some (Failed e), fs) | None \<Rightarrow>
     (case oc_write oc of Some e \<Rightarrow> (Some (Failed e), fs) | None \<Rightarrow>
     (case oc_sync oc of Some e \<Rightarrow> (Some (Failed e), fs) | None \<Rightarrow>
     (case oc_mode oc of Some e \<Rightarrow> (Some (Failed e), fs) | None \<Rightarrow>
     (case oc_close oc of Some e \<Rightarrow> (Some (Failed e), fs) | None \<Rightarrow>
     (if fs path \<noteq> None then (Some Exists, fs)
      else (case oc_link oc of Some e \<Rightarrow> (Some (Failed e), fs)
            | None \<Rightarrow> (None, fs(path \<mapsto> content)))))))))"

datatype save_error =
  SaveRefused manifest_error | CannotTell os_error | DeclaredIn string string
| MkdirFailed os_error | ChmodFailed os_error | MarshalFailed string
| WriteFailed os_error | FileExists string

definition header :: string where
  "header = ''# Written by zde desk snapshot. Apps are not captured yet - add'' @ [char_of (10 :: nat)]
     @ ''# them by hand (docs/model.md, section 5).'' @ [char_of (10 :: nat)]"

definition Save ::
  "(string \<Rightarrow> os_error + loaded) \<Rightarrow> (desk_manifest \<Rightarrow> string + string) \<Rightarrow> string \<Rightarrow> outcomes
   \<Rightarrow> string \<Rightarrow> desk_manifest \<Rightarrow> (string \<rightharpoonup> string) \<Rightarrow> (save_error + string) \<times> (string \<rightharpoonup> string)" where
  "Save load marshal defaultDir oc dir d fs =
     (case check d of Some e \<Rightarrow> (Inl (SaveRefused e), fs) | None \<Rightarrow>
     (case load dir of Inl e \<Rightarrow> (Inl (CannotTell e), fs) | Inr l \<Rightarrow>
     (if map_of (ld_out l) (ds_name d) \<noteq> None
      then (Inl (DeclaredIn (aget [] (ld_files l) (ds_name d)) (ds_name d)), fs)
      else
     (case oc_mkdir oc of Some e \<Rightarrow> (Inl (MkdirFailed e), fs) | None \<Rightarrow>
     (case (if Clean dir = defaultDir then oc_chmod oc else None) of
        Some e \<Rightarrow> (Inl (ChmodFailed e), fs)
      | None \<Rightarrow>
     (let path = Join [dir, ds_name d @ ''.yaml'']
      in case marshal d of Inl e \<Rightarrow> (Inl (MarshalFailed e), fs) | Inr out \<Rightarrow>
     (case writeNew oc path (header @ out) fs of
        (Some Exists, fs) \<Rightarrow> (Inl (FileExists path), fs)
      | (Some (Failed e), fs) \<Rightarrow> (Inl (WriteFailed e), fs)
      | (None, fs) \<Rightarrow> (Inr path, fs))))))))"

section \<open>What the check accepts\<close>

text \<open>The specification, with no order in it: which manifests are desks.\<close>

definition block_ok :: "string \<Rightarrow> string \<times> monitor_block \<Rightarrow> bool" where
  "block_ok name p \<longleftrightarrow> mb_workspaces (snd p) \<noteq> [] \<and> distinct (mb_workspaces (snd p))
     \<and> (\<forall>l \<in> set (mb_workspaces (snd p)). valid_name \<lparr>desk = name, monitor = fst p, slot = l\<rparr>)"

definition pin_ok :: "desk_manifest \<Rightarrow> app \<Rightarrow> bool" where
  "pin_ok d a \<longleftrightarrow> ap_monitor a = [] \<and> ap_workspace a = []
     \<or> (\<exists>mon. map_of (ds_monitors d) (ap_monitor a) = Some mon \<and> ap_workspace a \<in> set (mb_workspaces mon))"

definition app_ok :: "desk_manifest \<Rightarrow> app \<Rightarrow> bool" where
  "app_ok d a \<longleftrightarrow> ValidDesk (ap_app a) \<and> (ap_instance a = [] \<or> ValidDesk (ap_instance a))
     \<and> set (ap_app_id a) \<inter> set kdl_breakers = {} \<and> (\<forall>m \<in> set (ap_mounts a). ValidDesk (fst m))
     \<and> ap_background a \<in> {[], ''keep'', ''pause''} \<and> pin_ok d a"

definition manifest_ok :: "desk_manifest \<Rightarrow> bool" where
  "manifest_ok d \<longleftrightarrow> ValidDesk (ds_name d) \<and> ds_name d \<noteq> Regulars \<and> ds_monitors d \<noteq> []
     \<and> (\<forall>p \<in> set (ds_monitors d). block_ok (ds_name d) p)
     \<and> pl_attn (ds_policies d) \<in> {[], Work, Focus, Quiet}
     \<and> (\<forall>a \<in> set (ds_apps d). app_ok d a)"

lemma contains_set [simp]: "contains xs s \<longleftrightarrow> s \<in> set xs"
  by (induction xs) auto

lemma NewName_Inr_eq: "NewName d m s = Inr n \<longleftrightarrow> n = \<lparr>desk = d, monitor = m, slot = s\<rparr> \<and> valid_name n"
proof
  assume a: "NewName d m s = Inr n"
  then have n: "valid_name n" "String n = d @ ''.'' @ m @ ''.'' @ s" by (simp_all add: NewName_iff)
  then have "CHR ''.'' \<notin> set d" "CHR ''.'' \<notin> set m" "CHR ''.'' \<notin> set s"
    using count_dots_String [OF n(1)] by (simp_all add: n(2) count_list_append count_list_0_iff [symmetric])
  with a show "n = \<lparr>desk = d, monitor = m, slot = s\<rparr> \<and> valid_name n" using NewName_parts by metis
qed (auto simp: NewName_iff String_def)

lemma NewName_ok_eq: "valid_name \<lparr>desk = d, monitor = m, slot = s\<rparr> \<Longrightarrow> NewName d m s = Inr \<lparr>desk = d, monitor = m, slot = s\<rparr>"
  by (simp add: NewName_Inr_eq)

lemma NewName_Inl: "NewName d m s = Inl e \<Longrightarrow> \<not> valid_name \<lparr>desk = d, monitor = m, slot = s\<rparr>"
  by (auto dest: NewName_ok_eq)

lemma check_labels_None:
  "check_labels name out ls seen = None \<longleftrightarrow>
   distinct ls \<and> (\<forall>l \<in> set ls. valid_name \<lparr>desk = name, monitor = out, slot = l\<rparr> \<and> \<not> seen l)"
proof (induction ls arbitrary: seen)
  case (Cons l ls)
  show ?case
  proof (cases "NewName name out l")
    case (Inl e)
    then show ?thesis using NewName_Inl [OF Inl] by simp
  next
    case (Inr n)
    then have v: "valid_name \<lparr>desk = name, monitor = out, slot = l\<rparr>" by (auto simp: NewName_Inr_eq)
    have "check_labels name out (l # ls) seen = None \<longleftrightarrow>
      \<not> seen l \<and> check_labels name out ls (seen(l := True)) = None" using Inr by simp
    also have "\<dots> \<longleftrightarrow> \<not> seen l \<and> distinct ls \<and> l \<notin> set ls
      \<and> (\<forall>k \<in> set ls. valid_name \<lparr>desk = name, monitor = out, slot = k\<rparr> \<and> \<not> seen k)"
      unfolding Cons.IH by (auto split: if_splits)
    finally show ?thesis using v by (simp only: distinct.simps list.set ball_simps) blast
  qed
qed simp

lemma check_monitors_None:
  "check_monitors name ms = None \<longleftrightarrow> (\<forall>p \<in> set ms. block_ok name p)"
  by (induction name ms rule: check_monitors.induct) (auto simp: block_ok_def check_labels_None)

lemma check_mounts_None: "check_mounts name ms = None \<longleftrightarrow> (\<forall>m \<in> set ms. ValidDesk (fst m))"
  by (induction name ms rule: check_mounts.induct) auto

lemma check_pin_None: "check_pin d a = None \<longleftrightarrow> pin_ok d a"
  by (auto simp: check_pin_def pin_ok_def split: option.splits)

lemma not_in_name: "namePart s \<Longrightarrow> CHR ''@'' \<notin> set s"
proof -
  have "dashed lower_num lower_num b t \<Longrightarrow> CHR ''@'' \<notin> set t" for b t
    by (induction lower_num lower_num b t rule: dashed.induct)
      (auto simp: lower_num_def lower_def is_digit_def split: if_splits)
  then show "namePart s \<Longrightarrow> CHR ''@'' \<notin> set s" by (simp add: namePart_def)
qed

lemma ValidDesk_plain: "ValidDesk s \<Longrightarrow> s \<noteq> [] \<and> cut_at (CHR ''@'') s = None"
  using not_in_name by (auto simp: ValidDesk_def cut_at_def)

lemma check_app_None: "check_app d i a = None \<longleftrightarrow> app_ok d a"
proof -
  have "ContainsAny (ap_app_id a) kdl_breakers \<longleftrightarrow> set (ap_app_id a) \<inter> set kdl_breakers \<noteq> {}"
    by (auto simp: ContainsAny_def list_ex_iff)
  then show ?thesis
    using ValidDesk_plain [of "ap_app a"]
    by (cases "cut_at (CHR ''@'') (ap_app a)") (auto simp: check_app_def app_ok_def check_mounts_None check_pin_None split: if_splits)
qed

lemma check_apps_None: "check_apps d i as = None \<longleftrightarrow> (\<forall>a \<in> set as. app_ok d a)"
  by (induction as arbitrary: i) (auto simp: check_app_None)

lemma check_mode_None: "check_mode d = None \<longleftrightarrow> pl_attn (ds_policies d) \<in> {[], Work, Focus, Quiet}"
  by (auto simp: check_mode_def ParseMode_def)

lemma check_iff: "check d = None \<longleftrightarrow> manifest_ok d"
proof -
  have s: "monitorPart ''DP-1''" "length ''DP-1'' \<le> partMax" "valid_slot ''check''" by code_simp+
  then have n: "(\<exists>n. NewName (ds_name d) ''DP-1'' ''check'' = Inr n) \<longleftrightarrow> ValidDesk (ds_name d)"
    by (auto simp: NewName_Inr_eq valid_name_def)
  show ?thesis
  proof (cases "NewName (ds_name d) ''DP-1'' ''check''")
    case (Inl e)
    then show ?thesis using n by (auto simp: check_def manifest_ok_def)
  next
    case (Inr k)
    then have "ValidDesk (ds_name d)" using n by blast
    with Inr show ?thesis
      by (simp add: check_def manifest_ok_def check_monitors_None check_mode_None check_apps_None)
  qed
qed

text \<open>What the check accepts is exactly the manifests that are desks, in whatever order Go
  iterates its maps: a valid name that is not the reserved band, at least one monitor, every
  monitor with workspaces that mint distinct names, a mode that exists, and apps whose every
  field could be part of a path or of niri's configuration and whose pins name a workspace
  the desk has.\<close>

theorem check_exact: "check d = None \<longleftrightarrow> manifest_ok d"
  by (rule check_iff)

section \<open>What a manifest declares\<close>

definition mk_name :: "desk_manifest \<Rightarrow> string \<Rightarrow> string \<Rightarrow> name" where
  "mk_name d output label = \<lparr>desk = ds_name d, monitor = output, slot = label\<rparr>"

lemma declared_names_map:
  "\<forall>l \<in> set ls. valid_name \<lparr>desk = name, monitor = out, slot = l\<rparr> \<Longrightarrow>
   declared_names name out ls = map (\<lambda>l. \<lparr>desk = name, monitor = out, slot = l\<rparr>) ls"
  by (induction ls) (auto simp: NewName_ok_eq)

lemma block_of_mem:
  "distinct (map fst (ds_monitors d)) \<Longrightarrow> (out, b) \<in> set (ds_monitors d) \<Longrightarrow> block_of d out = b"
  by (simp add: block_of_def aget_def)

lemma declared_workspaces_eq:
  assumes "\<forall>p \<in> set (ds_monitors d). block_ok (ds_name d) p" "distinct (map fst (ds_monitors d))"
  shows "declared_workspaces d =
    concat (map (\<lambda>out. map (mk_name d out) (mb_workspaces (block_of d out))) (sortedKeys (ds_monitors d)))"
proof -
  have "declared_names (ds_name d) out (mb_workspaces (block_of d out))
      = map (mk_name d out) (mb_workspaces (block_of d out))"
    if out: "out \<in> set (sortedKeys (ds_monitors d))" for out
  proof -
    obtain b where "(out, b) \<in> set (ds_monitors d)" using out by (auto simp: sortedKeys_def)
    then have "block_ok (ds_name d) (out, block_of d out)" using assms block_of_mem by metis
    then show ?thesis unfolding mk_name_def by (intro declared_names_map) (simp add: block_ok_def)
  qed
  then show ?thesis unfolding declared_workspaces_def by (metis (no_types, lifting) map_eq_conv)
qed

lemma distinct_concat_keys:
  assumes "distinct ks" "\<And>k. k \<in> set ks \<Longrightarrow> distinct (f k)" "\<And>k x. k \<in> set ks \<Longrightarrow> x \<in> set (f k) \<Longrightarrow> g x = k"
  shows "distinct (concat (map f ks))"
  using assms
proof (induction ks)
  case (Cons k ks)
  have "set (f k) \<inter> set (concat (map f ks)) = {}"
  proof -
    have "x \<notin> set (f j)" if "x \<in> set (f k)" "j \<in> set ks" for x j
      using Cons.prems(1) Cons.prems(3) [of k x] Cons.prems(3) [of j x] that by auto
    then show ?thesis by auto
  qed
  with Cons show ?case by simp
qed simp

text \<open>A manifest that passes its check declares what it says: every label of every monitor
  is a workspace of the desk, none of them twice and none left out by the loop that drops what
  mints no name, and every name it answers with can be given to niri and read back.\<close>

theorem declared_workspaces_complete:
  assumes "check d = None" "distinct (map fst (ds_monitors d))"
  shows "set (declared_workspaces d) =
      {\<lparr>desk = ds_name d, monitor = out, slot = l\<rparr> |out b l. (out, b) \<in> set (ds_monitors d) \<and> l \<in> set (mb_workspaces b)}
    \<and> distinct (declared_workspaces d) \<and> declared_workspaces d \<noteq> []
    \<and> (\<forall>n \<in> set (declared_workspaces d). ParseName (String n) = Inr n \<and> desk n \<noteq> Regulars)"
proof -
  have ok: "manifest_ok d" using assms(1) check_iff by blast
  then have b: "\<forall>p \<in> set (ds_monitors d). block_ok (ds_name d) p" by (simp add: manifest_ok_def)
  note eq = declared_workspaces_eq [OF b assms(2)]
  have keys: "set (sortedKeys (ds_monitors d)) = fst ` set (ds_monitors d)" by (simp add: sortedKeys_def)
  have set_eq: "set (declared_workspaces d) =
      {\<lparr>desk = ds_name d, monitor = out, slot = l\<rparr> |out b l. (out, b) \<in> set (ds_monitors d) \<and> l \<in> set (mb_workspaces b)}"
    (is "_ = ?D")
  proof -
    have "set (declared_workspaces d) = (\<Union>p \<in> set (ds_monitors d). mk_name d (fst p) ` set (mb_workspaces (snd p)))"
      using block_of_mem [OF assms(2)] unfolding eq by (auto simp: keys)
    also have "\<dots> = ?D" unfolding mk_name_def by fastforce
    finally show ?thesis .
  qed
  have valid: "valid_name n \<and> desk n = ds_name d" if "n \<in> ?D" for n
    using that b by (auto simp: block_ok_def)
  have labels: "distinct (map (mk_name d out) (mb_workspaces (block_of d out)))"
    if "out \<in> fst ` set (ds_monitors d)" for out
  proof -
    have "block_ok (ds_name d) (out, block_of d out)" using that b block_of_mem [OF assms(2)] by fastforce
    then show ?thesis by (auto simp: block_ok_def distinct_map inj_on_def mk_name_def)
  qed
  have "distinct (declared_workspaces d)"
    unfolding eq using labels
    by (intro distinct_concat_keys [where g = monitor]) (auto simp: keys sortedKeys_def assms(2) mk_name_def)
  moreover obtain out blk where p: "(out, blk) \<in> set (ds_monitors d)"
    using ok by (cases "ds_monitors d") (auto simp: manifest_ok_def)
  moreover obtain l where "l \<in> set (mb_workspaces blk)"
    using b p by (cases "mb_workspaces blk") (force simp: block_ok_def)+
  ultimately have "distinct (declared_workspaces d)" "?D \<noteq> {}" by blast+
  moreover have "ParseName (String n) = Inr n \<and> desk n \<noteq> Regulars" if "n \<in> ?D" for n
    using valid [OF that] ParseName_String ok by (simp add: manifest_ok_def)
  ultimately show ?thesis unfolding set_eq [symmetric] by auto
qed

lemma declared_workspaces_complete_witness:
  "\<lparr>desk = ''a'', monitor = ''DP-1'', slot = ''code''\<rparr>
   \<in> set (declared_workspaces ((new_desk ''a'' False)\<lparr>ds_monitors := [(''DP-1'', \<lparr>mb_workspaces = [''code'']\<rparr>)]\<rparr>))"
proof -
  let ?d = "(new_desk ''a'' False)\<lparr>ds_monitors := [(''DP-1'', \<lparr>mb_workspaces = [''code'']\<rparr>)]\<rparr>"
  have "check ?d = None" by code_simp
  moreover have "distinct (map fst (ds_monitors ?d))" by simp
  ultimately show ?thesis
    using declared_workspaces_complete [of ?d] by (auto simp: new_desk_def)
qed

section \<open>A desk on the screen, written down\<close>

lemma add_workspace_keeps [simp]:
  "ds_name (add_workspace n d) = ds_name d" "ds_private (add_workspace n d) = ds_private d"
  "ds_apps (add_workspace n d) = ds_apps d" "ds_policies (add_workspace n d) = ds_policies d"
  by (simp_all add: add_workspace_def Let_def)

lemma fold_add_keeps [simp]:
  "ds_name (fold add_workspace ns d) = ds_name d" "ds_private (fold add_workspace ns d) = ds_private d"
  "ds_apps (fold add_workspace ns d) = ds_apps d" "ds_policies (fold add_workspace ns d) = ds_policies d"
  by (induction ns arbitrary: d) simp_all

lemma block_of_add:
  "mb_workspaces (block_of (add_workspace n d) out) =
   mb_workspaces (block_of d out) @ (if monitor n = out then [slot n] else [])"
  by (simp add: block_of_def add_workspace_def Let_def)

lemma block_of_fold:
  "mb_workspaces (block_of (fold add_workspace ns d) out) =
   mb_workspaces (block_of d out) @ map slot (filter (\<lambda>n. monitor n = out) ns)"
  by (induction ns arbitrary: d) (auto simp: block_of_add)

lemma keys_fold_add:
  "fst ` set (ds_monitors (fold add_workspace ns d)) = fst ` set (ds_monitors d) \<union> monitor ` set ns"
  by (induction ns arbitrary: d) (auto simp: add_workspace_def Let_def)

lemma distinct_fold_add:
  "distinct (map fst (ds_monitors d)) \<Longrightarrow> distinct (map fst (ds_monitors (fold add_workspace ns d)))"
  by (induction ns arbitrary: d) (auto simp: add_workspace_def Let_def distinct_update)

lemma sorted_split_min:
  "sorted (map f xs) \<Longrightarrow> (\<And>x. x \<in> set xs \<Longrightarrow> (k :: 'k :: linorder) \<le> f x) \<Longrightarrow>
   filter (\<lambda>x. f x = k) xs @ filter (\<lambda>x. f x \<noteq> k) xs = xs"
proof (induction xs)
  case (Cons x xs)
  show ?case
  proof (cases "f x = k")
    case False
    then have "\<And>y. y \<in> set xs \<Longrightarrow> f y \<noteq> k"
      using Cons.prems by (metis image_eqI list.set_intros(1) list.set_map order_antisym sorted_wrt.simps(2) list.simps(9))
    then have "filter (\<lambda>y. f y = k) xs = []" by (simp add: filter_empty_conv)
    with False Cons show ?thesis by (simp add: filter_id_conv)
  qed (use Cons in simp)
qed simp

lemma concat_by_key:
  "sorted ks \<Longrightarrow> distinct ks \<Longrightarrow> sorted (map f xs) \<Longrightarrow> f ` set xs \<subseteq> set (ks :: 'k :: linorder list) \<Longrightarrow>
   concat (map (\<lambda>k. filter (\<lambda>x. f x = k) xs) ks) = xs"
proof (induction ks arbitrary: xs)
  case (Cons k ks)
  define ys where "ys = filter (\<lambda>x. f x \<noteq> k) xs"
  have "concat (map (\<lambda>j. filter (\<lambda>x. f x = j) ys) ks) = ys"
    using Cons.prems by (intro Cons.IH) (auto simp: ys_def sorted_map intro: sorted_wrt_filter)
  moreover have "filter (\<lambda>x. f x = j) ys = filter (\<lambda>x. f x = j) xs" if "j \<in> set ks" for j
    using that Cons.prems(2) unfolding ys_def by (auto intro!: filter_cong)
  moreover have "filter (\<lambda>x. f x = k) xs @ ys = xs"
    unfolding ys_def using Cons.prems by (intro sorted_split_min) auto
  ultimately show ?case by (simp cong: map_cong)
qed simp

text \<open>A desk's names as a map lists them: its own, valid, distinct and grouped by monitor.\<close>

lemma Workspaces_facts:
  "n \<in> set (Workspaces (Rebuild ws scr) d) \<Longrightarrow> valid_name n \<and> desk n = d"
  "distinct (Workspaces (Rebuild ws scr) d)"
  "sorted (map monitor (Workspaces (Rebuild ws scr) d))"
proof -
  show "n \<in> set (Workspaces (Rebuild ws scr) d) \<Longrightarrow> valid_name n \<and> desk n = d"
    using settled_valid by (auto simp: set_Workspaces)
  have "distinct (map (settled ws scr) (readings ws scr))"
    using settled_distinct [of ws scr] by (simp add: distinct_map comp_inj_on_iff inj_on_def)
  then show "distinct (Workspaces (Rebuild ws scr) d)" by (simp add: Workspaces_Rebuild)
  have "sorted_wrt (\<lambda>a b. \<not> band_less ix b a) ns \<Longrightarrow> sorted (map monitor ns)" for ix ns
    unfolding sorted_map by (rule sorted_wrt_mono_rel) (auto simp: band_less_key)
  then show "sorted (map monitor (Workspaces (Rebuild ws scr) d))"
    unfolding Workspaces_Rebuild using by_band.sorted_sort_by by blast
qed

lemma FromMap_built:
  fixes ws :: "workspace list" and scr :: "string list" and name :: string and priv :: bool
  defines "ns \<equiv> Workspaces (Rebuild ws scr) name"
  defines "d \<equiv> fold add_workspace ns (new_desk name priv)"
  shows "declared_workspaces d = ns" "ns \<noteq> [] \<Longrightarrow> name \<noteq> Regulars \<Longrightarrow> manifest_ok d"
    "distinct (map fst (ds_monitors d))"
proof -
  have labels: "mb_workspaces (block_of d out) = map slot (filter (\<lambda>n. monitor n = out) ns)" for out
    by (simp add: d_def block_of_fold) (simp add: block_of_def new_desk_def)
  have keys: "fst ` set (ds_monitors d) = monitor ` set ns"
    by (simp add: d_def keys_fold_add) (simp add: new_desk_def)
  show dist: "distinct (map fst (ds_monitors d))"
    unfolding d_def by (rule distinct_fold_add) (simp add: new_desk_def)
  have nm: "ds_name d = name" by (simp add: d_def) (simp add: new_desk_def)
  have ns: "valid_name n \<and> desk n = name" if "n \<in> set ns" for n
    using that unfolding ns_def by (rule Workspaces_facts(1))
  have again: "mk_name d out (slot n) = n" if "n \<in> set ns" "monitor n = out" for n out
    using ns [OF that(1)] that(2) nm by (simp add: mk_name_def)
  have blocks: "block_ok (ds_name d) p" if p: "p \<in> set (ds_monitors d)" for p
  proof -
    have b: "mb_workspaces (snd p) = map slot (filter (\<lambda>n. monitor n = fst p) ns)"
      using labels [of "fst p"] block_of_mem [OF dist, of "fst p" "snd p"] p by (metis prod.collapse)
    have "fst p \<in> monitor ` set ns" using keys p by blast
    moreover have "inj_on slot (set (filter (\<lambda>n. monitor n = fst p) ns))"
      by (rule inj_on_inverseI [where g = "mk_name d (fst p)"]) (auto simp: again)
    ultimately show ?thesis
      using ns Workspaces_facts(2) [of ws scr name] again
      unfolding block_ok_def b mk_name_def
      by (auto simp: filter_empty_conv distinct_map ns_def [symmetric])
  qed
  have eq: "declared_workspaces d = concat (map (\<lambda>out. map (mk_name d out)
      (map slot (filter (\<lambda>n. monitor n = out) ns))) (sortedKeys (ds_monitors d)))"
    using blocks by (subst declared_workspaces_eq) (auto simp: dist labels)
  have "map (mk_name d out) (map slot (filter (\<lambda>n. monitor n = out) ns)) = filter (\<lambda>n. monitor n = out) ns" for out
    unfolding map_map by (rule map_idI) (auto simp: again)
  then have "declared_workspaces d = concat (map (\<lambda>out. filter (\<lambda>n. monitor n = out) ns) (sortedKeys (ds_monitors d)))"
    unfolding eq by simp
  also have "\<dots> = ns"
    using keys Workspaces_facts(3) [of ws scr name] dist
    by (intro concat_by_key) (auto simp: sortedKeys_def sort_strings_sorted ns_def)
  finally show "declared_workspaces d = ns" .
  assume "ns \<noteq> []" "name \<noteq> Regulars"
  moreover from this have "ds_monitors d \<noteq> []" using keys by (cases ns) auto
  moreover have "ValidDesk name" using ns \<open>ns \<noteq> []\<close> by (cases ns) (auto simp: valid_name_def)
  moreover have "pl_attn (ds_policies d) = []" "ds_apps d = []"
    by (simp_all add: d_def) (simp_all add: new_desk_def)
  ultimately show "manifest_ok d" using blocks nm by (simp add: manifest_ok_def)
qed

text \<open>C34: a desk arranged on the screen can always be written down: a snapshot refuses only a
  desk with no workspaces and the reserved band, and what it writes passes the check every
  manifest passes, keeps the privacy it was given, and declares the desk's workspaces in
  exactly the order its strips have them.\<close>

theorem snapshot_comes_back:
  fixes ws :: "workspace list" and scr :: "string list"
  defines "m \<equiv> Rebuild ws scr"
  assumes "Workspaces m name \<noteq> []" "name \<noteq> Regulars"
  shows "\<exists>d. FromMap m name priv = Inr d \<and> check d = None \<and> ds_name d = name
    \<and> ds_private d = priv \<and> declared_workspaces d = Workspaces m name"
proof -
  note f = FromMap_built [of ws scr name priv, folded m_def]
  have "check (fold add_workspace (Workspaces m name) (new_desk name priv)) = None"
    using assms(2,3) f(2) check_iff by blast
  then show ?thesis
    using assms(2) f(1) by (simp add: FromMap_def) (simp add: new_desk_def)
qed

lemma snapshot_comes_back_witness:
  "\<exists>d. FromMap (Rebuild [\<lparr>ID = 1, Idx = 1, Name = ''d.A.1'', Output = ''A''\<rparr>] [''A'']) ''d'' True = Inr d
     \<and> ds_private d"
proof -
  have "Workspaces (Rebuild [\<lparr>ID = 1, Idx = 1, Name = ''d.A.1'', Output = ''A''\<rparr>] [''A'']) ''d'' \<noteq> []"
    by code_simp
  moreover have "''d'' \<noteq> Regulars" by code_simp
  ultimately show ?thesis using snapshot_comes_back by blast
qed

section \<open>Reading the directory\<close>

text \<open>
  The reference reading: the manifests that can be read, in the order of the listing, each
  under its desk's name; the first of a name is the one that counts, which is what \<open>map_of\<close>
  answers with.
\<close>

definition readable :: "kernel \<Rightarrow> int \<Rightarrow> yaml \<Rightarrow> string list \<Rightarrow> (string \<times> string \<times> desk_manifest) list" where
  "readable os us dec paths =
     concat (map (\<lambda>p. case Load os us dec p of Inl _ \<Rightarrow> [] | Inr d \<Rightarrow> [(ds_name d, p, d)]) paths)"

definition manifest_paths :: "string \<Rightarrow> dir_entry list \<Rightarrow> string list" where
  "manifest_paths dir es = map (\<lambda>e. Join [dir, de_name e]) (filter is_manifest es)"

definition taken_in :: "loaded \<Rightarrow> nat" where
  "taken_in l = length (ld_out l) + length (ld_problems l)"

text \<open>What the loop has done after some paths.\<close>

definition loaded_ok :: "kernel \<Rightarrow> int \<Rightarrow> yaml \<Rightarrow> string list \<Rightarrow> loaded \<Rightarrow> bool" where
  "loaded_ok os us dec paths l \<longleftrightarrow>
     (\<forall>n. map_of (ld_out l) n = map_option snd (map_of (readable os us dec paths) n))
     \<and> (\<forall>n. map_of (ld_files l) n = map_option fst (map_of (readable os us dec paths) n))
     \<and> taken_in l = length paths
     \<and> (\<forall>p \<in> set paths. p \<in> Path ` set (ld_problems l) \<or> (\<exists>n. map_of (ld_files l) n = Some p))
     \<and> Path ` set (ld_problems l) \<subseteq> set paths
     \<and> (\<forall>p \<in> set paths. \<forall>e. Load os us dec p = Inl e \<longrightarrow> \<lparr>Path = p, Err = e\<rparr> \<in> set (ld_problems l))"

lemma readable_snoc:
  "readable os us dec (paths @ [p]) = readable os us dec paths @
     (case Load os us dec p of Inl _ \<Rightarrow> [] | Inr d \<Rightarrow> [(ds_name d, p, d)])"
  by (simp add: readable_def)

lemma length_update_new: "map_of m k = None \<Longrightarrow> length (AList.update k v m) = Suc (length m)"
  by (induction m) (auto split: if_splits)

lemma map_of_snoc:
  "map_of (xs @ [(k, v)]) n = (if n = k \<and> map_of xs n = None then Some v else map_of xs n)"
  by (simp add: map_of_append map_add_def split: option.splits)

lemma load_one_ok:
  assumes "loaded_ok os us dec paths l"
  shows "loaded_ok os us dec (paths @ [p]) (load_one os us dec p l)"
proof (cases "Load os us dec p")
  case (Inl e)
  then show ?thesis using assms by (auto simp: loaded_ok_def load_one_def readable_snoc taken_in_def)
next
  case (Inr d)
  note l = assms [unfolded loaded_ok_def]
  let ?R = "readable os us dec paths"
  have R: "readable os us dec (paths @ [p]) = ?R @ [(ds_name d, p, d)]"
    using Inr by (simp add: readable_snoc)
  show ?thesis
  proof (cases "map_of ?R (ds_name d)")
    case None
    then have n: "map_of (ld_out l) (ds_name d) = None" "map_of (ld_files l) (ds_name d) = None"
      using l by simp_all
    have one: "load_one os us dec p l = l\<lparr>ld_out := AList.update (ds_name d) d (ld_out l),
        ld_files := AList.update (ds_name d) p (ld_files l)\<rparr>"
      using Inr n by (simp add: load_one_def)
    have outs: "map_of (AList.update (ds_name d) d (ld_out l)) n = map_option snd (map_of (?R @ [(ds_name d, p, d)]) n)" for n
      unfolding map_of_snoc using l None by (simp add: update_conv')
    have fils: "map_of (AList.update (ds_name d) p (ld_files l)) n = map_option fst (map_of (?R @ [(ds_name d, p, d)]) n)" for n
      unfolding map_of_snoc using l None by (simp add: update_conv')
    have acc: "\<exists>n. map_of (AList.update (ds_name d) p (ld_files l)) n = Some q"
      if "q = p \<or> (\<exists>n. map_of (ld_files l) n = Some q)" for q
      using that
    proof
      assume "\<exists>n. map_of (ld_files l) n = Some q"
      then obtain n where "map_of (ld_files l) n = Some q" by blast
      moreover from this n have "n \<noteq> ds_name d" by auto
      ultimately show ?thesis by (auto simp: update_conv')
    qed (auto simp: update_conv')
    have probs: "ld_problems (load_one os us dec p l) = ld_problems l" by (simp add: one)
    have "\<forall>q \<in> set (paths @ [p]). q \<in> Path ` set (ld_problems l)
        \<or> (\<exists>n. map_of (AList.update (ds_name d) p (ld_files l)) n = Some q)"
      using l acc by (metis Un_iff empty_iff empty_set insertE list.simps(15) set_append)
    moreover have "taken_in (load_one os us dec p l) = length (paths @ [p])"
      using l n(1) by (simp add: one taken_in_def length_update_new)
    moreover have "Path ` set (ld_problems l) \<subseteq> set (paths @ [p])" using l by auto
    moreover have "\<forall>q \<in> set (paths @ [p]). \<forall>e. Load os us dec q = Inl e \<longrightarrow> \<lparr>Path = q, Err = e\<rparr> \<in> set (ld_problems l)"
      using l Inr by auto
    ultimately show ?thesis
      unfolding loaded_ok_def R probs using outs fils by (simp add: one del: map_of_append)
  next
    case (Some prev)
    then have "map_of (ld_out l) (ds_name d) = Some (snd prev)" using l by simp
    then have one: "load_one os us dec p l = l\<lparr>ld_problems := ld_problems l @ [\<lparr>Path = p,
        Err = AlreadyDeclared (ds_name (snd prev)) (aget [] (ld_files l) (ds_name (snd prev)))\<rparr>]\<rparr>"
      using Inr by (simp add: load_one_def)
    show ?thesis
      unfolding loaded_ok_def one R
      using l Some Inr by (auto simp: map_of_snoc taken_in_def simp del: map_of_append)
  qed
qed

lemma load_fold_ok:
  "loaded_ok os us dec paths l \<Longrightarrow> loaded_ok os us dec (paths @ ps) (fold (load_one os us dec) ps l)"
proof (induction ps arbitrary: paths l)
  case (Cons p ps)
  then show ?case using Cons.IH [OF load_one_ok [OF Cons.prems]] by simp
qed simp

definition full :: "string \<Rightarrow> loaded \<Rightarrow> loaded" where
  "full dir l = l\<lparr>ld_problems := ld_problems l @ [\<lparr>Path = dir, Err = TooMany\<rparr>]\<rparr>"

lemma load_entries_fold:
  assumes "loaded_ok os us dec paths l" "length paths \<le> manifestsMax"
  shows "load_entries os us dec dir es l =
     (let ps = manifest_paths dir es; more = fold (load_one os us dec) (take (manifestsMax - length paths) ps) l
      in if manifestsMax - length paths < length ps then full dir more else more)"
  using assms
proof (induction es arbitrary: paths l)
  case Nil
  then show ?case by (simp add: manifest_paths_def)
next
  case (Cons e es)
  have n: "length (ld_out l) + length (ld_problems l) = length paths"
    using Cons.prems(1) by (simp add: loaded_ok_def taken_in_def)
  show ?case
  proof (cases "is_manifest e")
    case False
    then have "load_entries os us dec dir (e # es) l = load_entries os us dec dir es l"
      by (auto simp: is_manifest_def)
    with False Cons show ?thesis by (simp add: manifest_paths_def)
  next
    case True
    show ?thesis
    proof (cases "length paths = manifestsMax")
      case full: True
      then show ?thesis using True n by (auto simp: manifest_paths_def is_manifest_def full_def)
    next
      case False
      define p where "p = Join [dir, de_name e]"
      from False Cons.prems(2) have lt: "length paths < manifestsMax" by simp
      have "load_entries os us dec dir (e # es) l = load_entries os us dec dir es (load_one os us dec p l)"
        using True n lt by (auto simp: is_manifest_def p_def)
      also have "\<dots> = (let ps = manifest_paths dir es;
          more = fold (load_one os us dec) (take (manifestsMax - length (paths @ [p])) ps) (load_one os us dec p l)
        in if manifestsMax - length (paths @ [p]) < length ps then full dir more else more)"
        using lt by (intro Cons.IH load_one_ok Cons.prems) simp
      finally show ?thesis
        using True lt by (simp add: manifest_paths_def p_def [symmetric] Let_def take_Cons' Suc_diff_Suc)
    qed
  qed
qed

lemma nothing_loaded_ok: "loaded_ok os us dec [] nothing_loaded"
  by (simp add: loaded_ok_def nothing_loaded_def readable_def taken_in_def)

text \<open>C35: one file being wrong costs that file. Reading a directory comes to the same desks,
  each with the file it came out of, as reading every manifest on its own and keeping the
  first of each name: what another file holds, and whether it can be read at all, changes
  nothing but the desk it would have declared. Every file looked at is a desk's or has a
  problem of its own with the reason, and after the first 256 the rest are one problem more.\<close>

theorem one_file_costs_itself:
  assumes "ls dir = Listed es"
  shows "\<exists>l. loadDir os us dec ls dir = Inr l
    \<and> (\<forall>n. map_of (ld_out l) n = map_option snd (map_of (readable os us dec (take 256 (manifest_paths dir es))) n))
    \<and> (\<forall>n. map_of (ld_files l) n = map_option fst (map_of (readable os us dec (take 256 (manifest_paths dir es))) n))
    \<and> length (ld_out l) + length (ld_problems l) = min 257 (length (manifest_paths dir es))
    \<and> (\<forall>p \<in> set (take 256 (manifest_paths dir es)).
         p \<in> Path ` set (ld_problems l) \<or> (\<exists>n. map_of (ld_files l) n = Some p))
    \<and> (\<forall>p \<in> set (take 256 (manifest_paths dir es)). \<forall>e. Load os us dec p = Inl e \<longrightarrow>
         \<lparr>Path = p, Err = e\<rparr> \<in> set (ld_problems l))"
proof -
  define ps where "ps = take 256 (manifest_paths dir es)"
  define more where "more = fold (load_one os us dec) ps nothing_loaded"
  have ok: "loaded_ok os us dec ps more"
    using load_fold_ok [OF nothing_loaded_ok, of os us dec ps] by (simp add: more_def)
  have eq: "loadDir os us dec ls dir =
      Inr (if 256 < length (manifest_paths dir es) then full dir more else more)"
    using load_entries_fold [OF nothing_loaded_ok, of os us dec dir es] assms
    by (simp add: loadDir_def manifestsMax_def ps_def more_def Let_def)
  have n: "length ps = min 256 (length (manifest_paths dir es))" by (simp add: ps_def min.commute)
  show ?thesis
    unfolding eq ps_def [symmetric] using ok n
    by (auto simp: loaded_ok_def taken_in_def full_def)
qed

lemma one_file_costs_itself_witness:
  "let d = (new_desk ''a'' False)\<lparr>ds_monitors := [(''DP-1'', \<lparr>mb_workspaces = [''code'']\<rparr>)]\<rparr>;
       f = \<lparr>d_stat = Inr \<lparr>fi_mode = 0x124, fi_uid = Some 0\<rparr>, d_bytes = ''y'', d_end = None\<rparr>;
       os = (\<lambda>p _. if p = ''d/b.yaml'' then Inr f else Inl ''EACCES'')
   in \<exists>l. loadDir os 1000 (\<lambda>_. Inr (d, True)) (\<lambda>_. Listed [\<lparr>de_name = ''a.yaml'', de_dir = False\<rparr>,
        \<lparr>de_name = ''b.yaml'', de_dir = False\<rparr>]) ''d'' = Inr l
      \<and> map_of (ld_out l) ''a'' = Some d \<and> \<lparr>Path = ''d/a.yaml'', Err = Unreadable (Os ''EACCES'')\<rparr> \<in> set (ld_problems l)"
proof -
  define d where "d = (new_desk ''a'' False)\<lparr>ds_monitors := [(''DP-1'', \<lparr>mb_workspaces = [''code'']\<rparr>)]\<rparr>"
  define f where "f = \<lparr>d_stat = Inr \<lparr>fi_mode = 0x124, fi_uid = Some 0\<rparr>, d_bytes = ''y'', d_end = None\<rparr>"
  define os :: kernel where "os = (\<lambda>p _. if p = ''d/b.yaml'' then Inr f else Inl ''EACCES'')"
  define es where "es = [\<lparr>de_name = ''a.yaml'', de_dir = False\<rparr>, \<lparr>de_name = ''b.yaml'', de_dir = False\<rparr>]"
  have ps: "take 256 (manifest_paths ''d'' es) = [''d/a.yaml'', ''d/b.yaml'']"
  proof -
    have "manifest_paths ''d'' es = [''d/a.yaml'', ''d/b.yaml'']" unfolding es_def by code_simp
    then show ?thesis by simp
  qed
  have "check d = None" unfolding d_def by code_simp
  moreover have "check_file 1000 f = None" unfolding f_def by code_simp
  ultimately have b: "Load os 1000 (\<lambda>_. Inr (d, True)) ''d/b.yaml'' = Inr d"
    by (simp add: Load_def Read_def Open_plain_def open_file_def os_def read_limited_def Parse_def bytesMax_def f_def)
  have a: "Load os 1000 (\<lambda>_. Inr (d, True)) ''d/a.yaml'' = Inl (Unreadable (Os ''EACCES''))"
    by (simp add: Load_def Read_def Open_plain_def open_file_def os_def)
  have "readable os 1000 (\<lambda>_. Inr (d, True)) [''d/a.yaml'', ''d/b.yaml''] = [(''a'', ''d/b.yaml'', d)]"
    using a b by (simp add: readable_def) (simp add: d_def new_desk_def)
  then show ?thesis
    using one_file_costs_itself [of "\<lambda>_. Listed es" "''d''" es os 1000 "\<lambda>_. Inr (d, True)"] a
    unfolding ps by (auto simp: d_def [symmetric] f_def [symmetric] os_def [symmetric] es_def [symmetric] Let_def)
qed

text \<open>A snapshot writes one new file or nothing: the only thing \<open>Save\<close> ever changes is to
  put a manifest that passes its check at a path that held nothing, for a desk no manifest of
  the directory declares; every failure on the way leaves every file as it was.\<close>

theorem Save_replaces_nothing:
  "case Save load marshal defaultDir oc dir d fs of (answer, fs') \<Rightarrow>
     (\<exists>e. answer = Inl e) \<and> fs' = fs
   \<or> (\<exists>path out l. answer = Inr path \<and> path = Join [dir, ds_name d @ ''.yaml''] \<and> marshal d = Inr out
        \<and> fs path = None \<and> fs' = fs(path \<mapsto> header @ out) \<and> check d = None
        \<and> load dir = Inr l \<and> map_of (ld_out l) (ds_name d) = None)"
  unfolding Save_def writeNew_def Let_def
  by (auto split: option.splits sum.splits if_splits write_error.splits)

end
