(* ===== verification/Clip.thy ===== *)
theory Clip
  imports Attn_Text
begin

text \<open>
  The clipboard history: the ring of \<open>internal/clip/clip.go\<close> and what the daemon does with
  it (\<open>internal/zded/clip_capture.go\<close>, \<open>clip_put.go\<close>). The promise is about memory, so the
  memory is in the model: a text is a buffer, a number into a store of byte strings, and
  wiping one writes zeros over it. Times are nanoseconds.
\<close>

section \<open>The ring\<close>

definition Max :: nat where "Max = 50"
definition TextMax :: nat where "TextMax = 65536"
definition TTL :: int where "TTL = 900000000000"
definition PreviewMax :: nat where "PreviewMax = 200"
definition TypeMax :: nat where "TypeMax = 60"
definition HintType :: string where "HintType = ''x-kde-passwordManagerHint''"
definition ExpectWindow :: int where "ExpectWindow = 10000000000"

definition KindText :: string where "KindText = ''text''"
definition KindBig :: string where "KindBig = ''too-big''"
definition KindOther :: string where "KindOther = ''other''"

lemmas kinds = KindText_def KindBig_def KindOther_def

record clip_row =
  cr_ID :: "64 word"
  cr_Preview :: string
  cr_Cut :: bool
  cr_Bytes :: int
  cr_Kind :: string
  cr_Why :: string
  cr_At :: int

text \<open>An entry's text is a buffer, and a note has none.\<close>

record clip_entry =
  ce_id :: "64 word"
  ce_text :: "nat option"
  ce_kind :: string
  ce_why :: string
  ce_bytes :: int
  ce_at :: int

text \<open>
  \<open>store\<close> holds every buffer there has been and \<open>next_buf\<close> is the first number not given out.
\<close>

record clip_history =
  store :: "nat \<Rightarrow> string"
  next_buf :: nat
  entries :: "clip_entry list"
  next_id :: "64 word"
  expect :: "64 word"
  expectAt :: int

definition zeros :: "string \<Rightarrow> string" where
  "zeros s = replicate (length s) (CHR 0x00)"

text \<open>Go's \<open>clear\<close> on a slice of bytes.\<close>

definition wipe :: "nat \<Rightarrow> clip_history \<Rightarrow> clip_history" where
  "wipe b h = h\<lparr>store := (store h)(b := zeros (store h b))\<rparr>"

definition wipe_text :: "nat option \<Rightarrow> clip_history \<Rightarrow> clip_history" where
  "wipe_text t h = (case t of None \<Rightarrow> h | Some b \<Rightarrow> wipe b h)"

definition bytes_of :: "clip_history \<Rightarrow> nat option \<Rightarrow> string" where
  "bytes_of h t = (case t of None \<Rightarrow> [] | Some b \<Rightarrow> store h b)"

definition push :: "clip_entry \<Rightarrow> clip_history \<Rightarrow> 64 word \<times> clip_history" where
  "push e h =
     (let es = entries h @ [e]
      in (ce_id e,
          if Max < length es then (wipe_text (ce_text (hd es)) h)\<lparr>entries := tl es\<rparr> else h\<lparr>entries := es\<rparr>))"

definition echo :: "clip_history \<Rightarrow> string \<Rightarrow> int \<Rightarrow> bool" where
  "echo h text now =
     (if expect h = 0 \<or> ExpectWindow \<le> now - expectAt h then False
      else (case find (\<lambda>e. ce_id e = expect h) (entries h) of
              Some e \<Rightarrow> ce_kind e = KindText \<and> bytes_of h (ce_text e) = text
            | None \<Rightarrow> False))"

definition Add :: "nat \<Rightarrow> int \<Rightarrow> clip_history \<Rightarrow> 64 word \<times> clip_history" where
  "Add b now h =
     (let text = store h b
      in if text = [] \<or> TextMax < length text then (0, wipe b h)
         else if echo h text now then (0, wipe b (h\<lparr>expect := 0\<rparr>))
         else if entries h \<noteq> [] \<and> bytes_of h (ce_text (last (entries h))) = text then (0, wipe b h)
         else let h = h\<lparr>next_id := next_id h + 1\<rparr>
              in push \<lparr>ce_id = next_id h, ce_text = Some b, ce_kind = KindText, ce_why = [],
                   ce_bytes = int (length text), ce_at = now\<rparr> h)"

definition Note :: "string \<Rightarrow> string \<Rightarrow> int \<Rightarrow> int \<Rightarrow> clip_history \<Rightarrow> 64 word \<times> clip_history" where
  "Note kind why sz now h =
     (if entries h \<noteq> [] \<and> ce_kind (last (entries h)) = kind \<and> ce_why (last (entries h)) = why then (0, h)
      else let h = h\<lparr>next_id := next_id h + 1\<rparr>
           in push \<lparr>ce_id = next_id h, ce_text = None, ce_kind = kind, ce_why = why,
                ce_bytes = sz, ce_at = now\<rparr> h)"

definition Expect :: "64 word \<Rightarrow> int \<Rightarrow> clip_history \<Rightarrow> clip_history" where
  "Expect i now h = h\<lparr>expect := i, expectAt := now\<rparr>"

text \<open>\<open>expire\<close>'s loop: what is young enough is kept and the rest is wiped and counted.\<close>

fun expire_loop :: "int \<Rightarrow> clip_entry list \<Rightarrow> clip_history \<Rightarrow> clip_entry list \<Rightarrow> int \<Rightarrow> clip_entry list \<times> int \<times> clip_history" where
  "expire_loop now [] h kept gone = (kept, gone, h)"
| "expire_loop now (e # es) h kept gone =
     (if now - ce_at e < TTL then expire_loop now es h (kept @ [e]) gone
      else expire_loop now es (wipe_text (ce_text e) h) kept (gone + 1))"

definition expire :: "int \<Rightarrow> clip_history \<Rightarrow> int \<times> clip_history" where
  "expire now h =
     (case expire_loop now (entries h) h [] 0 of
        (kept, gone, h) \<Rightarrow>
          let h = h\<lparr>entries := kept\<rparr>
          in (gone, if expect h \<noteq> 0 \<and> ExpectWindow \<le> now - expectAt h then h\<lparr>expect := 0\<rparr> else h))"

definition Expire :: "int \<Rightarrow> clip_history \<Rightarrow> int \<times> clip_history" where "Expire now h = expire now h"

definition no_reason :: string where
  "no_reason = ''that row is not something the history kept, so there is nothing to put back''"

definition gone_reason :: string where
  "gone_reason = ''nothing in the clipboard history has that number any more: entries last 15m0s and there are at most '' @ itoa Max"

text \<open>A new buffer, for bytes that were read or copied.\<close>

definition alloc :: "string \<Rightarrow> clip_history \<Rightarrow> nat \<times> clip_history" where
  "alloc bytes h = (next_buf h, h\<lparr>store := (store h)(next_buf h := bytes), next_buf := next_buf h + 1\<rparr>)"

text \<open>The answer is a copy of the bytes in a buffer of its own, or a reason in words.\<close>

definition Clip_Text :: "64 word \<Rightarrow> int \<Rightarrow> clip_history \<Rightarrow> (string + nat) \<times> clip_history" where
  "Clip_Text i now h =
     (case expire now h of (_, h) \<Rightarrow>
        (case find (\<lambda>e. ce_id e = i) (entries h) of
           None \<Rightarrow> (Inl gone_reason, h)
         | Some e \<Rightarrow>
             if ce_kind e \<noteq> KindText then (Inl (if ce_why e = [] then no_reason else ce_why e), h)
             else (case alloc (bytes_of h (ce_text e)) h of (b, h) \<Rightarrow> (Inr b, h))))"

definition Clear :: "clip_history \<Rightarrow> nat \<times> clip_history" where
  "Clear h = (length (entries h), (fold (\<lambda>e. wipe_text (ce_text e)) (entries h) h)\<lparr>entries := [], expect := 0\<rparr>)"

text \<open>One line of an entry.\<close>

fun preview_loop :: "unicode \<Rightarrow> rune list \<Rightarrow> rune list \<Rightarrow> rune list \<times> bool" where
  "preview_loop u [] out = (out, False)"
| "preview_loop u (r # rs) out =
     (if length out = PreviewMax then (out, True)
      else preview_loop u rs (out @
        [if r = rune_error then 46 else if is_space r then 32 else if \<not> is_print u r then 46 else r]))"

definition preview :: "unicode \<Rightarrow> string \<Rightarrow> string \<times> bool" where
  "preview u text =
     (case preview_loop u (runes_of text) [] of (out, cut_short) \<Rightarrow> (string_of_runes (trim_space out), cut_short))"

definition row_of :: "unicode \<Rightarrow> clip_history \<Rightarrow> clip_entry \<Rightarrow> clip_row" where
  "row_of u h e =
     (case preview u (bytes_of h (ce_text e)) of
        (line, cut_short) \<Rightarrow>
          \<lparr>cr_ID = ce_id e, cr_Preview = line, cr_Cut = cut_short, cr_Bytes = ce_bytes e, cr_Kind = ce_kind e,
           cr_Why = ce_why e, cr_At = ce_at e\<rparr>)"

definition Rows :: "unicode \<Rightarrow> int \<Rightarrow> clip_history \<Rightarrow> clip_row list \<times> clip_history" where
  "Rows u now h = (case expire now h of (_, h) \<Rightarrow> (map (row_of u h) (rev (entries h)), h))"

section \<open>What an offer is\<close>

definition ToLower :: "unicode \<Rightarrow> string \<Rightarrow> string" where
  "ToLower u s = string_of_runes (map (to_lower u) (runes_of s))"

fun prefix_of :: "string \<Rightarrow> string \<Rightarrow> bool" where
  "prefix_of [] s = True"
| "prefix_of (c # cs) [] = False"
| "prefix_of (c # cs) (d # ds) = (c = d \<and> prefix_of cs ds)"

text \<open>\<open>strings.Contains\<close>\<close>

fun Contains :: "string \<Rightarrow> string \<Rightarrow> bool" where
  "Contains [] sub = prefix_of sub []"
| "Contains (c # cs) sub = (prefix_of sub (c # cs) \<or> Contains cs sub)"

definition hintLower :: string where "hintLower = ''x-kde-passwordmanagerhint''"

fun Sensitive :: "unicode \<Rightarrow> string list \<Rightarrow> bool" where
  "Sensitive u [] = False"
| "Sensitive u (t # types) = (if Contains (ToLower u t) hintLower then True else Sensitive u types)"

text \<open>
  \<open>strings.EqualFold\<close> against an ASCII string: besides the letters themselves, Unicode's
  simple folding has two other runes that fold to one, the long s and the Kelvin sign.
\<close>

definition fold_rune :: "rune \<Rightarrow> rune" where
  "fold_rune r = (if 65 \<le> r \<and> r \<le> 90 then r + 32 else if r = 383 then 115 else if r = 8490 then 107 else r)"

definition EqualFold :: "string \<Rightarrow> string \<Rightarrow> bool" where
  "EqualFold s t \<longleftrightarrow> map fold_rune (runes_of s) = map fold_rune (runes_of t)"

definition wanted_types :: "string list" where
  "wanted_types = [''text/plain;charset=utf-8'', ''text/plain'', ''UTF8_STRING'', ''STRING'', ''TEXT'']"

fun first_wanted :: "string list \<Rightarrow> string list \<Rightarrow> string option" where
  "first_wanted [] types = None"
| "first_wanted (want # rest) types =
     (case find (\<lambda>t. EqualFold (TrimSpace t) want) types of
        Some t \<Rightarrow> Some t
      | None \<Rightarrow> first_wanted rest types)"

definition TextType :: "unicode \<Rightarrow> string list \<Rightarrow> string option" where
  "TextType u types =
     (case first_wanted wanted_types types of
        Some t \<Rightarrow> Some t
      | None \<Rightarrow> map_option TrimSpace (find (\<lambda>t. prefix_of ''text/'' (ToLower u (TrimSpace t))) types))"

fun clip_clean_loop :: "unicode \<Rightarrow> nat \<Rightarrow> rune list \<Rightarrow> rune list \<Rightarrow> rune list" where
  "clip_clean_loop u mx [] out = out"
| "clip_clean_loop u mx (r # rs) out =
     (if length out = mx then out
      else if \<not> is_print u r \<or> is_space r then clip_clean_loop u mx rs out
      else clip_clean_loop u mx rs (out @ [r]))"

definition clip_clean :: "unicode \<Rightarrow> string \<Rightarrow> nat \<Rightarrow> string" where
  "clip_clean u s mx = string_of_runes (clip_clean_loop u mx (runes_of s) [])"

fun Offered :: "unicode \<Rightarrow> string list \<Rightarrow> string" where
  "Offered u [] = []"
| "Offered u (t # types) = (let s = clip_clean u t TypeMax in if s \<noteq> [] then s else Offered u types)"

section \<open>The daemon's half\<close>

text \<open>
  The clipboard tool answers what types are offered, with the bytes of one (bounded, and
  whether there was more), and whether a write worked.
\<close>

record clip_tool =
  tl_types :: "string + string list"
  tl_read :: "string \<Rightarrow> string + string \<times> bool"
  tl_write :: "string \<Rightarrow> string option"

definition too_big :: "unicode \<Rightarrow> string \<Rightarrow> string" where
  "too_big u mime = ''more than '' @ itoa (TextMax div 1024) @ '' KiB of '' @ Offered u [mime]
     @ '', and an entry is kept whole or not at all''"

definition not_text :: "unicode \<Rightarrow> string list \<Rightarrow> string" where
  "not_text u types = Offered u types @ '' is not text, and the history keeps text only''"

text \<open>A clipboard change, with the types whose content was asked of the application.\<close>

definition take_clip :: "unicode \<Rightarrow> clip_tool option \<Rightarrow> int \<Rightarrow> clip_history \<Rightarrow> clip_history \<times> string list" where
  "take_clip u tool now h =
     (case tool of None \<Rightarrow> (h, []) | Some tool \<Rightarrow>
     (case tl_types tool of Inl _ \<Rightarrow> (h, []) | Inr types \<Rightarrow>
      if types = [] then (h, [])
      else if Sensitive u types then (h, [])
      else (case TextType u types of
         None \<Rightarrow> (snd (Note KindOther (not_text u types) 0 now h), [])
       | Some mime \<Rightarrow>
           (case tl_read tool mime of
              Inl _ \<Rightarrow> (h, [mime])
            | Inr (bytes, past) \<Rightarrow>
                (case alloc bytes h of (b, h) \<Rightarrow>
                   if past then (snd (Note KindBig (too_big u mime) (int TextMax) now (wipe b h)), [mime])
                   else (snd (Add b now h), [mime]))))))"

datatype clip_response = ClipOk | NoClipboard | NotAnId string | ClipWhy string

definition clipPut :: "clip_tool option \<Rightarrow> int \<Rightarrow> string \<Rightarrow> clip_history \<Rightarrow> clip_response \<times> clip_history" where
  "clipPut tool now i h =
     (case tool of None \<Rightarrow> (NoClipboard, h) | Some tool \<Rightarrow>
     (case parse_uint i of None \<Rightarrow> (NotAnId i, h) | Some n \<Rightarrow>
     (case Clip_Text n now h of
        (Inl why, h) \<Rightarrow> (ClipWhy why, h)
      | (Inr b, h) \<Rightarrow>
          let h = Expect n now h
          in (case tl_write tool (store h b) of
                Some e \<Rightarrow> (ClipWhy e, wipe b (Expect 0 now h))
              | None \<Rightarrow> (ClipOk, wipe b h)))))"

section \<open>What the memory holds\<close>

definition held :: "clip_entry set \<Rightarrow> nat set" where
  "held es = {b. \<exists>e \<in> es. ce_text e = Some b}"

definition entry_ok :: "clip_history \<Rightarrow> clip_entry \<Rightarrow> bool" where
  "entry_ok h e \<longleftrightarrow> 0 < unat (ce_id e) \<and> unat (ce_id e) \<le> unat (next_id h)
     \<and> (ce_kind e = KindText \<longleftrightarrow> ce_text e \<noteq> None)
     \<and> (\<forall>b. ce_text e = Some b \<longrightarrow> b < next_buf h \<and> store h b \<noteq> [] \<and> length (store h b) \<le> TextMax
          \<and> ce_bytes e = int (length (store h b)))"

text \<open>
  Ids grow along the ring, no two entries share a buffer, and every buffer that neither an
  entry nor a caller (\<open>X\<close>) still owns holds only zeros.
\<close>

definition one_buffer_each :: "clip_entry set \<Rightarrow> bool" where
  "one_buffer_each es \<longleftrightarrow> (\<forall>e \<in> es. \<forall>e' \<in> es. ce_text e = ce_text e' \<and> ce_text e \<noteq> None \<longrightarrow> e = e')"

definition blank_but :: "nat set \<Rightarrow> clip_history \<Rightarrow> bool" where
  "blank_but X h \<longleftrightarrow> (\<forall>b < next_buf h. b \<notin> X \<and> b \<notin> held (set (entries h)) \<longrightarrow> set (store h b) \<subseteq> {CHR 0x00})"

definition ring_ok :: "clip_history \<Rightarrow> bool" where
  "ring_ok h \<longleftrightarrow> (\<forall>e \<in> set (entries h). entry_ok h e) \<and> one_buffer_each (set (entries h))
     \<and> sorted_wrt (\<lambda>a b. unat (ce_id a) < unat (ce_id b)) (entries h)"

definition clip_safe :: "nat set \<Rightarrow> clip_history \<Rightarrow> bool" where
  "clip_safe X h \<longleftrightarrow> ring_ok h \<and> blank_but X h"

definition wipe_all :: "clip_entry list \<Rightarrow> clip_history \<Rightarrow> clip_history" where
  "wipe_all es h = fold (\<lambda>e. wipe_text (ce_text e)) es h"

lemma zeros_facts [simp]: "zeros (zeros s) = zeros s" "set (zeros s) \<subseteq> {CHR 0x00}" "length (zeros s) = length s"
  by (auto simp: zeros_def)

lemma wipe_keeps [simp]:
  "entries (wipe b h) = entries h" "next_buf (wipe b h) = next_buf h" "next_id (wipe b h) = next_id h"
  "expect (wipe b h) = expect h" "expectAt (wipe b h) = expectAt h"
  by (simp_all add: wipe_def)

lemma wipe_text_keeps [simp]:
  "entries (wipe_text t h) = entries h" "next_buf (wipe_text t h) = next_buf h" "next_id (wipe_text t h) = next_id h"
  "expect (wipe_text t h) = expect h" "expectAt (wipe_text t h) = expectAt h"
  by (cases t; simp add: wipe_text_def)+

lemma store_wipe_text: "store (wipe_text t h) b = (if t = Some b then zeros (store h b) else store h b)"
  by (cases t) (auto simp: wipe_text_def wipe_def)

lemma wipe_all_keeps [simp]:
  "entries (wipe_all es h) = entries h" "next_buf (wipe_all es h) = next_buf h" "next_id (wipe_all es h) = next_id h"
  "expect (wipe_all es h) = expect h" "expectAt (wipe_all es h) = expectAt h"
  by (induction es arbitrary: h) (simp_all add: wipe_all_def)

lemma store_wipe_all: "store (wipe_all es h) b = (if b \<in> held (set es) then zeros (store h b) else store h b)"
  by (induction es arbitrary: h) (auto simp: wipe_all_def store_wipe_text held_def)

lemma expire_loop_eq:
  "expire_loop now es h kept gone =
   (kept @ filter (\<lambda>e. now - ce_at e < TTL) es, gone + int (length (filter (\<lambda>e. \<not> now - ce_at e < TTL) es)),
    wipe_all (filter (\<lambda>e. \<not> now - ce_at e < TTL) es) h)"
  by (induction now es h kept gone rule: expire_loop.induct) (simp_all add: wipe_all_def)

lemma expire_facts:
  "entries (snd (expire now h)) = filter (\<lambda>e. now - ce_at e < TTL) (entries h)"
  "store (snd (expire now h)) = store (wipe_all (filter (\<lambda>e. \<not> now - ce_at e < TTL) (entries h)) h)"
  "next_buf (snd (expire now h)) = next_buf h" "next_id (snd (expire now h)) = next_id h"
  by (simp_all add: expire_def expire_loop_eq Let_def)

text \<open>Dropping entries and wiping them is safe, whichever they are.\<close>

lemma drop_wiped:
  assumes safe: "clip_safe X h"
    and sub: "set ys \<union> set ds = set (entries h)" "set ys \<inter> set ds = {}"
    and ys: "sorted_wrt (\<lambda>a b. unat (ce_id a) < unat (ce_id b)) ys"
    and h': "entries h' = ys" "store h' = store (wipe_all ds h)" "next_buf h' = next_buf h" "next_id h' = next_id h"
  shows "clip_safe X h'"
proof -
  have apart: "b \<notin> held (set ds)" if "b \<in> held (set ys)" for b
  proof
    assume "b \<in> held (set ds)"
    with that obtain e e' where e: "e \<in> set ys" "e' \<in> set ds" "ce_text e = Some b" "ce_text e' = Some b"
      by (auto simp: held_def)
    moreover have "one_buffer_each (set (entries h))" using safe by (simp add: clip_safe_def ring_ok_def)
    ultimately have "e = e'" using sub(1) unfolding one_buffer_each_def by (metis UnI1 UnI2 option.distinct(1))
    with e sub(2) show False by blast
  qed
  have kept: "store h' b = store h b" if "b \<in> held (set ys)" for b
    using apart [OF that] by (simp add: h' store_wipe_all)
  have "entry_ok h' e" if e: "e \<in> set ys" for e
  proof -
    have "entry_ok h e" using e sub safe by (auto simp: clip_safe_def ring_ok_def)
    moreover have "store h' b = store h b" if "ce_text e = Some b" for b
      using that e by (intro kept) (auto simp: held_def)
    ultimately show ?thesis by (auto simp: entry_ok_def h')
  qed
  moreover have "one_buffer_each (set ys)"
    using safe sub unfolding clip_safe_def ring_ok_def one_buffer_each_def by blast
  moreover have "blank_but X h'"
    unfolding blank_but_def
  proof (intro allI impI)
    fix b assume b: "b < next_buf h'" "b \<notin> X \<and> b \<notin> held (set (entries h'))"
    show "set (store h' b) \<subseteq> {CHR 0x00}"
    proof (cases "b \<in> held (set ds)")
      case False
      then have "b \<notin> held (set (entries h))" using b sub h' by (auto simp: held_def)
      then show ?thesis using False b safe by (simp add: h' store_wipe_all clip_safe_def blank_but_def)
    qed (simp add: h' store_wipe_all)
  qed
  ultimately show ?thesis using ys by (simp add: clip_safe_def ring_ok_def h')
qed

lemma sorted_ids_distinct:
  "sorted_wrt (\<lambda>a b. unat (ce_id a) < unat (ce_id b)) es \<Longrightarrow> distinct es"
  by (induction es) auto

lemma expire_safe: "clip_safe X h \<Longrightarrow> clip_safe X (snd (expire now h))"
proof -
  assume h: "clip_safe X h"
  have "sorted_wrt (\<lambda>a b. unat (ce_id a) < unat (ce_id b)) (filter (\<lambda>e. now - ce_at e < TTL) (entries h))"
    using h by (auto simp: clip_safe_def ring_ok_def intro: sorted_wrt_filter)
  then show ?thesis
    by (intro drop_wiped [OF h _ _ _ expire_facts(1,2,3,4)]) auto
qed

lemma Clear_safe: "clip_safe X h \<Longrightarrow> clip_safe X (snd (Clear h))"
  by (rule drop_wiped [where ys = "[]" and ds = "entries h" and h = h])
    (simp_all add: Clear_def wipe_all_def [symmetric])

lemma clip_safe_cong:
  "clip_safe X h \<Longrightarrow> entries h' = entries h \<Longrightarrow> store h' = store h \<Longrightarrow> next_buf h' = next_buf h
   \<Longrightarrow> next_id h' = next_id h \<Longrightarrow> clip_safe X h'"
  by (simp add: clip_safe_def ring_ok_def blank_but_def entry_ok_def)

lemma wipe_safe: "clip_safe (insert b X) h \<Longrightarrow> b \<notin> held (set (entries h)) \<Longrightarrow> clip_safe X (wipe b h)"
  by (auto simp: clip_safe_def ring_ok_def blank_but_def entry_ok_def wipe_def held_def)

lemma alloc_safe:
  assumes "clip_safe X h"
  shows "clip_safe (insert (next_buf h) X) (snd (alloc bs h)) \<and> next_buf h \<notin> held (set (entries h))"
proof -
  have "next_buf h \<notin> held (set (entries h))"
    using assms by (auto simp: clip_safe_def ring_ok_def entry_ok_def held_def)
  moreover have "entry_ok (snd (alloc bs h)) e" if e: "e \<in> set (entries h)" for e
  proof -
    have "entry_ok h e" using e assms by (simp add: clip_safe_def ring_ok_def)
    then show ?thesis by (auto simp: entry_ok_def alloc_def)
  qed
  ultimately show ?thesis
    using assms by (auto simp: clip_safe_def ring_ok_def blank_but_def alloc_def)
qed

text \<open>Appending, and the oldest going when there is no room.\<close>

lemma push_safe:
  assumes safe: "clip_safe X h" and new: "entry_ok h e"
    and ids: "\<forall>x \<in> set (entries h). unat (ce_id x) < unat (ce_id e)"
    and own: "held {e} \<inter> held (set (entries h)) = {}"
  shows "clip_safe (X - held {e}) (snd (push e h))"
proof -
  define h1 where "h1 = h\<lparr>entries := entries h @ [e]\<rparr>"
  have one: "clip_safe (X - held {e}) h1"
  proof -
    have "one_buffer_each (set (entries h @ [e]))"
      using safe own unfolding clip_safe_def ring_ok_def one_buffer_each_def held_def
      by (auto simp: set_eq_iff) metis+
    moreover have "blank_but (X - held {e}) h1"
      using safe by (auto simp: h1_def clip_safe_def blank_but_def held_def)
    moreover have "entry_ok h1 x \<longleftrightarrow> entry_ok h x" for x by (simp add: entry_ok_def h1_def)
    ultimately show ?thesis
      using safe new ids by (simp add: clip_safe_def ring_ok_def h1_def sorted_wrt_append)
  qed
  show ?thesis
  proof (cases "Max < length (entries h1)")
    case False
    then have "snd (push e h) = h1" by (simp add: push_def h1_def Let_def)
    with one show ?thesis by simp
  next
    case True
    then obtain x xs where es: "entries h1 = x # xs" by (cases "entries h1") auto
    have s: "sorted_wrt (\<lambda>a b. unat (ce_id a) < unat (ce_id b)) (x # xs)"
      using one es by (simp add: clip_safe_def ring_ok_def)
    have p: "snd (push e h) = (wipe_text (ce_text x) h)\<lparr>entries := xs\<rparr>"
    proof -
      have "Max < length (x # xs)" using True unfolding es .
      moreover have "entries h @ [e] = x # xs" using es by (simp add: h1_def)
      ultimately show ?thesis by (simp only: push_def Let_def) simp
    qed
    show ?thesis
      by (rule drop_wiped [OF one, where ys = xs and ds = "[x]"])
        (use s es sorted_ids_distinct [OF s] in \<open>auto simp: p store_wipe_text store_wipe_all h1_def held_def fun_eq_iff\<close>)
  qed
qed

lemma push_length: "length (entries (snd (push e h))) \<le> (if length (entries h) \<le> Max then Max else length (entries h))"
  by (auto simp: push_def Let_def)

lemma next_id_up: "w \<noteq> (- 1 :: 64 word) \<Longrightarrow> unat (w + 1) = unat w + 1"
  using unatSuc [of w] by (simp add: add.commute) (metis add.commute add_eq_0_iff)

lemma numbered_safe:
  assumes "clip_safe X h" "next_id h \<noteq> - 1"
  shows "clip_safe X (h\<lparr>next_id := next_id h + 1\<rparr>)"
    "\<forall>x \<in> set (entries h). unat (ce_id x) < unat (next_id h + 1)"
  using assms next_id_up [OF assms(2)]
  by (auto simp: clip_safe_def ring_ok_def blank_but_def entry_ok_def intro: le_SucI less_Suc_eq_le [THEN iffD2])

lemma Note_safe:
  assumes safe: "clip_safe X h" and room: "next_id h \<noteq> - 1" and kind: "kind \<noteq> KindText"
  shows "clip_safe X (snd (Note kind why sz now h))"
proof -
  define e where "e = \<lparr>ce_id = next_id h + 1, ce_text = None, ce_kind = kind, ce_why = why, ce_bytes = sz, ce_at = now\<rparr>"
  have "entry_ok (h\<lparr>next_id := next_id h + 1\<rparr>) e"
    using kind next_id_up [OF room] by (simp add: entry_ok_def e_def)
  then have "clip_safe (X - held {e}) (snd (push e (h\<lparr>next_id := next_id h + 1\<rparr>)))"
    using numbered_safe [OF safe room] by (intro push_safe) (auto simp: e_def held_def)
  then show ?thesis using safe by (simp add: Note_def Let_def e_def held_def)
qed

lemma Add_safe:
  assumes safe: "clip_safe {b} h" and room: "next_id h \<noteq> - 1"
    and b: "b < next_buf h" "b \<notin> held (set (entries h))"
  shows "clip_safe {} (snd (Add b now h))"
proof -
  define e where "e = \<lparr>ce_id = next_id h + 1, ce_text = Some b, ce_kind = KindText, ce_why = [],
    ce_bytes = int (length (store h b)), ce_at = now\<rparr>"
  have wiped: "clip_safe {} (wipe b h)" "clip_safe {} (wipe b (h\<lparr>expect := 0\<rparr>))"
    using safe b clip_safe_cong [OF safe, of "h\<lparr>expect := 0\<rparr>"] by (auto intro!: wipe_safe)
  have "clip_safe {} (snd (push e (h\<lparr>next_id := next_id h + 1\<rparr>)))"
    if "store h b \<noteq> []" "length (store h b) \<le> TextMax"
  proof -
    have "entry_ok (h\<lparr>next_id := next_id h + 1\<rparr>) e"
      using b that next_id_up [OF room] by (simp add: entry_ok_def e_def)
    then have "clip_safe ({b} - held {e}) (snd (push e (h\<lparr>next_id := next_id h + 1\<rparr>)))"
      using numbered_safe [OF safe room] b by (intro push_safe) (auto simp: e_def held_def)
    then show ?thesis by (simp add: e_def held_def)
  qed
  with wiped show ?thesis by (simp add: Add_def Let_def e_def not_less)
qed

lemma ring_bounded:
  "length (entries h) \<le> Max \<Longrightarrow> length (entries (snd (Add b now h))) \<le> Max"
  "length (entries h) \<le> Max \<Longrightarrow> length (entries (snd (Note k w sz now h))) \<le> Max"
  using push_length by (auto simp: Add_def Note_def Let_def intro: order_trans [OF push_length])

section \<open>Every state the daemon can reach\<close>

inductive clip_step :: "unicode \<Rightarrow> clip_history \<Rightarrow> clip_history \<Rightarrow> bool" for u where
  changed: "next_id h \<noteq> - 1 \<Longrightarrow> clip_step u h (fst (take_clip u tool now h))"
| put_back: "clip_step u h (snd (clipPut tool now i h))"
| listed: "clip_step u h (snd (Rows u now h))"
| swept: "clip_step u h (snd (Expire now h))"
| cleared: "clip_step u h (snd (Clear h))"

definition new_clips :: clip_history where
  "new_clips = \<lparr>store = (\<lambda>_. []), next_buf = 0, entries = [], next_id = 0, expect = 0, expectAt = 0\<rparr>"

inductive clip_reached :: "unicode \<Rightarrow> clip_history \<Rightarrow> bool" for u where
  start: "clip_reached u new_clips"
| step: "clip_reached u h \<Longrightarrow> clip_step u h h' \<Longrightarrow> clip_reached u h'"

text \<open>What a clipboard change can come to.\<close>

lemma take_cases:
  assumes "P h" "\<And>w. P (snd (Note KindOther w 0 now h))"
    and "\<And>bs w. P (snd (Note KindBig w (int TextMax) now (wipe (next_buf h) (snd (alloc bs h)))))"
    and "\<And>bs. P (snd (Add (next_buf h) now (snd (alloc bs h))))"
  shows "P (fst (take_clip u tool now h))"
  using assms by (simp add: take_clip_def alloc_def Let_def split: option.split sum.split prod.split)

lemma take_safe:
  assumes h: "clip_safe {} h" and room: "next_id h \<noteq> - 1"
  shows "clip_safe {} (fst (take_clip u tool now h))"
proof (rule take_cases)
  have a: "clip_safe {next_buf h} (snd (alloc bs h))" "next_buf h \<notin> held (set (entries (snd (alloc bs h))))"
    "next_buf h < next_buf (snd (alloc bs h))" "next_id (snd (alloc bs h)) \<noteq> - 1" for bs
    using alloc_safe [OF h, of bs] room by (simp_all add: alloc_def)
  show "clip_safe {} (snd (Note KindBig w (int TextMax) now (wipe (next_buf h) (snd (alloc bs h)))))" for bs w
    using a [of bs] by (intro Note_safe wipe_safe) (simp_all add: kinds)
  show "clip_safe {} (snd (Add (next_buf h) now (snd (alloc bs h))))" for bs
    using a [of bs] by (intro Add_safe) simp_all
qed (use h room in \<open>simp_all add: Note_safe kinds\<close>)

lemma put_cases:
  assumes "P h" "P (snd (expire now h))"
    and "\<And>bs i. let h1 = snd (alloc bs (snd (expire now h))); b = next_buf (snd (expire now h))
       in P (wipe b (Expect 0 now (Expect i now h1))) \<and> P (wipe b (Expect i now h1))"
  shows "P (snd (clipPut tool now i h))"
proof -
  obtain g h0 where e: "expire now h = (g, h0)" by (cases "expire now h")
  have "snd (clipPut tool now i h) \<in> {h, h0}
    \<union> {wipe (next_buf h0) (Expect 0 now (Expect n now (snd (alloc bs h0)))) |n bs. True}
    \<union> {wipe (next_buf h0) (Expect n now (snd (alloc bs h0))) |n bs. True}"
    by (auto simp: clipPut_def Clip_Text_def e alloc_def Let_def split: option.splits)
  with assms show ?thesis by (auto simp: e Let_def)
qed

lemma put_safe:
  assumes h: "clip_safe {} h"
  shows "clip_safe {} (snd (clipPut tool now i h))"
proof (rule put_cases)
  show e: "clip_safe {} (snd (expire now h))" using h by (rule expire_safe)
  define b where "b = next_buf (snd (expire now h))"
  fix bs k
  define h1 where "h1 = snd (alloc bs (snd (expire now h)))"
  have a: "clip_safe {b} h1" "b \<notin> held (set (entries h1))"
    using alloc_safe [OF e, of bs] by (simp_all add: b_def h1_def alloc_def)
  have "clip_safe {b} (Expect j now h1)" "clip_safe {b} (Expect 0 now (Expect j now h1))" for j
    using clip_safe_cong [OF a(1)] by (simp_all add: Expect_def)
  then show "let h1 = snd (alloc bs (snd (expire now h))); b = next_buf (snd (expire now h))
       in clip_safe {} (wipe b (Expect 0 now (Expect k now h1))) \<and> clip_safe {} (wipe b (Expect k now h1))"
    unfolding Let_def b_def [symmetric] h1_def [symmetric]
    using a(2) by (auto intro!: wipe_safe simp: Expect_def)
qed (rule h)

lemma expire_length: "length (entries h) \<le> n \<Longrightarrow> length (entries (snd (expire now h))) \<le> n"
  unfolding expire_facts by (rule order_trans [OF length_filter_le])

lemma step_bounded: "clip_step u h h' \<Longrightarrow> length (entries h) \<le> Max \<Longrightarrow> length (entries h') \<le> Max"
proof (induction rule: clip_step.induct)
  case (changed h tool now)
  show ?case using changed
    by - (rule take_cases [where P = "\<lambda>h. length (entries h) \<le> Max"], simp_all add: ring_bounded alloc_def)
next
  case (put_back h tool now i)
  then have "length (entries (snd (expire now h))) \<le> Max"
    by (intro expire_length)
  with put_back show ?case
    by - (rule put_cases [where P = "\<lambda>h. length (entries h) \<le> Max"], simp_all add: Expect_def alloc_def)
qed (simp_all add: Rows_def Expire_def Clear_def expire_length case_prod_beta)

lemma reached_safe: "clip_reached u h \<Longrightarrow> clip_safe {} h \<and> length (entries h) \<le> Max"
proof (induction rule: clip_reached.induct)
  case start
  show ?case by (simp add: new_clips_def clip_safe_def ring_ok_def one_buffer_each_def blank_but_def)
next
  case (step h h')
  from step.hyps(2) step.IH have "clip_safe {} h'"
    by (induction rule: clip_step.induct)
      (auto simp: Rows_def Expire_def case_prod_beta intro: take_safe put_safe expire_safe Clear_safe)
  with step show ?case using step_bounded by blast
qed

section \<open>What is promised of what was copied\<close>


lemma decode_first_before_ascii:
  "x < 128 \<Longrightarrow> decode_first a (bs @ x # r) = decode_first a bs \<and> snd (decode_first a bs) \<le> length bs"
  by (cases bs; cases "tl bs"; cases "tl (tl bs)") (auto simp: decode_first_def cont_def split: list.split)

lemma decode_before_ascii: "x < 128 \<Longrightarrow> decode (bs @ x # r) = decode bs @ x # decode r"
proof (induction bs rule: decode.induct)
  case 1
  then show ?case by (simp add: decode_first_def)
next
  case (2 a bs)
  then show ?case
    using decode_first_before_ascii [OF 2(2), of a bs r] by simp
qed

lemma decode_around_ascii:
  "list_all (\<lambda>x. x < 128) xs \<Longrightarrow> xs \<noteq> [] \<Longrightarrow> decode (bs @ xs @ r) = decode bs @ xs @ decode r"
proof (induction xs arbitrary: bs)
  case (Cons x xs)
  have x: "x < 128" using Cons.prems by simp
  show ?case
  proof (cases "xs = []")
    case True
    then show ?thesis using decode_before_ascii [OF x] by simp
  next
    case False
    then have "decode ([] @ xs @ r) = decode [] @ xs @ decode r" using Cons by (intro Cons.IH) simp_all
    then show ?thesis using decode_before_ascii [OF x, of bs "xs @ r"] by simp
  qed
qed simp

lemma prefix_of_append: "prefix_of p (p @ s)"
  by (induction p) auto

lemma Contains_mid: "Contains (a @ p @ b) p"
proof (induction a)
  case Nil
  then show ?case using prefix_of_append [of p b] by (cases "p @ b") auto
qed simp

text \<open>ASCII letters of either case.\<close>

definition ascii_lower :: "string \<Rightarrow> string" where
  "ascii_lower s = map (\<lambda>c. if CHR ''A'' \<le> c \<and> c \<le> CHR ''Z'' then char_of ((of_char c :: nat) + 32) else c) s"

lemma ToLower_ascii_mid:
  assumes u: "unicode_ok u" and s: "ascii s" "s \<noteq> []"
  shows "\<exists>a b. ToLower u (pre @ s @ post) = a @ ascii_lower s @ b"
proof -
  let ?m = "map (of_char :: char \<Rightarrow> nat)"
  have "runes_of (pre @ s @ post) = runes_of pre @ ?m s @ runes_of post"
    using s decode_around_ascii [of "?m s" "?m pre" "?m post"]
    by (simp add: runes_of_def ascii_def list_all_length)
  moreover have "map (to_lower u) (?m s) = ?m (ascii_lower s)" "ascii (ascii_lower s)"
    using u s by (auto simp: unicode_ok_def ascii_lower_def ascii_def list_all_iff less_eq_char_def)
  ultimately show ?thesis
    by (auto simp: ToLower_def string_of_runes_append string_of_runes_ascii)
qed

text \<open>C18: a secret is never asked for. An offer one of whose types carries the password
  managers' hint, in whatever case and with whatever around it, leaves the history exactly
  as it was, and no content was requested of the application.\<close>

theorem secrets_are_never_read:
  assumes "unicode_ok u" "tl_types tool = Inr types" "pre @ s @ post \<in> set types"
    and "ascii s" "ascii_lower s = hintLower"
  shows "take_clip u (Some tool) now h = (h, [])"
proof -
  have "s \<noteq> []" using assms(5) by (auto simp: ascii_lower_def hintLower_def)
  then have "Contains (ToLower u (pre @ s @ post)) hintLower"
    using ToLower_ascii_mid [OF assms(1,4), of pre post] assms(5) Contains_mid by force
  then have "Sensitive u types" using assms(3) by (induction types) auto
  moreover have "types \<noteq> []" using assms(3) by auto
  ultimately show ?thesis using assms(2) by (simp add: take_clip_def)
qed

lemma secrets_are_never_read_witness:
  "take_clip ascii_unicode
     (Some \<lparr>tl_types = Inr [''text/plain'', ''application/x-KDE-passwordManagerHint;a=b''],
            tl_read = (\<lambda>_. Inr (''hunter2'', False)), tl_write = (\<lambda>_. None)\<rparr>) 5 new_clips = (new_clips, [])"
proof -
  have "ascii ''x-KDE-passwordManagerHint''" by code_simp
  moreover have "ascii_lower ''x-KDE-passwordManagerHint'' = hintLower" by code_simp
  moreover have "''application/'' @ ''x-KDE-passwordManagerHint'' @ '';a=b''
      \<in> set [''text/plain'', ''application/x-KDE-passwordManagerHint;a=b'']" by simp
  ultimately show ?thesis
    using secrets_are_never_read [OF ascii_unicode_ok] by (metis clip_tool.select_convs(1))
qed

lemma find_id:
  assumes "sorted_wrt (\<lambda>a b. unat (ce_id a) < unat (ce_id b)) es" "e \<in> set es"
  shows "find (\<lambda>x. ce_id x = ce_id e) es = Some e"
  using assms by (induction es) auto

lemma young_kept:
  "clip_safe {} h \<Longrightarrow> e \<in> set (entries h) \<Longrightarrow> now - ce_at e < TTL \<Longrightarrow> ce_text e = Some b \<Longrightarrow>
   store (snd (expire now h)) b = store h b"
proof -
  assume a: "clip_safe {} h" "e \<in> set (entries h)" "now - ce_at e < TTL" "ce_text e = Some b"
  have "b \<notin> held (set (filter (\<lambda>e. \<not> now - ce_at e < TTL) (entries h)))"
  proof
    assume "b \<in> held (set (filter (\<lambda>e. \<not> now - ce_at e < TTL) (entries h)))"
    then obtain e' where "e' \<in> set (entries h)" "ce_text e' = Some b" "\<not> now - ce_at e' < TTL"
      by (auto simp: held_def)
    with a show False unfolding clip_safe_def ring_ok_def one_buffer_each_def by (metis option.distinct(1))
  qed
  then show ?thesis by (simp add: expire_facts store_wipe_all)
qed

text \<open>Putting an entry back is not a new entry. When a text entry that has not expired is
  put back and its bytes come round again as a change within the ten seconds the guard waits,
  the ring is the one the put left: nothing added, nothing reordered; and the bytes that were
  written are the entry's.\<close>

theorem putting_back_adds_nothing:
  assumes "clip_reached u h" "e \<in> set (entries h)" "ce_text e = Some b"
    and "put - ce_at e < TTL" "tl_write tool (store h b) = None"
    and "change - put < ExpectWindow"
    and "tl_types tool' = Inr types" "\<not> Sensitive u types" "TextType u types = Some mime" "types \<noteq> []"
    and "tl_read tool' mime = Inr (store h b, False)"
  shows "case clipPut (Some tool) put (itoa (unat (ce_id e))) h of (answer, h1) \<Rightarrow>
    answer = ClipOk \<and> entries (fst (take_clip u (Some tool') change h1)) = entries h1"
proof -
  have h: "clip_safe {} h" using reached_safe [OF assms(1)] by blast
  then have r: "ring_ok h" by (simp add: clip_safe_def)
  then have eo: "entry_ok h e" using assms(2) by (simp add: ring_ok_def)
  obtain g h0 where ex: "expire put h = (g, h0)" by (cases "expire put h")
  have h0: "entries h0 = filter (\<lambda>e. put - ce_at e < TTL) (entries h)" "store h0 b = store h b" "next_buf h0 = next_buf h"
    using expire_facts [of put h] young_kept [OF h assms(2,4,3)] by (simp_all add: ex)
  have mem: "e \<in> set (entries h0)" using assms(2,4) h0 by simp
  have sorted: "sorted_wrt (\<lambda>a b. unat (ce_id a) < unat (ce_id b)) (entries h0)"
    using r unfolding h0 ring_ok_def by (blast intro: sorted_wrt_filter)
  have k: "ce_kind e = KindText" "b < next_buf h" "store h b \<noteq> []" "length (store h b) \<le> TextMax" "ce_id e \<noteq> 0"
    using eo assms(3) by (auto simp: entry_ok_def)
  define h1 where "h1 = wipe (next_buf h0) (Expect (ce_id e) put (snd (alloc (store h b) h0)))"
  have put: "clipPut (Some tool) put (itoa (unat (ce_id e))) h = (ClipOk, h1)"
    using assms(3,5) find_id [OF sorted mem] k h0
    by (simp add: clipPut_def parse_uint_itoa Clip_Text_def ex bytes_of_def alloc_def Expect_def h1_def Let_def)
  have "echo (snd (alloc (store h b) h1)) (store h b) change"
    using find_id [OF sorted mem] k h0 assms(3,6)
    by (simp add: echo_def h1_def Expect_def alloc_def wipe_def bytes_of_def)
  then have "entries (fst (take_clip u (Some tool') change h1)) = entries h1"
    using assms(7-11) k by (simp add: take_clip_def alloc_def Add_def Let_def)
  with put show ?thesis by simp
qed

definition plain_tool :: clip_tool where
  "plain_tool = \<lparr>tl_types = Inr [''text/plain''], tl_read = (\<lambda>_. Inr (''hi'', False)), tl_write = (\<lambda>_. None)\<rparr>"

definition one_copied :: clip_history where
  "one_copied = fst (take_clip ascii_unicode (Some plain_tool) 5 new_clips)"

lemma one_copied_facts:
  "clip_reached ascii_unicode one_copied" "store one_copied 0 = ''hi''" "next_buf one_copied = 1"
  "entries one_copied = [\<lparr>ce_id = 1, ce_text = Some 0, ce_kind = KindText, ce_why = [], ce_bytes = 2, ce_at = 5\<rparr>]"
  "\<not> Sensitive ascii_unicode [''text/plain'']" "TextType ascii_unicode [''text/plain''] = Some ''text/plain''"
proof -
  have "ToLower ascii_unicode ''text/plain'' = ''text/plain''"
    by (simp add: ToLower_def ascii_unicode_def runes_of_ascii ascii_def string_of_runes_def encode_rune_def valid_rune_def char_of_eq_iff)
  then show s: "\<not> Sensitive ascii_unicode [''text/plain'']" by (simp add: hintLower_def)
  have "TrimSpace ''text/plain'' = ''text/plain''"
    by (simp add: TrimSpace_def leading_space_def runes_of_ascii ascii_def is_space_def Let_def)
  then show t: "TextType ascii_unicode [''text/plain''] = Some ''text/plain''"
    by (simp add: TextType_def wanted_types_def EqualFold_def runes_of_ascii ascii_def fold_rune_def)
  show "clip_reached ascii_unicode one_copied"
    unfolding one_copied_def by (rule clip_reached.step [OF clip_reached.start], rule changed) (simp add: new_clips_def)
  have c: "one_copied = snd (Add 0 5 (snd (alloc ''hi'' new_clips)))"
    using s t by (simp add: one_copied_def take_clip_def plain_tool_def alloc_def new_clips_def)
  show "store one_copied 0 = ''hi''" "next_buf one_copied = 1"
    "entries one_copied = [\<lparr>ce_id = 1, ce_text = Some 0, ce_kind = KindText, ce_why = [], ce_bytes = 2, ce_at = 5\<rparr>]"
    unfolding c by (simp_all add: Add_def alloc_def new_clips_def push_def Max_def TextMax_def echo_def Let_def)
qed


lemma putting_back_adds_nothing_witness:
  "case clipPut (Some plain_tool) 6 (itoa (unat (1 :: 64 word))) one_copied of (answer, h1) \<Rightarrow>
    answer = ClipOk \<and> entries (fst (take_clip ascii_unicode (Some plain_tool) 7 h1)) = entries h1"
proof -
  let ?e = "hd (entries one_copied)"
  have "case clipPut (Some plain_tool) 6 (itoa (unat (ce_id ?e))) one_copied of (answer, h1) \<Rightarrow>
    answer = ClipOk \<and> entries (fst (take_clip ascii_unicode (Some plain_tool) 7 h1)) = entries h1"
    by (rule putting_back_adds_nothing [OF one_copied_facts(1), where b = 0 and types = "[''text/plain'']"
          and mime = "''text/plain''"])
      (use one_copied_facts(5) in \<open>simp_all add: one_copied_facts plain_tool_def TTL_def ExpectWindow_def\<close>)
  then show ?thesis by (simp add: one_copied_facts)
qed

end
