(* ===== verification/Ops.thy ===== *)
theory Ops
  imports Prelude "HOL-Library.State_Monad"
begin

text \<open>
  Handlers of the daemon as state-passing programs: the library's state monad under names of
  our own, the early return of a Go function whose callee failed, a loop that stops at the
  first failure, and the rules by which an invariant is carried through a handler without
  unfolding it.
\<close>

type_synonym ('s, 'a) op = "('s, 'a) State_Monad.state"

definition run :: "('s, 'a) op \<Rightarrow> 's \<Rightarrow> 'a \<times> 's" where "run m s = run_state m s"

definition give :: "'a \<Rightarrow> ('s, 'a) op" where "give x = State_Monad.return x"

text \<open>Reading the state, changing it, and both.\<close>

definition look :: "('s \<Rightarrow> 'a) \<Rightarrow> ('s, 'a) op" where
  "look f = State_Monad.State (\<lambda>s. (f s, s))"

definition change :: "('s \<Rightarrow> 's) \<Rightarrow> ('s, unit) op" where
  "change f = State_Monad.State (\<lambda>s. ((), f s))"

definition step_op :: "('s \<Rightarrow> 'a \<times> 's) \<Rightarrow> ('s, 'a) op" where
  "step_op f = State_Monad.State f"

text \<open>\<open>if err != nil { return fail(err) }\<close>, and the rest of the function with the value.\<close>

definition attempt :: "('s, 'e + 'a) op \<Rightarrow> ('e \<Rightarrow> 'b) \<Rightarrow> ('a \<Rightarrow> ('s, 'b) op) \<Rightarrow> ('s, 'b) op" where
  "attempt m fail f = do { r \<leftarrow> m; case r of Inl e \<Rightarrow> give (fail e) | Inr x \<Rightarrow> f x }"

text \<open>The same for a call that answers with nothing but an error.\<close>

definition must :: "('s, 'e option) op \<Rightarrow> ('e \<Rightarrow> 'b) \<Rightarrow> ('s, 'b) op \<Rightarrow> ('s, 'b) op" where
  "must m fail f = do { r \<leftarrow> m; case r of Some e \<Rightarrow> give (fail e) | None \<Rightarrow> f }"

text \<open>A loop over a list that returns at the first error.\<close>

fun each :: "('x \<Rightarrow> ('s, 'e option) op) \<Rightarrow> 'x list \<Rightarrow> ('s, 'e option) op" where
  "each f [] = give None"
| "each f (x # xs) = do { r \<leftarrow> f x; case r of Some e \<Rightarrow> give (Some e) | None \<Rightarrow> each f xs }"

text \<open>A loop whose calls' errors nobody looks at.\<close>

fun every :: "('x \<Rightarrow> ('s, 'a) op) \<Rightarrow> 'x list \<Rightarrow> ('s, unit) op" where
  "every f [] = give ()"
| "every f (x # xs) = do { _ \<leftarrow> f x; every f xs }"

lemma run_simps [simp]:
  "run (give x) s = (x, s)"
  "run (look f) s = (f s, s)"
  "run (change g) s = ((), g s)"
  "run (step_op h) s = h s"
  by (simp_all add: run_def give_def look_def change_def step_op_def)

lemma run_bind [simp]: "run (m \<bind> f) s = (case run m s of (x, s') \<Rightarrow> run (f x) s')"
  by (simp add: run_def)

lemma run_attempt [simp]:
  "run (attempt m fail f) s = (case run m s of (Inl e, s') \<Rightarrow> (fail e, s') | (Inr x, s') \<Rightarrow> run (f x) s')"
  by (simp add: attempt_def split: prod.split sum.split)

lemma run_must [simp]:
  "run (must m fail f) s = (case run m s of (Some e, s') \<Rightarrow> (fail e, s') | (None, s') \<Rightarrow> run f s')"
  by (simp add: must_def split: prod.split option.split)

lemma run_ite: "run (if b then m else n) s = (if b then run m s else run n s)"
  by simp

section \<open>Carrying an assertion through\<close>

text \<open>From a state with \<open>P\<close> the program answers and ends as \<open>Q\<close> says.\<close>

definition ensures :: "('s \<Rightarrow> bool) \<Rightarrow> ('s, 'a) op \<Rightarrow> ('a \<Rightarrow> 's \<Rightarrow> bool) \<Rightarrow> bool" where
  "ensures P m Q \<longleftrightarrow> (\<forall>s. P s \<longrightarrow> Q (fst (run m s)) (snd (run m s)))"

abbreviation preserves :: "('s \<Rightarrow> bool) \<Rightarrow> ('s, 'a) op \<Rightarrow> bool" where
  "preserves P m \<equiv> ensures P m (\<lambda>_. P)"

named_theorems keeping \<open>invariants of single operations, for carrying through a handler\<close>

lemma ensuresI: "(\<And>s x s'. P s \<Longrightarrow> run m s = (x, s') \<Longrightarrow> Q x s') \<Longrightarrow> ensures P m Q"
  by (simp add: ensures_def)

lemma ensuresD: "ensures P m Q \<Longrightarrow> P s \<Longrightarrow> run m s = (x, s') \<Longrightarrow> Q x s'"
  unfolding ensures_def by (metis fst_conv snd_conv)

lemma ensures_mono: "ensures P m Q \<Longrightarrow> (\<And>x s. Q x s \<Longrightarrow> R x s) \<Longrightarrow> ensures P m R"
  by (simp add: ensures_def)

lemma ensures_pre: "ensures P m Q \<Longrightarrow> (\<And>s. P' s \<Longrightarrow> P s) \<Longrightarrow> ensures P' m Q"
  by (simp add: ensures_def)

lemma ensures_bind: "ensures P m Q \<Longrightarrow> (\<And>x. ensures (Q x) (f x) R) \<Longrightarrow> ensures P (m \<bind> f) R"
  by (auto simp: ensures_def split: prod.split)

lemma keeps_give [keeping]: "preserves P (give x)"
  by (simp add: ensures_def)

lemma keeps_look [keeping]: "preserves P (look f)"
  by (simp add: ensures_def)

lemma keeps_bind [keeping]: "preserves P m \<Longrightarrow> (\<And>x. preserves P (f x)) \<Longrightarrow> preserves P (m \<bind> f)"
  by (rule ensures_bind)

lemma keeps_change: "(\<And>s. P s \<Longrightarrow> P (g s)) \<Longrightarrow> preserves P (change g)"
  by (simp add: ensures_def)

lemma keeps_step: "(\<And>s. P s \<Longrightarrow> P (snd (f s))) \<Longrightarrow> preserves P (step_op f)"
  by (simp add: ensures_def)

lemma keeps_attempt [keeping]: "preserves P m \<Longrightarrow> (\<And>x. preserves P (f x)) \<Longrightarrow> preserves P (attempt m fail f)"
  by (auto simp: attempt_def intro!: keeping split: sum.split)

lemma keeps_must [keeping]: "preserves P m \<Longrightarrow> preserves P f \<Longrightarrow> preserves P (must m fail f)"
  by (auto simp: must_def intro!: keeping split: option.split)

lemma keeps_each [keeping]: "(\<And>x. x \<in> set xs \<Longrightarrow> preserves P (f x)) \<Longrightarrow> preserves P (each f xs)"
  by (induction xs) (auto intro!: keeping split: option.split)

lemma keeps_every [keeping]: "(\<And>x. x \<in> set xs \<Longrightarrow> preserves P (f x)) \<Longrightarrow> preserves P (every f xs)"
  by (induction xs) (auto intro!: keeping)

lemma keeps_if [keeping]: "(b \<Longrightarrow> preserves P m) \<Longrightarrow> (\<not> b \<Longrightarrow> preserves P n) \<Longrightarrow> preserves P (if b then m else n)"
  by simp

lemma keeps_option [keeping]:
  "preserves P m \<Longrightarrow> (\<And>x. preserves P (f x)) \<Longrightarrow> preserves P (case r of None \<Rightarrow> m | Some x \<Rightarrow> f x)"
  by (cases r) simp_all

lemma keeps_sum [keeping]:
  "(\<And>e. preserves P (f e)) \<Longrightarrow> (\<And>x. preserves P (g x)) \<Longrightarrow> preserves P (case r of Inl e \<Rightarrow> f e | Inr x \<Rightarrow> g x)"
  by (cases r) simp_all

lemma keeps_pair [keeping]: "(\<And>x y. preserves P (f x y)) \<Longrightarrow> preserves P (case p of (x, y) \<Rightarrow> f x y)"
  by (cases p) simp

lemma keeps_let [keeping]: "(\<And>x. preserves P (f x)) \<Longrightarrow> preserves P (let x = a in f x)"
  by simp

text \<open>A part of the state that is a state of its own.\<close>

definition inside :: "('s \<Rightarrow> 't) \<Rightarrow> ('t \<Rightarrow> 's \<Rightarrow> 's) \<Rightarrow> ('t, 'a) op \<Rightarrow> ('s, 'a) op" where
  "inside get_part put_part m =
     step_op (\<lambda>s. case run m (get_part s) of (x, t) \<Rightarrow> (x, put_part t s))"

lemma run_inside [simp]:
  "run (inside get_part put_part m) s = (case run m (get_part s) of (x, t) \<Rightarrow> (x, put_part t s))"
  by (simp add: inside_def)

lemma keeps_inside: "(\<And>t s. P s \<Longrightarrow> P (put_part t s)) \<Longrightarrow> preserves P (inside get_part put_part m)"
  by (simp add: ensures_def split: prod.split)

end
