(* ===== verification/Niri.thy ===== *)
theory Niri
  imports Ops Desk_Map
begin

text \<open>
  The client of the compositor (\<open>internal/niri/client.go\<close>) and the daemon's use of it
  (\<open>cmd/zded/compositor.go\<close>, \<open>compositor_actions.go\<close>). The socket is an argument: dialling and
  one exchange, each a program on the state \<open>'w\<close> of the world outside. The JSON of a
  payload is read already, into a datatype of what niri answers with.
\<close>

section \<open>The wire\<close>

record niri_workspace =
  nw_ID :: "64 word"
  nw_Idx :: "8 word"
  nw_Name :: "string option"
  nw_Output :: "string option"
  nw_Active :: bool
  nw_Focused :: bool

record niri_window =
  wn_ID :: "64 word"
  wn_Title :: "string option"
  wn_AppID :: "string option"
  wn_WorkspaceID :: "64 word option"
  wn_IsFocused :: bool

record niri_output =
  ou_Name :: string
  ou_Logical :: bool

datatype niri_action =
  Focus_workspace string
| Name_by_id "64 word" string
| Name_by_name string string
| Move_window string bool
| Focus_window "64 word"
| Plain string

datatype request = Ask string | Act niri_action

text \<open>What an \<open>Ok\<close> carries: a variant's payload, a word, or something that is not the shape asked for.\<close>

datatype payload =
  Workspaces_payload "niri_workspace list"
| Outputs_payload "(string \<times> niri_output) list"
| Windows_payload "niri_window list"
| Word string
| Misshapen string

record niri_reply =
  rp_Ok :: "payload option"
  rp_Err :: "string option"

record 'w niri =
  nr_dial :: "('w, string option) op"
  nr_exchange :: "request \<Rightarrow> ('w, string + niri_reply) op"

definition deref :: "string option \<Rightarrow> string" where
  "deref s = (case s of None \<Rightarrow> [] | Some t \<Rightarrow> t)"

section \<open>One request\<close>

definition call :: "'w niri \<Rightarrow> request \<Rightarrow> string \<Rightarrow> ('w, string + payload) op" where
  "call c req what =
     attempt (nr_exchange c req) Inl (\<lambda>rep.
       give (case rp_Err rep of
               Some e \<Rightarrow> Inl (''niri: '' @ what @ '': '' @ e)
             | None \<Rightarrow>
                 (case rp_Ok rep of
                    None \<Rightarrow> Inl (''niri: '' @ what @ '': reply carried neither Ok nor Err'')
                  | Some p \<Rightarrow> Inr p)))"

definition Niri_Action :: "'w niri \<Rightarrow> niri_action \<Rightarrow> string \<Rightarrow> ('w, string option) op" where
  "Niri_Action c a what =
     attempt (call c (Act a) what) Some (\<lambda>p.
       give (if p = Word ''Handled'' then None else Some (''niri: '' @ what @ '': not handled'')))"

definition not_asked :: "string \<Rightarrow> payload \<Rightarrow> string" where
  "not_asked what p =
     (case p of
        Misshapen e \<Rightarrow> ''niri: '' @ what @ '': '' @ e
      | Word w \<Rightarrow> ''niri: '' @ what @ '': '' @ w
      | Workspaces_payload _ \<Rightarrow> ''niri: asked for '' @ what @ '', got [Workspaces]''
      | Outputs_payload _ \<Rightarrow> ''niri: asked for '' @ what @ '', got [Outputs]''
      | Windows_payload _ \<Rightarrow> ''niri: asked for '' @ what @ '', got [Windows]'')"

definition niri_Workspaces :: "'w niri \<Rightarrow> ('w, string + niri_workspace list) op" where
  "niri_Workspaces c =
     attempt (call c (Ask ''Workspaces'') ''Workspaces'') Inl (\<lambda>p.
       give (case p of Workspaces_payload ws \<Rightarrow> Inr ws | _ \<Rightarrow> Inl (not_asked ''Workspaces'' p)))"

definition niri_Screens :: "'w niri \<Rightarrow> ('w, string + string list) op" where
  "niri_Screens c =
     attempt (call c (Ask ''Outputs'') ''Outputs'') Inl (\<lambda>p.
       give (case p of
               Outputs_payload outs \<Rightarrow> Inr (map ou_Name (filter ou_Logical (map snd outs)))
             | _ \<Rightarrow> Inl (not_asked ''Outputs'' p)))"

definition niri_Windows :: "'w niri \<Rightarrow> ('w, string + niri_window list) op" where
  "niri_Windows c =
     attempt (call c (Ask ''Windows'') ''Windows'') Inl (\<lambda>p.
       give (case p of Windows_payload ws \<Rightarrow> Inr ws | _ \<Rightarrow> Inl (not_asked ''Windows'' p)))"

section \<open>What is made of the answers\<close>

definition AsDeskWorkspaces :: "niri_workspace list \<Rightarrow> workspace list" where
  "AsDeskWorkspaces ws =
     map (\<lambda>w. \<lparr>ID = nw_ID w, Idx = nw_Idx w, Name = deref (nw_Name w), Output = deref (nw_Output w)\<rparr>) ws"

definition niri_DeskMap :: "'w niri \<Rightarrow> ('w, string + desk_map) op" where
  "niri_DeskMap c =
     attempt (niri_Workspaces c) Inl (\<lambda>ws.
     attempt (niri_Screens c) Inl (\<lambda>screens.
       give (Inr (Rebuild (AsDeskWorkspaces ws) screens))))"

definition focused_of :: "niri_workspace list \<Rightarrow> niri_workspace option" where
  "focused_of ws = find nw_Focused ws"

definition niri_FocusedName :: "'w niri \<Rightarrow> ('w, string + string) op" where
  "niri_FocusedName c =
     attempt (niri_Workspaces c) Inl (\<lambda>ws.
       give (Inr (case focused_of ws of None \<Rightarrow> [] | Some w \<Rightarrow> deref (nw_Name w))))"

definition niri_FocusedOutput :: "'w niri \<Rightarrow> ('w, string + string) op" where
  "niri_FocusedOutput c =
     attempt (niri_Workspaces c) Inl (\<lambda>ws.
       give (Inr (case focused_of ws of None \<Rightarrow> [] | Some w \<Rightarrow> deref (nw_Output w))))"

definition niri_FocusedPlace :: "'w niri \<Rightarrow> ('w, string + string \<times> string) op" where
  "niri_FocusedPlace c =
     attempt (niri_Workspaces c) Inl (\<lambda>ws.
       give (Inr (case focused_of ws of
                    None \<Rightarrow> ([], [])
                  | Some w \<Rightarrow> (deref (nw_Name w), deref (nw_Output w)))))"

record open_window =
  ow_ID :: "64 word"
  ow_Title :: string
  ow_AppID :: string
  ow_Workspace :: string

text \<open>A workspace's name by its id; of two with one id the later one's, as in a map written in order.\<close>

definition named_by :: "niri_workspace list \<Rightarrow> 64 word \<Rightarrow> string" where
  "named_by ws = fold (\<lambda>w named. named(nw_ID w := deref (nw_Name w))) ws (\<lambda>_. [])"

definition open_window :: "(64 word \<Rightarrow> string) \<Rightarrow> niri_window \<Rightarrow> open_window" where
  "open_window named w =
     \<lparr>ow_ID = wn_ID w, ow_Title = deref (wn_Title w), ow_AppID = deref (wn_AppID w),
      ow_Workspace = (case wn_WorkspaceID w of None \<Rightarrow> [] | Some i \<Rightarrow> named i)\<rparr>"

definition niri_OpenWindows :: "'w niri \<Rightarrow> ('w, string + open_window list) op" where
  "niri_OpenWindows c =
     attempt (niri_Windows c) Inl (\<lambda>windows.
     attempt (niri_Workspaces c) Inl (\<lambda>ws.
       give (Inr (map (open_window (named_by ws)) windows))))"

definition niri_FocusedWindow :: "'w niri \<Rightarrow> ('w, string + 64 word) op" where
  "niri_FocusedWindow c =
     attempt (niri_Windows c) Inl (\<lambda>windows.
       give (Inr (case find wn_IsFocused windows of None \<Rightarrow> 0 | Some w \<Rightarrow> wn_ID w)))"

definition first_app_step :: "niri_window \<Rightarrow> (64 word \<rightharpoonup> string) \<Rightarrow> (64 word \<rightharpoonup> string)" where
  "first_app_step w out =
     (case (wn_WorkspaceID w, wn_AppID w) of
        (Some i, Some a) \<Rightarrow> if a = [] \<or> out i \<noteq> None then out else out(i \<mapsto> a)
      | _ \<Rightarrow> out)"

definition first_apps :: "niri_window list \<Rightarrow> (64 word \<rightharpoonup> string)" where
  "first_apps windows = fold first_app_step windows Map.empty"

definition niri_FirstApps :: "'w niri \<Rightarrow> ('w, string + (64 word \<rightharpoonup> string)) op" where
  "niri_FirstApps c = attempt (niri_Windows c) Inl (\<lambda>windows. give (Inr (first_apps windows)))"

definition empty_step ::
  "(64 word \<rightharpoonup> string) \<Rightarrow> niri_workspace \<Rightarrow> (string \<Rightarrow> 64 word list) \<Rightarrow> (string \<Rightarrow> 64 word list)" where
  "empty_step firstApp w out =
     (case nw_Output w of
        None \<Rightarrow> out
      | Some scr \<Rightarrow>
          if deref (nw_Name w) \<noteq> [] then out
          else if firstApp (nw_ID w) \<noteq> None then out
          else out(scr := out scr @ [nw_ID w]))"

definition niri_EmptyByOutput :: "'w niri \<Rightarrow> ('w, string + (string \<Rightarrow> 64 word list)) op" where
  "niri_EmptyByOutput c =
     attempt (niri_Workspaces c) Inl (\<lambda>ws.
     attempt (niri_FirstApps c) Inl (\<lambda>firstApp.
       give (Inr (fold (empty_step firstApp) ws (\<lambda>_. [])))))"

section \<open>What is asked for\<close>

definition niri_FocusWorkspace :: "'w niri \<Rightarrow> string \<Rightarrow> ('w, string option) op" where
  "niri_FocusWorkspace c name = Niri_Action c (Focus_workspace name) (''FocusWorkspace '' @ name)"

definition niri_SetWorkspaceNameByID :: "'w niri \<Rightarrow> 64 word \<Rightarrow> string \<Rightarrow> ('w, string option) op" where
  "niri_SetWorkspaceNameByID c i name = Niri_Action c (Name_by_id i name) (''SetWorkspaceName '' @ name)"

definition niri_RenameWorkspace :: "'w niri \<Rightarrow> string \<Rightarrow> string \<Rightarrow> ('w, string option) op" where
  "niri_RenameWorkspace c from to = Niri_Action c (Name_by_name from to) (''SetWorkspaceName '' @ to)"

definition niri_MoveWindowToWorkspace :: "'w niri \<Rightarrow> string \<Rightarrow> ('w, string option) op" where
  "niri_MoveWindowToWorkspace c name = Niri_Action c (Move_window name False) (''MoveWindowToWorkspace '' @ name)"

definition niri_FocusWindow :: "'w niri \<Rightarrow> 64 word \<Rightarrow> ('w, string option) op" where
  "niri_FocusWindow c i = Niri_Action c (Focus_window i) (''FocusWindow '' @ itoa (unat i))"

definition niri_FocusWindowVertically :: "'w niri \<Rightarrow> bool \<Rightarrow> ('w, string option) op" where
  "niri_FocusWindowVertically c down =
     (let action = (if down then ''FocusWindowDown'' else ''FocusWindowUp'') in Niri_Action c (Plain action) action)"

text \<open>\<open>strings.ToUpper\<close> of one byte; a byte that is no character becomes U+FFFD.\<close>

definition upper_byte :: "char \<Rightarrow> string" where
  "upper_byte ch =
     (if CHR ''a'' \<le> ch \<and> ch \<le> CHR ''z'' then [char_of ((of_char ch :: nat) - 32)]
      else if 128 \<le> (of_char ch :: nat) then map char_of [239 :: nat, 191, 189] else [ch])"

definition variant_name :: "string \<Rightarrow> string" where
  "variant_name action =
     concat (map (\<lambda>p. case p of [] \<Rightarrow> [] | ch # cs \<Rightarrow> upper_byte ch @ cs) (split_on (CHR ''-'') action))"

definition niri_Perform :: "'w niri \<Rightarrow> string \<Rightarrow> ('w, string option) op" where
  "niri_Perform c action = (let name = variant_name action in Niri_Action c (Plain name) name)"

definition niri_ReloadConfig :: "'w niri \<Rightarrow> ('w, string option) op" where
  "niri_ReloadConfig c = niri_Perform c ''load-config-file''"

section \<open>The daemon's compositor: a connection per question\<close>

definition dialled :: "'w niri \<Rightarrow> ('w, string + 'a) op \<Rightarrow> ('w, string + 'a) op" where
  "dialled c m = must (nr_dial c) Inl m"

definition dialled_act :: "'w niri \<Rightarrow> ('w, string option) op \<Rightarrow> ('w, string option) op" where
  "dialled_act c m = must (nr_dial c) Some m"

definition DeskMap where "DeskMap c = dialled c (niri_DeskMap c)"
definition FocusedName where "FocusedName c = dialled c (niri_FocusedName c)"
definition FocusedOutput where "FocusedOutput c = dialled c (niri_FocusedOutput c)"
definition FocusedPlace where "FocusedPlace c = dialled c (niri_FocusedPlace c)"
definition FocusedWindow where "FocusedWindow c = dialled c (niri_FocusedWindow c)"
definition Windows where "Windows c = dialled c (niri_OpenWindows c)"
definition EmptyByOutput where "EmptyByOutput c = dialled c (niri_EmptyByOutput c)"
definition FirstApps where "FirstApps c = dialled c (niri_FirstApps c)"
definition MoveWindowToWorkspace where "MoveWindowToWorkspace c name = dialled_act c (niri_MoveWindowToWorkspace c name)"
definition FocusWindow where "FocusWindow c i = dialled_act c (niri_FocusWindow c i)"
definition FocusWindowVertically where "FocusWindowVertically c down = dialled_act c (niri_FocusWindowVertically c down)"
definition Perform where "Perform c action = dialled_act c (niri_Perform c action)"
definition ReloadConfig where "ReloadConfig c = dialled_act c (niri_ReloadConfig c)"
definition FocusWorkspace where "FocusWorkspace c name = dialled_act c (niri_FocusWorkspace c name)"
definition RenameWorkspace where "RenameWorkspace c from to = dialled_act c (niri_RenameWorkspace c from to)"
definition SetWorkspaceNameByID where "SetWorkspaceNameByID c i name = dialled_act c (niri_SetWorkspaceNameByID c i name)"

section \<open>What the answers mean\<close>

lemma first_apps_snoc: "first_apps (ws @ [w]) = first_app_step w (first_apps ws)"
  by (simp add: first_apps_def)

definition has_app :: "64 word \<Rightarrow> niri_window \<Rightarrow> bool" where
  "has_app i w \<longleftrightarrow> wn_WorkspaceID w = Some i \<and> deref (wn_AppID w) \<noteq> []"

lemma first_app_step_at:
  "first_app_step w out i = (if out i = None \<and> has_app i w then wn_AppID w else out i)"
  by (auto simp: first_app_step_def has_app_def deref_def split: option.splits)

lemma first_apps_find: "first_apps windows i = Option.bind (find (has_app i) windows) wn_AppID"
proof -
  have "fold first_app_step windows out i
      = (if out i = None then Option.bind (find (has_app i) windows) wn_AppID else out i)" for out
  proof (induction windows arbitrary: out)
    case (Cons w windows)
    have "wn_AppID w \<noteq> None" if "has_app i w" using that by (auto simp: has_app_def deref_def split: option.splits)
    then show ?case
      using Cons.IH [of "first_app_step w out"] first_app_step_at [of w out i] by (auto split: if_splits)
  qed simp
  then show ?thesis by (simp add: first_apps_def)
qed

lemma first_apps_None: "first_apps windows i = None \<longleftrightarrow> (\<forall>w \<in> set windows. \<not> has_app i w)"
proof (cases "find (has_app i) windows")
  case None
  then have "\<forall>w \<in> set windows. \<not> has_app i w" by (auto simp: find_None_iff)
  with None show ?thesis by (simp add: first_apps_find)
next
  case (Some w)
  then have "has_app i w" "w \<in> set windows" by (auto simp: find_Some_iff)
  then show ?thesis using Some by (auto simp: first_apps_find has_app_def deref_def split: option.splits)
qed

lemma empties_fold:
  "fold (empty_step fa) ws out scr = out scr @
     map nw_ID (filter (\<lambda>w. nw_Output w = Some scr \<and> deref (nw_Name w) = [] \<and> fa (nw_ID w) = None) ws)"
  by (induction ws arbitrary: out) (auto simp: empty_step_def split: option.splits)

text \<open>The workspaces offered for a declared name to go to are, screen by screen and in niri's
  order, exactly the nameless ones on that screen on which no window says which app it is.
  A window that says nothing of its app does not keep its workspace from being offered.\<close>

theorem EmptyByOutput_exact:
  "fold (empty_step (first_apps windows)) ws (\<lambda>_. []) scr =
     map nw_ID (filter (\<lambda>w. nw_Output w = Some scr \<and> deref (nw_Name w) = []
       \<and> (\<forall>x \<in> set windows. wn_WorkspaceID x = Some (nw_ID w) \<longrightarrow> deref (wn_AppID x) = [])) ws)"
proof -
  have "first_apps windows i = None \<longleftrightarrow> (\<forall>x \<in> set windows. wn_WorkspaceID x = Some i \<longrightarrow> deref (wn_AppID x) = [])" for i
    by (auto simp: first_apps_None has_app_def)
  then show ?thesis by (simp add: empties_fold)
qed

text \<open>An occupied workspace offered as an empty one: its window has no app id.\<close>

lemma occupied_counts_as_empty:
  "fold (empty_step (first_apps [\<lparr>wn_ID = 3, wn_Title = Some ''xterm'', wn_AppID = None,
       wn_WorkspaceID = Some 7, wn_IsFocused = True\<rparr>]))
     [\<lparr>nw_ID = 7, nw_Idx = 1, nw_Name = None, nw_Output = Some ''DP-1'', nw_Active = True, nw_Focused = True\<rparr>]
     (\<lambda>_. []) ''DP-1'' = [7]"
  by (simp add: empty_step_def first_apps_find has_app_def deref_def)

end

