(* ===== verification/Zded.thy ===== *)
theory Zded
  imports Niri Journal Attn_History Attn_Server Manifest
begin

text \<open>
  The daemon's state (\<open>internal/zded/server.go\<close>) and what every handler uses: the journal it
  may have been started without, the desk the session is on, the manifests, the attn mode.
  The world outside is a state of its own, \<open>'w\<close>, and what it answers (niri, the disk, the
  desks directory, the clock, the shell) is a record of programs on it. A call that writes the
  journal asks the disk how the write ends. A nil journal is \<open>dm_journalled = False\<close>: every
  handler tests that before it touches \<open>dm_jrn\<close>. Locks are left out; logging is, too.
\<close>

section \<open>What is said to a surface and to a client\<close>

record event =
  ev_Kind :: string
  ev_Desks :: "string list"
  ev_Windows :: "open_window list"
  ev_Notifications :: "arrival list"
  ev_On :: string
  ev_Output :: string

definition no_event :: event where
  "no_event = \<lparr>ev_Kind = [], ev_Desks = [], ev_Windows = [], ev_Notifications = [], ev_On = [], ev_Output = []\<rparr>"

definition EventPicker :: string where "EventPicker = ''picker''"
definition EventWindows :: string where "EventWindows = ''windows''"
definition EventPickerMoveWindow :: string where "EventPickerMoveWindow = ''picker.move-window''"
definition EventPickerMoveWorkspace :: string where "EventPickerMoveWorkspace = ''picker.move-workspace''"
definition EventCenter :: string where "EventCenter = ''notif-center''"
definition EventAttnPopup :: string where "EventAttnPopup = ''attn.popup''"
definition EventAttnReach :: string where "EventAttnReach = ''attn.reach''"
definition EventAttnHide :: string where "EventAttnHide = ''attn.hide''"
definition EventZen :: string where "EventZen = ''zen''"

text \<open>
  Why a request is refused. The texts are left out, all but what distinguishes them:
  \<open>No_such_band\<close> is compared with, and no text of niri's or of the disk's can be equal to it.
\<close>

datatype complaint =
  From_niri string | From_desks string | From_journal journal_error | No_journal | Not_written
| Takes_other_arguments string | Unknown_method string
| Nothing_to_wait_for | Too_long nat | Not_one_line | Not_an_id string | Nothing_waiting | Not_on_any_desk string
| No_mode_given | Bad_mode string
| Not_in_history string | From_before string | No_actions string | Never_offered string string | Not_serving
| Invoke_failed invoke_error
| No_such_band string | No_desks | No_desk_here | Not_on_screen string | Not_a_desk string
| Nothing_focused | Not_ours string | Already_in string string | Declared_there string string string | No_name_for string string
| No_regulars | Nowhere_back string | No_last_desk
| Landed_but string complaint | Switching string string | Reading_windows string | Renaming string string | Adopting string string
| Creating string string
| Nothing_open | No_window string
| Not_a_workspace string | Not_declared string "string list" | No_snapshot_desk | Regulars_undeclared | Snapshot_refused snapshot_error | Save_refused string
| Nothing_hidden complaint | Config_unreadable string | No_decoy | Cannot_tell_private string | Declared_private string
| Decoy_not_up complaint

text \<open>What a request that worked still has to say.\<close>

datatype remark =
  Not_made string | Not_silenced complaint | Not_muted "string option" | Not_brought_back complaint | Still_on_decoy
| Left_off | Still_muted "string option" | Not_unquieted complaint

datatype result =
  Done_with | Names "string list" | Item_waits item | Queue_is "item list" | Count_is nat | Mode_is string
| Reach_is bool | Center_is bool "arrival list" | Switcher_is bool "string list" string
| Jump_is bool "open_window list" | Reconciled_is "string list" "string list" "(string \<times> reason) list"
| Path_is string | Apps_are "(string \<times> string) list" | Zen_is bool | Panic_on string | Panic_off

record response =
  rs_result :: "complaint + result"
  rs_note :: "remark list"

definition refuse :: "complaint \<Rightarrow> response" where "refuse e = \<lparr>rs_result = Inl e, rs_note = []\<rparr>"
definition ok :: "result \<Rightarrow> response" where "ok r = \<lparr>rs_result = Inr r, rs_note = []\<rparr>"

section \<open>The state\<close>

text \<open>
  \<open>ot_tell\<close> is a broadcast nobody waits for, \<open>ot_surface\<close> one that waits for a surface to say it is up;
  \<open>ot_muted\<close> and \<open>ot_mute\<close> are the machine's sound, where there is any; \<open>ot_decoy\<close> is panic's
  config file; \<open>ot_ending\<close> says whether the daemon is being stopped.
\<close>

datatype launch_error = AlreadyRunning | NotStarted string

record 'w outside =
  ot_unicode :: unicode
  ot_niri :: "'w niri"
  ot_disk :: "('w, outcome) op"
  ot_desks :: "('w, string + (string \<times> desk_manifest) list \<times> problem list) op"
  ot_save :: "desk_manifest \<Rightarrow> ('w, string + string) op"
  ot_now :: "('w, int) op"
  ot_surface :: "event \<Rightarrow> ('w, bool) op"
  ot_holds :: "sender \<Rightarrow> ('w, bool) op"
  ot_rules :: "string \<Rightarrow> ('w, string option) op"
  ot_tell :: "event \<Rightarrow> ('w, unit) op"
  ot_sound :: bool
  ot_muted :: "('w, string + bool) op"
  ot_mute :: "bool \<Rightarrow> ('w, string option) op"
  ot_decoy :: "('w, string + string) op"
  ot_ending :: "('w, bool) op"
  ot_launch :: "string \<Rightarrow> ('w, launch_error option) op"

text \<open>What panic took, to be given back by the same key.\<close>

record panic_hold =
  ph_decoy :: string
  ph_from :: string
  ph_mode :: string
  ph_took :: bool
  ph_muted :: bool
  ph_knewMuted :: bool

text \<open>\<open>dm_starting\<close> holds the goroutines a desk switch started: a desk and the apps it is to launch.\<close>

record 'w daemon = server +
  dm_journalled :: bool
  dm_jrn :: journal
  dm_history :: history
  dm_serving :: bool
  dm_popups :: "event list"
  dm_unplaced :: "64 word"
  dm_problems :: "problem list"
  dm_launching :: "string list"
  dm_starting :: "(string \<times> app list) list"
  dm_panicking :: "panic_hold option"
  dm_world :: 'w

type_synonym ('w, 'a) handler = "('w daemon, 'a) op"

text \<open>A question to the world.\<close>

definition ask :: "('w, 'a) op \<Rightarrow> ('w, 'a) handler" where
  "ask m = inside dm_world (\<lambda>w s. s\<lparr>dm_world := w\<rparr>) m"

text \<open>An operation of the journal, on the outcome the disk gives its write.\<close>

definition with_journal :: "'w outside \<Rightarrow> (outcome \<Rightarrow> journal \<Rightarrow> 'a \<times> journal) \<Rightarrow> ('w, 'a) handler" where
  "with_journal out f = do {
     how \<leftarrow> ask (ot_disk out);
     step_op (\<lambda>s. case f how (dm_jrn s) of (x, j) \<Rightarrow> (x, s\<lparr>dm_jrn := j\<rparr>))
   }"

definition journal_state :: "('w, Journal.state) handler" where
  "journal_state = look (\<lambda>s. State (dm_jrn s))"

definition journalled :: "('w, bool) handler" where "journalled = look dm_journalled"

section \<open>Manifests\<close>

definition rememberProblems :: "problem list \<Rightarrow> ('w, unit) handler" where
  "rememberProblems ps = change (\<lambda>s. s\<lparr>dm_problems := ps\<rparr>)"

definition manifestFor :: "'w outside \<Rightarrow> string \<Rightarrow> ('w, desk_manifest option) handler" where
  "manifestFor out target =
     attempt (ask (ot_desks out)) (\<lambda>_. None) (\<lambda>(all, problems). do {
       _ \<leftarrow> rememberProblems problems;
       give (map_of all target)
     })"

section \<open>Which desk this is\<close>

definition deskOf :: "'w outside \<Rightarrow> desk_map \<Rightarrow> string \<Rightarrow> ('w, string) handler" where
  "deskOf out m focused = do {
     jrn \<leftarrow> journalled;
     st \<leftarrow> journal_state;
     if focused \<noteq> [] then
       (case ParseName focused of
          Inl _ \<Rightarrow> give []
        | Inr n \<Rightarrow>
            if jrn \<and> st_OnDesk st \<noteq> desk n
            then do { _ \<leftarrow> with_journal out (\<lambda>how. SetOnDesk how (desk n)); give (desk n) }
            else give (desk n))
     else if \<not> jrn then give []
     else if st_OnDesk st = [] \<or> Desk_Map.Workspaces m (st_OnDesk st) = [] then give []
     else give (st_OnDesk st)
   }"

definition activeDesk :: "'w outside \<Rightarrow> desk_map \<Rightarrow> ('w, string) handler" where
  "activeDesk out m = do {
     r \<leftarrow> ask (FocusedName (ot_niri out));
     deskOf out m (case r of Inl _ \<Rightarrow> [] | Inr f \<Rightarrow> f)
   }"

definition whereWeAre :: "'w outside \<Rightarrow> ('w, string) handler" where
  "whereWeAre out = do {
     r \<leftarrow> ask (DeskMap (ot_niri out));
     case r of
       Inr m \<Rightarrow> activeDesk out m
     | Inl _ \<Rightarrow> do {
         f \<leftarrow> ask (FocusedName (ot_niri out));
         give (case f of
                 Inl _ \<Rightarrow> []
               | Inr focused \<Rightarrow> (case ParseName focused of Inl _ \<Rightarrow> [] | Inr n \<Rightarrow> desk n))
       }
   }"

section \<open>The mode\<close>

definition mode_of :: "'w daemon \<Rightarrow> string" where
  "mode_of s =
     (if \<not> dm_journalled s then Work
      else (case ParseMode (st_Mode (State (dm_jrn s))) of Inl _ \<Rightarrow> Work | Inr m \<Rightarrow> m))"

definition mode :: "('w, string) handler" where "mode = look mode_of"

section \<open>Where something appears\<close>

definition focused_output :: "'w outside \<Rightarrow> ('w, string) handler" where
  "focused_output out = do {
     r \<leftarrow> ask (FocusedPlace (ot_niri out));
     give (case r of Inl _ \<Rightarrow> [] | Inr (_, scr) \<Rightarrow> scr)
   }"

section \<open>What these leave alone\<close>

text \<open>
  An assertion that reads neither the world nor the journal nor the problems last seen is kept
  by everything above.
\<close>

lemma run_ask [simp]: "run (ask m) s = (case run m (dm_world s) of (x, w) \<Rightarrow> (x, s\<lparr>dm_world := w\<rparr>))"
  by (simp add: ask_def)

definition worldly :: "('w daemon \<Rightarrow> bool) \<Rightarrow> bool" where
  "worldly P \<longleftrightarrow> (\<forall>s w ps. P (s\<lparr>dm_world := w\<rparr>) = P s \<and> P (s\<lparr>dm_problems := ps\<rparr>) = P s)"

lemma keeps_ask: "worldly P \<Longrightarrow> preserves P (ask m)"
  by (simp add: ensures_def worldly_def split: prod.split)

lemma keeps_journalled [keeping]: "preserves P journalled" and keeps_journal_state [keeping]: "preserves P journal_state"
  and keeps_mode [keeping]: "preserves P mode"
  by (simp_all add: journalled_def journal_state_def mode_def keeps_look)

lemma keeps_with_journal:
  assumes "worldly P" "\<And>how s. P s \<Longrightarrow> P (s\<lparr>dm_jrn := snd (f how (dm_jrn s))\<rparr>)"
  shows "preserves P (with_journal out f)"
  unfolding with_journal_def
  using assms(2) by (intro keeping keeps_ask keeps_step assms(1)) (simp add: split_beta)

section \<open>A world that says nothing\<close>

text \<open>No niri, no desks, no surface; every write of the journal succeeds. For the witnesses.\<close>

definition silent :: "unit outside" where
  "silent = \<lparr>ot_unicode = ascii_unicode, ot_niri = \<lparr>nr_dial = give (Some ''no niri''), nr_exchange = (\<lambda>_. give (Inl ''no niri''))\<rparr>,
     ot_disk = give Written, ot_desks = give (Inr ([], [])), ot_save = (\<lambda>_. give (Inl ''no disk'')), ot_now = give 0,
     ot_surface = (\<lambda>_. give False), ot_holds = (\<lambda>_. give True), ot_rules = (\<lambda>_. give None),
     ot_tell = (\<lambda>_. give ()), ot_sound = False, ot_muted = give (Inl []), ot_mute = (\<lambda>_. give None), ot_decoy = give (Inr []),
     ot_ending = give False, ot_launch = (\<lambda>_. give None)\<rparr>"

definition started_at :: "'w \<Rightarrow> 'w daemon" where
  "started_at w = \<lparr>sv_mine = Map.empty, sv_by = (\<lambda>_. []), sv_bus = True, sv_out = [], dm_journalled = True,
     dm_jrn = fresh empty_file, dm_history = empty_history, dm_serving = True, dm_popups = [], dm_unplaced = 0,
     dm_problems = [], dm_launching = [], dm_starting = [], dm_panicking = None, dm_world = w\<rparr>"

abbreviation started :: "unit daemon" where "started \<equiv> started_at ()"

end
