(* ===== verification/Zded_Attn.thy ===== *)
theory Zded_Attn
  imports Zded
begin

text \<open>
  The daemon's half of attention (\<open>internal/zded/arrivals.go\<close>, \<open>attn.go\<close>, \<open>attn_popups.go\<close>,
  \<open>attn_surfaces.go\<close>, \<open>queue.go\<close>, \<open>dispatch_attention.go\<close>, the private half of
  \<open>history.go\<close>): what is done with a notification, the queue, the mode and the loan of it.
\<close>

section \<open>Arrivals\<close>

definition couldNotPlace :: "('w, unit) handler" where
  "couldNotPlace = change (\<lambda>s. s\<lparr>dm_unplaced := dm_unplaced s + 1\<rparr>)"

definition privateArrival :: "'w outside \<Rightarrow> string \<Rightarrow> ('w, bool) handler" where
  "privateArrival out deskName =
     (if deskName = Regulars then give False
      else attempt (ask (ot_desks out)) (\<lambda>_. True) (\<lambda>(all, problems). do {
        _ \<leftarrow> rememberProblems problems;
        if problems \<noteq> [] then give True
        else (case map_of all deskName of
            Some d \<Rightarrow> if deskName \<noteq> [] then give (ds_private d)
              else if list_ex (\<lambda>(_, d). ds_private d) all then do { _ \<leftarrow> couldNotPlace; give True }
              else give False
          | None \<Rightarrow>
              if list_ex (\<lambda>(_, d). ds_private d) all then do { _ \<leftarrow> couldNotPlace; give True }
              else give False)
      }))"

definition popupBacklog :: nat where "popupBacklog = 16"

text \<open>The channel holds so many, and what does not fit is dropped; the pump takes the oldest.\<close>

definition pop :: "event \<Rightarrow> ('w, unit) handler" where
  "pop ev = change (\<lambda>s. if length (dm_popups s) < popupBacklog then s\<lparr>dm_popups := dm_popups s @ [ev]\<rparr> else s)"

definition pump_one :: "('w, event option) handler" where
  "pump_one = step_op (\<lambda>s. case dm_popups s of [] \<Rightarrow> (None, s) | ev # evs \<Rightarrow> (Some ev, s\<lparr>dm_popups := evs\<rparr>))"

definition maybePop :: "'w outside \<Rightarrow> arrival \<Rightarrow> string \<Rightarrow> ('w, unit) handler" where
  "maybePop out rec m =
     (if \<not> Pops m (r_Urgent rec) then give ()
      else if r_Private rec then give ()
      else do {
        scr \<leftarrow> focused_output out;
        pop (no_event\<lparr>ev_Kind := EventAttnPopup, ev_Notifications := [rec], ev_Output := scr\<rparr>)
      })"

text \<open>
  What the history does with an arrival, and the ids it lets go of; \<open>None\<close> is a panic, which
  no history that can be reached makes.
\<close>

definition into_history :: "64 word \<Rightarrow> arrival \<Rightarrow> ('w, 64 word list option) handler" where
  "into_history old rec =
     step_op (\<lambda>s.
       case (if old \<noteq> 0 then Attn_History.Replace old rec (dm_history s) else Attn_History.Add rec (dm_history s)) of
         None \<Rightarrow> (None, s)
       | Some (gone, h) \<Rightarrow> (Some gone, s\<lparr>dm_history := h\<rparr>))"

definition forget_gone :: "64 word list \<Rightarrow> ('w, unit) handler" where
  "forget_gone gone = change (\<lambda>s. if dm_serving s then fold Forget gone s else s)"

definition record_of :: "notification \<Rightarrow> int \<Rightarrow> string \<Rightarrow> bool \<Rightarrow> arrival" where
  "record_of n now on hidden =
     \<lparr>r_ID = 0, r_From = n_From n, r_Self = n_Self n, r_Text = n_Text n, r_Body = n_Body n,
      r_Urgent = n_Urgent n, r_At = now, r_Desk = on, r_Queued = False, r_Dismissed = False,
      r_Actions = n_Actions n, r_Extra = n_Extra n, r_Restored = False, r_Clipped = False, r_Private = hidden\<rparr>"

text \<open>
  The queue's half of an arrival: the record with the queue's id, or as it was when the mode
  or the queue keeps it out, or the error of a write.
\<close>

definition offer_queue :: "'w outside \<Rightarrow> string \<Rightarrow> arrival \<Rightarrow> ('w, journal_error + arrival) handler" where
  "offer_queue out m rec =
     (if Queues m (r_Urgent rec) then do {
        r \<leftarrow> with_journal out (\<lambda>how. Journal.Queue how
               \<lparr>it_ID = 0, it_Text = r_Text rec, it_Desk = r_Desk rec, it_From = r_From rec,
                it_Self = r_Self rec, it_Urgent = r_Urgent rec\<rparr>);
        give (case r of
                Inr it \<Rightarrow> Inr (rec\<lparr>r_ID := it_ID it, r_Queued := True\<rparr>)
              | Inl ErrQueueFull \<Rightarrow> Inr rec
              | Inl SenderShare \<Rightarrow> Inr rec
              | Inl SendersShare \<Rightarrow> Inr rec
              | Inl e \<Rightarrow> Inl e)
      }
      else give (Inr rec))"

definition claim_id :: "'w outside \<Rightarrow> arrival \<Rightarrow> ('w, journal_error + arrival) handler" where
  "claim_id out rec =
     (if r_Queued rec then give (Inr rec)
      else do {
        r \<leftarrow> with_journal out (\<lambda>how. ClaimID how);
        give (case r of None \<Rightarrow> Inl journal_error.WriteFailed | Some i \<Rightarrow> Inr (rec\<lparr>r_ID := i\<rparr>))
      })"

definition Arrived_op :: "'w outside \<Rightarrow> notification \<Rightarrow> ('w, 64 word option) handler" where
  "Arrived_op out n = do {
     jrn \<leftarrow> journalled;
     if \<not> jrn then give None
     else do {
       on \<leftarrow> whereWeAre out;
       now \<leftarrow> ask (ot_now out);
       hidden \<leftarrow> privateArrival out on;
       m \<leftarrow> mode;
       attempt (offer_queue out m (record_of n now on hidden)) (\<lambda>_. None) (\<lambda>rec.
       attempt (claim_id out rec) (\<lambda>_. None) (\<lambda>rec. do {
         gone \<leftarrow> into_history (n_Replaces n) rec;
         case gone of
           None \<Rightarrow> give None
         | Some ids \<Rightarrow> do {
             _ \<leftarrow> forget_gone ids;
             _ \<leftarrow> maybePop out rec m;
             give (Some (r_ID rec))
           }
       }))
     }
   }"

definition dismiss_in_history :: "64 word \<Rightarrow> ('w, unit) handler" where
  "dismiss_in_history i = change (\<lambda>s. s\<lparr>dm_history := snd (Attn_History.Dismiss i (dm_history s))\<rparr>)"

definition Closed_op :: "'w outside \<Rightarrow> 64 word \<Rightarrow> ('w, bool) handler" where
  "Closed_op out i = do {
     _ \<leftarrow> dismiss_in_history i;
     jrn \<leftarrow> journalled;
     if \<not> jrn then give True else with_journal out (\<lambda>how. Done how i)
   }"

text \<open>The two, in the shape the notification server calls them in.\<close>

definition Arrived :: "'w outside \<Rightarrow> notification \<Rightarrow> 'w daemon \<Rightarrow> 64 word option \<times> 'w daemon" where
  "Arrived out n s = run (Arrived_op out n) s"

definition Closed :: "'w outside \<Rightarrow> 64 word \<Rightarrow> 'w daemon \<Rightarrow> bool \<times> 'w daemon" where
  "Closed out i s = run (Closed_op out i) s"

text \<open>\<open>Watching\<close>, and the notifier's side of a dismissal.\<close>

definition Watching :: "('w, unit) handler" where
  "Watching = change (\<lambda>s. s\<lparr>dm_serving := True\<rparr>)"

definition tell_dismissed :: "64 word \<Rightarrow> ('w, unit) handler" where
  "tell_dismissed i = change (\<lambda>s. if dm_serving s then Dismissed i s else s)"

section \<open>The mode and its loan\<close>

definition setMode :: "'w outside \<Rightarrow> string \<Rightarrow> ('w, response) handler" where
  "setMode out name =
     (if name = [] then give (refuse No_mode_given)
      else (case ParseMode name of
         Inl e \<Rightarrow> give (refuse (Bad_mode e))
       | Inr m \<Rightarrow> do {
           jrn \<leftarrow> journalled;
           if \<not> jrn then give (refuse No_journal)
           else do {
             written \<leftarrow> with_journal out (\<lambda>how. SetMode how m);
             if \<not> written then give (refuse Not_written)
             else do {
               st \<leftarrow> journal_state;
               if b_Desk (st_Borrowed st) \<noteq> [] then do {
                 cleared \<leftarrow> with_journal out (\<lambda>how. SetBorrowed how \<lparr>b_Desk = [], b_Mode = []\<rparr>);
                 if cleared then give (ok (Mode_is m)) else give (refuse Not_written)
               }
               else give (ok (Mode_is m))
             }
           }
         }))"

definition toggleQuiet :: "'w outside \<Rightarrow> ('w, response) handler" where
  "toggleQuiet out = do { m \<leftarrow> mode; if m = Quiet then setMode out Work else setMode out Quiet }"

definition declaredMode :: "'w outside \<Rightarrow> string \<Rightarrow> ('w, string option) handler" where
  "declaredMode out target = do {
     d \<leftarrow> manifestFor out target;
     give (case d of
             None \<Rightarrow> None
           | Some d \<Rightarrow> if pl_attn (ds_policies d) = [] then None
               else (case ParseMode (pl_attn (ds_policies d)) of Inl _ \<Rightarrow> None | Inr m \<Rightarrow> Some m))
   }"

text \<open>
  What entering a desk does to the mode and the loan, as a function: \<open>was\<close> is the mode,
  \<open>loan\<close> what is lent, \<open>declared\<close> the mode the desk asks for. A lent mode that cannot be read is work.
\<close>

definition lend :: "string \<Rightarrow> string option \<Rightarrow> string \<Rightarrow> borrowed \<Rightarrow> string \<times> borrowed" where
  "lend target declared was loan =
     (let (now, loan) =
        (if b_Desk loan \<noteq> [] \<and> b_Desk loan \<noteq> target
         then ((case ParseMode (b_Mode loan) of Inl _ \<Rightarrow> Work | Inr m \<Rightarrow> m), \<lparr>b_Desk = [], b_Mode = []\<rparr>)
         else (was, loan))
      in case declared of
           None \<Rightarrow> (now, loan)
         | Some m \<Rightarrow> (m, if b_Desk loan \<noteq> target then \<lparr>b_Desk = target, b_Mode = now\<rparr> else loan))"

definition enterDesk :: "'w outside \<Rightarrow> string \<Rightarrow> ('w, unit) handler" where
  "enterDesk out target = do {
     jrn \<leftarrow> journalled;
     if \<not> jrn then give ()
     else do {
       was \<leftarrow> mode;
       st \<leftarrow> journal_state;
       declared \<leftarrow> declaredMode out target;
       let (now, loan) = lend target declared was (st_Borrowed st);
       _ \<leftarrow> (if loan \<noteq> st_Borrowed st then with_journal out (\<lambda>how. SetBorrowed how loan) else give True);
       _ \<leftarrow> (if now \<noteq> was then with_journal out (\<lambda>how. SetMode how now) else give True);
       give ()
     }
   }"

section \<open>The queue\<close>

definition queueTextMax :: nat where "queueTextMax = 300"

definition checkQueueText :: "unicode \<Rightarrow> string \<Rightarrow> complaint option" where
  "checkQueueText u tx =
     (if \<not> Draws u tx then Some Nothing_to_wait_for
      else if length (runes_of tx) > queueTextMax then Some (Too_long (length (runes_of tx)))
      else if \<not> list_all (is_print u) (runes_of tx) then Some Not_one_line
      else None)"

definition queueAdd :: "'w outside \<Rightarrow> string \<Rightarrow> ('w, response) handler" where
  "queueAdd out given = do {
     jrn \<leftarrow> journalled;
     if \<not> jrn then give (refuse No_journal)
     else (let tx = TrimSpace given in case checkQueueText (ot_unicode out) tx of
        Some e \<Rightarrow> give (refuse e)
      | None \<Rightarrow> do {
          on \<leftarrow> whereWeAre out;
          r \<leftarrow> with_journal out (\<lambda>how. Journal.Queue how
                 \<lparr>it_ID = 0, it_Text = tx, it_Desk = on, it_From = [], it_Self = False, it_Urgent = False\<rparr>);
          give (case r of Inl e \<Rightarrow> refuse (From_journal e) | Inr it \<Rightarrow> ok (Item_waits it))
        })
   }"

definition settle :: "64 word \<Rightarrow> ('w, unit) handler" where
  "settle i = do { _ \<leftarrow> dismiss_in_history i; tell_dismissed i }"

definition queueDone :: "'w outside \<Rightarrow> string \<Rightarrow> ('w, response) handler" where
  "queueDone out asked = do {
     jrn \<leftarrow> journalled;
     if \<not> jrn then give (refuse No_journal)
     else (case parse_uint asked of
        None \<Rightarrow> give (refuse (Not_an_id asked))
      | Some n \<Rightarrow> do {
          written \<leftarrow> with_journal out (\<lambda>how. Done how n);
          if \<not> written then give (refuse Not_written)
          else do { _ \<leftarrow> settle n; give (ok Done_with) }
        })
   }"

definition queueClear :: "'w outside \<Rightarrow> ('w, response) handler" where
  "queueClear out = do {
     jrn \<leftarrow> journalled;
     if \<not> jrn then give (refuse No_journal)
     else do {
       waiting \<leftarrow> look (\<lambda>s. Waiting (dm_jrn s));
       r \<leftarrow> with_journal out Journal.Clear;
       (case r of
          None \<Rightarrow> give (refuse Not_written)
        | Some n \<Rightarrow> do { _ \<leftarrow> every (\<lambda>it. settle (it_ID it)) waiting; give (ok (Count_is n)) })
     }
   }"

section \<open>The notification centre\<close>

definition center :: "'w outside \<Rightarrow> ('w, response) handler" where
  "center out = do {
     seen \<leftarrow> look (\<lambda>s. Recent (dm_history s));
     scr \<leftarrow> focused_output out;
     shown \<leftarrow> ask (ot_surface out (no_event\<lparr>ev_Kind := EventCenter, ev_Notifications := seen, ev_Output := scr\<rparr>));
     give (ok (Center_is shown seen))
   }"

definition reach :: "'w outside \<Rightarrow> ('w, response) handler" where
  "reach out = do {
     scr \<leftarrow> focused_output out;
     shown \<leftarrow> ask (ot_surface out (no_event\<lparr>ev_Kind := EventAttnReach, ev_Output := scr\<rparr>));
     give (ok (Reach_is shown))
   }"

text \<open>The bus says whether the name still has an owner, and \<open>Invoke\<close> asks it only when there is a bus and a name.\<close>

definition press :: "'w outside \<Rightarrow> 64 word \<Rightarrow> string \<Rightarrow> ('w, invoke_error option) handler" where
  "press out i key = do {
     asked \<leftarrow> look (\<lambda>s. if sv_bus s then senderOf i s else None);
     there \<leftarrow> (case asked of None \<Rightarrow> give True | Some who \<Rightarrow> ask (ot_holds out who));
     step_op (Invoke (\<lambda>_. there) i key)
   }"

definition invoke :: "'w outside \<Rightarrow> string \<Rightarrow> string \<Rightarrow> ('w, response) handler" where
  "invoke out asked key =
     (case parse_uint asked of
        None \<Rightarrow> give (refuse (Not_an_id asked))
      | Some n \<Rightarrow> do {
          found \<leftarrow> look (\<lambda>s. Find n (dm_history s));
          (case found of
             None \<Rightarrow> give (refuse (Not_in_history asked))
           | Some rec \<Rightarrow>
               if r_Restored rec then give (refuse (From_before (r_Text rec)))
               else if r_Actions rec = [] then give (refuse (No_actions (r_Text rec)))
               else if \<not> Allows rec key then give (refuse (Never_offered (r_Text rec) key))
               else do {
                 serving \<leftarrow> look dm_serving;
                 if \<not> serving then give (refuse Not_serving)
                 else do {
                   r \<leftarrow> press out n key;
                   give (case r of Some e \<Rightarrow> refuse (Invoke_failed e) | None \<Rightarrow> ok Done_with)
                 }
               })
        })"

text \<open>
  The requests about attention. \<open>queue.jump\<close> switches desks and is not one of them: the source
  takes it up where the desks are.
\<close>

definition dispatchAttention ::
  "'w outside \<Rightarrow> string \<Rightarrow> string list \<Rightarrow> ('w, response) handler" where
  "dispatchAttention out method args =
     (if method = ''queue.add'' then (case args of [tx] \<Rightarrow> queueAdd out tx | _ \<Rightarrow> give (refuse (Takes_other_arguments method)))
      else if method = ''queue.list'' then
        (if args \<noteq> [] then give (refuse (Takes_other_arguments method))
         else do {
           jrn \<leftarrow> journalled;
           q \<leftarrow> look (\<lambda>s. Waiting (dm_jrn s));
           give (if jrn then ok (Queue_is q) else refuse No_journal)
         })
      else if method = ''queue.done'' then (case args of [i] \<Rightarrow> queueDone out i | _ \<Rightarrow> give (refuse (Takes_other_arguments method)))
      else if method = ''queue.clear'' then (if args \<noteq> [] then give (refuse (Takes_other_arguments method)) else queueClear out)
      else if method = ''attn.mode'' then
        (case args of
           [] \<Rightarrow> do { m \<leftarrow> mode; give (ok (Mode_is m)) }
         | [m] \<Rightarrow> setMode out m
         | _ \<Rightarrow> give (refuse (Takes_other_arguments method)))
      else if method = ''attn.quiet'' then (if args \<noteq> [] then give (refuse (Takes_other_arguments method)) else toggleQuiet out)
      else if method = ''attn.center'' then (if args \<noteq> [] then give (refuse (Takes_other_arguments method)) else center out)
      else if method = ''attn.reach'' then (if args \<noteq> [] then give (refuse (Takes_other_arguments method)) else reach out)
      else if method = ''attn.invoke'' then
        (case args of [i, key] \<Rightarrow> invoke out i key | _ \<Rightarrow> give (refuse (Takes_other_arguments method)))
      else give (refuse (Unknown_method method)))"

end
