(* ===== verification/Zded_Rules.thy ===== *)
theory Zded_Rules
  imports Zded Plainfile
begin

text \<open>
  niri's generated config (\<open>internal/zded/rules.go\<close>, \<open>zenLayout\<close> of \<open>zen.go\<close>): what the manifests and
  zen make of it, the two quotings a value goes through, and the writing of the file. KDL's
  strings and the literal part of a regular expression are written down as readers, from the
  grammar the source's comment gives, to say what the quotings are for.
\<close>

section \<open>The text\<close>

definition nl :: string where "nl = [char_of (10 :: nat)]"

definition rulesHeader :: string where
  "rulesHeader = ''// Written by zded. Do not edit: it is rewritten from the desk manifests'' @ nl
     @ ''// (~/.config/zde/desks) and from whether zen is on (`zde desk zen`).'' @ nl"

definition zenLayout :: "bool \<Rightarrow> string" where
  "zenLayout on =
     (if \<not> on then []
      else nl @ ''layout {'' @ nl @ ''    gaps 0'' @ nl @ ''    focus-ring {'' @ nl @ ''        off'' @ nl @ ''    }'' @ nl
        @ ''    border {'' @ nl @ ''        off'' @ nl @ ''    }'' @ nl @ ''}'' @ nl)"

text \<open>\<open>regexp.QuoteMeta\<close>: a backslash before each byte that means something in a regular expression.\<close>

definition metas :: string where "metas = [CHR 0x5C] @ ''.+*?()|[]{}^$''"

definition QuoteMeta :: "string \<Rightarrow> string" where
  "QuoteMeta s = concat (map (\<lambda>ch. if ch \<in> set metas then [CHR 0x5C, ch] else [ch]) s)"

text \<open>\<open>%x\<close>, and what one rune becomes inside a KDL string.\<close>

definition hex_digit :: "nat \<Rightarrow> rune" where
  "hex_digit d = (if d < 10 then 48 + d else 87 + d)"

definition hex_rune :: "rune \<Rightarrow> rune list" where
  "hex_rune r = (if r < 16 then [hex_digit r] else [hex_digit (r div 16), hex_digit (r mod 16)])"

definition backslash :: rune where "backslash = 92"
definition quote_mark :: rune where "quote_mark = 34"

definition kdl_rune :: "rune \<Rightarrow> rune list" where
  "kdl_rune r =
     (if r = 92 then [92, 92]
      else if r = 34 then [92, 34]
      else if r = 10 then [92, 110]
      else if r = 13 then [92, 114]
      else if r = 9 then [92, 116]
      else if r = 8 then [92, 98]
      else if r = 12 then [92, 102]
      else if r < 0x20 \<or> r = 0x7F then [92, 117, 123] @ hex_rune r @ [125]
      else [r])"

definition kdlString :: "string \<Rightarrow> string" where
  "kdlString s = string_of_runes ([quote_mark] @ concat (map kdl_rune (runes_of s)) @ [quote_mark])"

definition sortedNames :: "(string \<times> desk_manifest) list \<Rightarrow> string list" where
  "sortedNames ms = sort_strings (map fst ms)"

definition window_rule :: "app \<Rightarrow> name \<Rightarrow> string" where
  "window_rule a n =
     nl @ ''window-rule {'' @ nl
     @ ''    match app-id='' @ kdlString (''^'' @ QuoteMeta (ap_app_id a) @ ''$'') @ nl
     @ ''    open-on-output '' @ kdlString (ap_monitor a) @ nl
     @ ''    open-on-workspace '' @ kdlString (String n) @ nl
     @ ''}'' @ nl"

definition app_rule :: "string \<Rightarrow> app \<Rightarrow> string" where
  "app_rule name a =
     (if ap_app_id a = [] \<or> ap_monitor a = [] \<or> ap_workspace a = [] then []
      else (case NewName name (ap_monitor a) (ap_workspace a) of Inl _ \<Rightarrow> [] | Inr n \<Rightarrow> window_rule a n))"

definition placementRules :: "(string \<times> desk_manifest) list \<Rightarrow> string" where
  "placementRules ms =
     concat (map (\<lambda>name. case map_of ms name of
                           None \<Rightarrow> []
                         | Some d \<Rightarrow> concat (map (app_rule name) (ds_apps d)))
       (sortedNames ms))"

definition dynamicKDL :: "bool \<Rightarrow> (string \<times> desk_manifest) list \<Rightarrow> string" where
  "dynamicKDL zen ms = rulesHeader @ zenLayout zen @ placementRules ms"

section \<open>The file\<close>

text \<open>
  \<open>writeRules\<close> with the kernel's answer to each call: \<open>old\<close> is what \<open>plainfile.Read\<close> said of the path.
  The temporary file is removed on every path, so only the rename leaves anything; the two
  modes set are no part of the contents.
\<close>

definition writeRules ::
  "outcomes \<Rightarrow> 'e + string \<Rightarrow> string \<Rightarrow> string \<Rightarrow> (string \<rightharpoonup> string) \<Rightarrow> os_error option \<times> (string \<rightharpoonup> string)" where
  "writeRules oc old path content fs =
     (if path = [] then (None, fs)
      else if old = Inr content then (oc_chmod oc, fs)
      else
     (case oc_mkdir oc of Some e \<Rightarrow> (Some e, fs) | None \<Rightarrow>
     (case oc_create oc of Some e \<Rightarrow> (Some e, fs) | None \<Rightarrow>
     (case oc_write oc of Some e \<Rightarrow> (Some e, fs) | None \<Rightarrow>
     (case oc_sync oc of Some e \<Rightarrow> (Some e, fs) | None \<Rightarrow>
     (case oc_close oc of Some e \<Rightarrow> (Some e, fs) | None \<Rightarrow>
     (case oc_mode oc of Some e \<Rightarrow> (Some e, fs) | None \<Rightarrow>
     (case oc_link oc of Some e \<Rightarrow> (Some e, fs) | None \<Rightarrow> (None, fs(path \<mapsto> content))))))))))"

section \<open>Reading it back\<close>

text \<open>A quoted string of KDL 1.0 from the front of a text: what it says, and what follows it.\<close>

definition hex_val :: "rune \<Rightarrow> nat option" where
  "hex_val d = (if 48 \<le> d \<and> d \<le> 57 then Some (d - 48) else if 97 \<le> d \<and> d \<le> 102 then Some (d - 87)
     else if 65 \<le> d \<and> d \<le> 70 then Some (d - 55) else None)"

fun hex_read :: "nat \<Rightarrow> rune list \<Rightarrow> (rune \<times> rune list) option" where
  "hex_read acc [] = None"
| "hex_read acc (r # rs) =
     (if r = 125 then Some (acc, rs)
      else case hex_val r of None \<Rightarrow> None | Some d \<Rightarrow> hex_read (acc * 16 + d) rs)"

lemma hex_read_length: "hex_read acc rs = Some (r, rest) \<Longrightarrow> length rest < length rs"
  by (induction acc rs rule: hex_read.induct) (force split: if_splits option.splits)+

definition plain_escape :: "rune \<Rightarrow> rune option" where
  "plain_escape e =
     (if e = 34 \<or> e = 47 \<or> e = 92 then Some e else if e = 98 then Some 8 else if e = 102 then Some 12
      else if e = 110 then Some 10 else if e = 114 then Some 13 else if e = 116 then Some 9 else None)"

function kdl_body :: "rune list \<Rightarrow> (rune list \<times> rune list) option" where
  "kdl_body [] = None"
| "kdl_body (r # rs) =
     (if r = 34 then Some ([], rs)
      else if r = 92 then
        (case rs of
           [] \<Rightarrow> None
         | e # rs1 \<Rightarrow>
             if e = 117 then
               (case rs1 of
                  [] \<Rightarrow> None
                | b # rs2 \<Rightarrow>
                    if b \<noteq> 123 then None
                    else (case hex_read 0 rs2 of
                            None \<Rightarrow> None
                          | Some (h, rs3) \<Rightarrow> map_option (apfst (Cons h)) (kdl_body rs3)))
             else (case plain_escape e of None \<Rightarrow> None | Some p \<Rightarrow> map_option (apfst (Cons p)) (kdl_body rs1)))
      else map_option (apfst (Cons r)) (kdl_body rs))"
  by pat_completeness auto
termination by (relation "measure length") (auto dest: hex_read_length)

definition kdl_read :: "rune list \<Rightarrow> (rune list \<times> rune list) option" where
  "kdl_read rs = (case rs of [] \<Rightarrow> None | r # rs \<Rightarrow> if r = 34 then kdl_body rs else None)"

lemma hex_digit_bounds: "d < 16 \<Longrightarrow> 48 \<le> hex_digit d \<and> hex_digit d \<le> 102"
  by (simp add: hex_digit_def)

lemma hex_val_digit: "d < 16 \<Longrightarrow> hex_val (hex_digit d) = Some d"
  by (simp add: hex_val_def hex_digit_def)

lemma hex_digit_brace: "d < 16 \<Longrightarrow> hex_digit d \<noteq> 125"
  by (simp add: hex_digit_def)

lemma hex_rune_reads: 
  assumes "r < 128"
  shows "hex_read 0 (hex_rune r @ 125 # rest) = Some (r, rest)"
proof (cases "r < 16")
  case True
  then show ?thesis by (simp add: hex_rune_def hex_val_digit hex_digit_brace)
next
  case False
  have "r div 16 < 16" using assms by simp
  then show ?thesis using False by (simp add: hex_rune_def hex_val_digit hex_digit_brace)
qed

lemma hex_rune_bounds: "r < 128 \<Longrightarrow> x \<in> set (hex_rune r) \<Longrightarrow> 48 \<le> x \<and> x \<le> 102"
  using hex_digit_bounds[of r] hex_digit_bounds[of "r div 16"] hex_digit_bounds[of "r mod 16"]
  by (auto simp: hex_rune_def split: if_splits)

lemma kdl_body_rune: "kdl_body (kdl_rune r @ rest) = map_option (apfst (Cons r)) (kdl_body rest)"
proof (cases "r = 92 \<or> r = 34 \<or> r = 10 \<or> r = 13 \<or> r = 9 \<or> r = 8 \<or> r = 12 \<or> \<not> (r < 0x20 \<or> r = 0x7F)")
  case True
  then show ?thesis by (auto simp: kdl_rune_def plain_escape_def)
next
  case False
  then have "hex_read 0 (hex_rune r @ 125 # rest) = Some (r, rest)" by (intro hex_rune_reads) auto
  then show ?thesis using False by (simp add: kdl_rune_def)
qed

lemma kdl_body_runes: "kdl_body (concat (map kdl_rune rs) @ quote_mark # rest) = Some (rs, rest)"
  by (induction rs) (simp_all add: kdl_body_rune quote_mark_def)

text \<open>A regular expression that is a literal, read.\<close>

fun literal :: "string \<Rightarrow> string option" where
  "literal [] = Some []"
| "literal (ch # s) =
     (if ch = CHR 0x5C then (case s of [] \<Rightarrow> None | m # s \<Rightarrow> if m \<in> set metas then map_option (Cons m) (literal s) else None)
      else if ch \<in> set metas then None else map_option (Cons ch) (literal s))"

lemma literal_QuoteMeta: "literal (QuoteMeta s) = Some s"
  by (induction s) (auto simp: QuoteMeta_def metas_def)


text \<open>C40: a value written with \<open>kdlString\<close> is read back by KDL's grammar as the same value, whatever bytes it
  was made of and whatever follows it: it cannot end its string early, cannot be refused as a bad escape,
  and cannot start a line of its own.\<close>

theorem kdlString_reads_back:
  "kdl_read (runes_of (kdlString s) @ rest) = Some (runes_of s, rest)
   \<and> list_all (\<lambda>r. 0x20 \<le> r \<and> r \<noteq> 0x7F) (runes_of (kdlString s))"
proof -
  have safe: "list_all (\<lambda>r. 0x20 \<le> r \<and> r \<noteq> 0x7F) (kdl_rune r)" for r
    using hex_rune_bounds[of r] by (fastforce simp: kdl_rune_def list_all_iff)
  have "list_all valid_rune (kdl_rune r)" if "valid_rune r" for r
    using that hex_rune_bounds[of r] by (fastforce simp: kdl_rune_def valid_rune_def list_all_iff)
  then have "list_all valid_rune ([quote_mark] @ concat (map kdl_rune (runes_of s)) @ [quote_mark])"
    using runes_of_valid[of s] by (auto simp: list_all_iff quote_mark_def valid_rune_def)
  then have rs: "runes_of (kdlString s) = [quote_mark] @ concat (map kdl_rune (runes_of s)) @ [quote_mark]"
    by (simp add: kdlString_def)
  show ?thesis unfolding rs
    using kdl_body_runes[of "runes_of s" rest] safe by (auto simp: kdl_read_def quote_mark_def list_all_iff)
qed


section \<open>What the rules say\<close>

definition pin_of :: "desk_manifest \<Rightarrow> app \<Rightarrow> name" where
  "pin_of d a = \<lparr>desk = ds_name d, monitor = ap_monitor a, slot = ap_workspace a\<rparr>"

lemma pin_named:
  assumes "manifest_ok d" and "a \<in> set (ds_apps d)" and "ap_monitor a \<noteq> []"
  shows "ap_workspace a \<noteq> []" and "NewName (ds_name d) (ap_monitor a) (ap_workspace a) = Inr (pin_of d a)"
    and "\<exists>b. (ap_monitor a, b) \<in> set (ds_monitors d) \<and> ap_workspace a \<in> set (mb_workspaces b)"
proof -
  obtain b where b: "map_of (ds_monitors d) (ap_monitor a) = Some b" "ap_workspace a \<in> set (mb_workspaces b)"
    using assms by (auto simp: manifest_ok_def app_ok_def pin_ok_def)
  note m = map_of_SomeD[OF b(1)]
  then have v: "valid_name (pin_of d a)" using assms(1) b(2) by (fastforce simp: manifest_ok_def block_ok_def pin_of_def)
  then show "NewName (ds_name d) (ap_monitor a) (ap_workspace a) = Inr (pin_of d a)" by (simp add: NewName_Inr_eq pin_of_def)
  show "ap_workspace a \<noteq> []" using v by (auto simp: valid_name_def pin_of_def valid_slot_def)
  show "\<exists>b. (ap_monitor a, b) \<in> set (ds_monitors d) \<and> ap_workspace a \<in> set (mb_workspaces b)" using m b(2) by blast
qed

lemma concat_part: "x \<in> set xs \<Longrightarrow> \<exists>before after. concat (map f xs) = before @ f x @ after"
proof -
  assume "x \<in> set xs"
  then obtain ys zs where "xs = ys @ x # zs" by (auto dest: split_list)
  then have "concat (map f xs) = concat (map f ys) @ f x @ concat (map f zs)" by simp
  then show ?thesis by blast
qed

definition web_app :: app where
  "web_app = \<lparr>ap_app = ''firefox'', ap_instance = [], ap_app_id = ''org.mozilla.firefox'', ap_mounts = [],
     ap_monitor = ''DP-1'', ap_workspace = ''main'', ap_background = []\<rparr>"

definition web_desk :: desk_manifest where
  "web_desk = \<lparr>ds_name = ''web'', ds_private = False, ds_monitors = [(''DP-1'', \<lparr>mb_workspaces = [''main'']\<rparr>)],
     ds_apps = [web_app], ds_policies = \<lparr>pl_attn = [], pl_zen = False\<rparr>, ds_on_enter = [], ds_on_exit = []\<rparr>"

text \<open>A pinned app gets its window. For every app a checked manifest gives an app id and a place, the
  generated config holds the rule that names that app id exactly (anchored at both ends, every
  special byte quoted), the screen, and a workspace of that desk which the manifest itself
  declares on that screen.\<close>

theorem every_pin_has_its_rule:
  assumes "distinct (map fst ms)" and "(name, d) \<in> set ms" and "ds_name d = name" and "check d = None"
    and "a \<in> set (ds_apps d)" and "ap_app_id a \<noteq> []" and "ap_monitor a \<noteq> []"
  shows "(\<exists>before after. dynamicKDL zen ms = before @ window_rule a (pin_of d a) @ after)
    \<and> (\<exists>b. (ap_monitor a, b) \<in> set (ds_monitors d) \<and> ap_workspace a \<in> set (mb_workspaces b))
    \<and> literal (QuoteMeta (ap_app_id a)) = Some (ap_app_id a)"
proof -
  have ok: "manifest_ok d" using assms(4) check_iff by blast
  note p = pin_named[OF ok assms(5,7)]
  have rule: "app_rule name a = window_rule a (pin_of d a)"
    using p(1,2) assms(3,6,7) by (simp add: app_rule_def)
  have d: "map_of ms name = Some d" using assms(1,2) by simp
  have "name \<in> set (sortedNames ms)" using assms(2) by (force simp: sortedNames_def)
  then obtain b1 a1 where 1: "placementRules ms = b1 @ concat (map (app_rule name) (ds_apps d)) @ a1"
    unfolding placementRules_def
    using concat_part[of name "sortedNames ms" "\<lambda>name. case map_of ms name of None \<Rightarrow> []
        | Some d \<Rightarrow> concat (map (app_rule name) (ds_apps d))"] d by auto
  obtain b2 a2 where "concat (map (app_rule name) (ds_apps d)) = b2 @ app_rule name a @ a2"
    using concat_part[OF assms(5)] by blast
  then have "dynamicKDL zen ms = (rulesHeader @ zenLayout zen @ b1 @ b2) @ window_rule a (pin_of d a) @ (a2 @ a1)"
    using 1 rule by (simp add: dynamicKDL_def)
  then show ?thesis using p(3) literal_QuoteMeta by blast
qed

lemma every_pin_has_its_rule_witness:
  "\<exists>before after. dynamicKDL False [(''web'', web_desk)] = before @ window_rule web_app (pin_of web_desk web_app) @ after"
proof -
  have "check web_desk = None" by code_simp
  moreover have "ap_app_id web_app \<noteq> []" "ap_monitor web_app \<noteq> []" "web_app \<in> set (ds_apps web_desk)" "ds_name web_desk = ''web''"
    by (simp_all add: web_app_def web_desk_def)
  ultimately show ?thesis
    using every_pin_has_its_rule [of "[(''web'', web_desk)]" "''web''" web_desk web_app False] by simp
qed

text \<open>The config depends on what the manifests say and not on the order they were read in, so
  that writing it twice from the same manifests writes the same bytes; and a write either
  leaves the disk as it was or leaves exactly that config at the path.\<close>

theorem rules_are_stable:
  assumes "distinct (map fst ms)" and "distinct (map fst ms')" and "map_of ms = map_of ms'"
    and "writeRules oc old path (dynamicKDL zen ms') fs = (e, fs')"
  shows "dynamicKDL zen ms = dynamicKDL zen ms' \<and> (fs' = fs \<or> fs' = fs(path \<mapsto> dynamicKDL zen ms))
    \<and> (e = None \<longrightarrow> path = [] \<or> old = Inr (dynamicKDL zen ms) \<or> fs' path = Some (dynamicKDL zen ms))"
proof -
  have "set (map fst ms) = set (map fst ms')" using assms(3) by (metis dom_map_of_conv_image_fst list.set_map)
  then have "mset (map fst ms) = mset (map fst ms')" using assms(1,2) set_eq_iff_mset_eq_distinct by blast
  then have "sortedNames ms = sortedNames ms'" unfolding sortedNames_def by (rule sort_strings_cong)
  then have same: "dynamicKDL zen ms = dynamicKDL zen ms'" by (simp add: dynamicKDL_def placementRules_def assms(3))
  show ?thesis
    using assms(4) unfolding same by (auto simp: writeRules_def split: if_splits option.splits)
qed

lemma rules_are_stable_witness:
  "dynamicKDL True [(''web'', web_desk), (''mail'', web_desk)] = dynamicKDL True [(''mail'', web_desk), (''web'', web_desk)]"
proof -
  let ?ms = "[(''web'', web_desk), (''mail'', web_desk)]" and ?ms' = "[(''mail'', web_desk), (''web'', web_desk)]"
  have "map_of ?ms = map_of ?ms'" by auto
  then show ?thesis
    using rules_are_stable [of ?ms ?ms' _ "Inl ()" "[]" True Map.empty] by (simp add: writeRules_def)
qed

end
