(* ===== verification/Zded_Desk.thy ===== *)
theory Zded_Desk
  imports Zded_Attn Zded_Rules Desk_Plan Desk_Adopt
begin

text \<open>
  The daemon's half of desks (\<open>internal/zded/desk_*.go\<close>, \<open>jump.go\<close>, \<open>zen.go\<close>, \<open>queueJump\<close> of
  \<open>queue.go\<close>): switching and what a switch makes and remembers, reconciling, carrying a window or
  a workspace, moving inside a band, and the pickers.
\<close>

section \<open>Manifests made real\<close>

definition noted :: "'w outside \<Rightarrow> (outcome \<Rightarrow> journal \<Rightarrow> 'a \<times> journal) \<Rightarrow> ('w, unit) handler" where
  "noted out f = do {
     jrn \<leftarrow> journalled;
     if jrn then do { _ \<leftarrow> with_journal out f; give () } else give ()
   }"

definition zenState :: "('w, bool) handler" where
  "zenState = look (\<lambda>s. dm_journalled s \<and> st_Zen (State (dm_jrn s)))"

definition SyncRules :: "'w outside \<Rightarrow> ('w, unit) handler" where
  "SyncRules out =
     attempt (ask (ot_desks out)) (\<lambda>_. ()) (\<lambda>(all, _). do {
       on \<leftarrow> zenState;
       _ \<leftarrow> ask (ot_rules out (dynamicKDL on all));
       give ()
     })"

text \<open>As many rounds as there are declared names, each from a map niri has just answered with.\<close>

fun ensure_loop :: "'w outside \<Rightarrow> name list \<Rightarrow> name list \<Rightarrow> name list \<Rightarrow> ('w, complaint + name list) handler" where
  "ensure_loop out want [] waiting = give (Inr waiting)"
| "ensure_loop out want (_ # rounds) waiting =
     attempt (ask (DeskMap (ot_niri out))) (\<lambda>e. Inl (From_niri e)) (\<lambda>m.
     attempt (ask (EmptyByOutput (ot_niri out))) (\<lambda>e. Inl (From_niri e)) (\<lambda>empty.
       case MissingPlan m want empty of
         ([], nowhere) \<Rightarrow> give (Inr nowhere)
       | (a # _, nowhere) \<Rightarrow>
           must (ask (SetWorkspaceNameByID (ot_niri out) (Ad_ID a) (String (Ad_Name a))))
             (\<lambda>e. Inl (Creating (String (Ad_Name a)) e))
             (ensure_loop out want rounds nowhere)))"

definition ensureDeclared :: "'w outside \<Rightarrow> string \<Rightarrow> ('w, complaint + name list) handler" where
  "ensureDeclared out target =
     attempt (ask (ot_desks out)) (\<lambda>e. Inl (From_desks e)) (\<lambda>(all, problems). do {
       _ \<leftarrow> rememberProblems problems;
       (case map_of all target of
          None \<Rightarrow> give (Inr [])
        | Some declared \<Rightarrow>
            let want = declared_workspaces declared in ensure_loop out want want [])
     })"

fun strings_Join :: "string \<Rightarrow> string list \<Rightarrow> string" where
  "strings_Join sep [] = []"
| "strings_Join sep [p] = p"
| "strings_Join sep (p # q # ps) = p @ sep @ strings_Join sep (q # ps)"

definition waitingNote :: "unicode \<Rightarrow> name list \<Rightarrow> remark list" where
  "waitingNote u waiting =
     (if waiting = [] then []
      else [Not_made (Line u (''not made, because their monitor is not a screen right now: '' @ strings_Join '', '' (map String waiting)))])"

section \<open>Reconciling\<close>

definition rename_one :: "'w outside \<Rightarrow> rename \<Rightarrow> ('w, complaint option) handler" where
  "rename_one out r =
     must (ask (RenameWorkspace (ot_niri out) (String (From r)) (String (To r)))) (\<lambda>e. Some (Renaming (String (From r)) e))
       (do { _ \<leftarrow> noted out (\<lambda>how. Renamed how r); give None })"

definition adopt_one :: "'w outside \<Rightarrow> string \<Rightarrow> adoption \<Rightarrow> ('w, complaint option) handler" where
  "adopt_one out active a =
     must (ask (SetWorkspaceNameByID (ot_niri out) (Ad_ID a) (String (Ad_Name a)))) (\<lambda>e. Some (Adopting active e)) (give None)"

definition renamed_lines :: "desk_map \<Rightarrow> string list" where
  "renamed_lines m = map (\<lambda>r. String (From r) @ '' -> '' @ String (To r)) (renames m)"

definition conflict_lines :: "unicode \<Rightarrow> desk_map \<Rightarrow> (string \<times> reason) list" where
  "conflict_lines u m = map (\<lambda>c. (Line u (Name (Workspace c)), Reason c)) (conflicts m)"

text \<open>The adoptions, with the desk they go to; nothing is adopted when no desk is active.\<close>

definition adopt_all :: "'w outside \<Rightarrow> desk_map \<Rightarrow> string \<Rightarrow> ('w, response) handler" where
  "adopt_all out m active =
     (if active = [] then give (ok (Reconciled_is (renamed_lines m) [] (conflict_lines (ot_unicode out) m)))
      else attempt (ask (FirstApps (ot_niri out))) (\<lambda>e. refuse (Reading_windows e)) (\<lambda>firstApp.
        let plan = AdoptPlan (ot_unicode out) m active firstApp
        in must (each (adopt_one out active) plan) refuse
             (give (ok (Reconciled_is (renamed_lines m) (map (\<lambda>a. String (Ad_Name a)) plan) (conflict_lines (ot_unicode out) m))))))"

definition reconcile :: "'w outside \<Rightarrow> ('w, response) handler" where
  "reconcile out = do {
     _ \<leftarrow> SyncRules out;
     attempt (ask (DeskMap (ot_niri out))) (\<lambda>e. refuse (From_niri e)) (\<lambda>m.
     must (each (rename_one out) (renames m)) refuse (do {
       active \<leftarrow> activeDesk out m;
       adopt_all out m active
     }))
   }"

section \<open>Switching\<close>

definition remembered_slot :: "name \<Rightarrow> (string \<rightharpoonup> string) \<Rightarrow> (string \<rightharpoonup> string)" where
  "remembered_slot n slots = (if slots (monitor n) = None then slots(monitor n \<mapsto> slot n) else slots)"

definition landingSlots :: "'w outside \<Rightarrow> string \<Rightarrow> ('w, string \<rightharpoonup> string) handler" where
  "landingSlots out target = do {
     jrn \<leftarrow> journalled;
     st \<leftarrow> journal_state;
     let slots = (if jrn then map_of (aget [] (st_LastActive st) target) else Map.empty);
     d \<leftarrow> manifestFor out target;
     give (case d of None \<Rightarrow> slots | Some d \<Rightarrow> fold remembered_slot (declared_workspaces d) slots)
   }"

text \<open>A switch starts the desk's apps once: \<open>launching\<close> is the set of desks coming up.\<close>

definition claimLaunch :: "'w outside \<Rightarrow> string \<Rightarrow> ('w, bool) handler" where
  "claimLaunch out target = do {
     ending \<leftarrow> ask (ot_ending out);
     if ending then give False
     else do {
       up \<leftarrow> look (\<lambda>s. target \<in> set (dm_launching s));
       if up then give False
       else do { _ \<leftarrow> change (\<lambda>s. s\<lparr>dm_launching := target # dm_launching s\<rparr>); give True }
     }
   }"

definition startApps :: "'w outside \<Rightarrow> string \<Rightarrow> ('w, unit) handler" where
  "startApps out target =
     attempt (ask (ot_desks out)) (\<lambda>_. ()) (\<lambda>(all, _).
       case map_of all target of
         None \<Rightarrow> give ()
       | Some d \<Rightarrow>
           if ds_apps d = [] then give ()
           else do {
             claimed \<leftarrow> claimLaunch out target;
             if claimed then change (\<lambda>s. s\<lparr>dm_starting := dm_starting s @ [(target, ds_apps d)]\<rparr>) else give ()
           })"

text \<open>What a switch that focused its plan writes down, and what arriving on another desk starts.\<close>

definition settled_on :: "'w outside \<Rightarrow> string \<Rightarrow> string \<Rightarrow> string \<Rightarrow> name list \<Rightarrow> ('w, unit) handler" where
  "settled_on out target was origin plan = do {
     _ \<leftarrow> noted out (\<lambda>how. SetOnDesk how target);
     _ \<leftarrow> every (\<lambda>n. noted out (\<lambda>how. SetActive how n)) plan;
     _ \<leftarrow> (if origin \<noteq> [] \<and> origin \<noteq> target then noted out (\<lambda>how. SetLastDesk how origin) else give ());
     if was \<noteq> target then do { _ \<leftarrow> enterDesk out target; startApps out target } else give ()
   }"

text \<open>The switch once the desk's workspaces exist and the map is read.\<close>

definition switch_over :: "'w outside \<Rightarrow> string \<Rightarrow> string \<Rightarrow> string \<Rightarrow> name list \<Rightarrow> desk_map \<Rightarrow> ('w, response) handler" where
  "switch_over out target from_desk was waiting m = do {
     slots \<leftarrow> landingSlots out target;
     let plan = SwitchPlan m target slots;
     if plan = [] then give (refuse (No_such_band target))
     else do {
       origin \<leftarrow> (if from_desk = [] then activeDesk out m else give from_desk);
       must (each (\<lambda>n. ask (FocusWorkspace (ot_niri out) (String n))) plan) (\<lambda>e. refuse (Switching target e)) (do {
         _ \<leftarrow> settled_on out target was origin plan;
         give ((ok (Names (map String plan)))\<lparr>rs_note := waitingNote (ot_unicode out) waiting\<rparr>)
       })
     }
   }"

definition switchFrom :: "'w outside \<Rightarrow> string \<Rightarrow> string \<Rightarrow> ('w, response) handler" where
  "switchFrom out target from_desk = do {
     jrn \<leftarrow> journalled;
     st \<leftarrow> journal_state;
     attempt (ensureDeclared out target) refuse (\<lambda>waiting.
     attempt (ask (DeskMap (ot_niri out))) (\<lambda>e. refuse (From_niri e)) (\<lambda>m.
       switch_over out target from_desk (if jrn then st_OnDesk st else []) waiting m))
   }"

definition switchDesk :: "'w outside \<Rightarrow> string \<Rightarrow> ('w, response) handler" where
  "switchDesk out target = switchFrom out target []"


section \<open>Carrying a window and a workspace\<close>

definition carry :: "'w outside \<Rightarrow> desk_map \<Rightarrow> string \<Rightarrow> ('w, complaint + string) handler" where
  "carry out m target =
     attempt (ask (FocusedWindow (ot_niri out))) (\<lambda>e. Inl (From_niri e)) (\<lambda>window.
       if window = 0 then give (Inr [])
       else attempt (ask (FocusedOutput (ot_niri out))) (\<lambda>e. Inl (From_niri e)) (\<lambda>mon. do {
         slots \<leftarrow> landingSlots out target;
         (case (case Landing m target mon slots of
                  Some n \<Rightarrow> Some n
                | None \<Rightarrow> (case SwitchPlan m target slots of [] \<Rightarrow> None | n # _ \<Rightarrow> Some n)) of
            None \<Rightarrow> give (Inl (No_such_band target))
          | Some landing \<Rightarrow>
              must (ask (MoveWindowToWorkspace (ot_niri out) (String landing))) (\<lambda>e. Inl (From_niri e))
                (give (Inr (String landing))))
       }))"

definition carryTo :: "'w outside \<Rightarrow> string \<Rightarrow> string \<Rightarrow> ('w, response) handler" where
  "carryTo out to from_desk =
     (if to = from_desk then give (ok (Names []))
      else attempt (ensureDeclared out to) refuse (\<lambda>_.
        attempt (ask (DeskMap (ot_niri out))) (\<lambda>e. refuse (From_niri e)) (\<lambda>m.
        attempt (carry out m to) refuse (\<lambda>landed. do {
          resp \<leftarrow> switchFrom out to from_desk;
          give (case rs_result resp of
                  Inl e \<Rightarrow> if landed \<noteq> [] then resp\<lparr>rs_result := Inl (Landed_but landed e)\<rparr> else resp
                | Inr _ \<Rightarrow> resp)
        }))))"

definition bandAdvice :: "string \<Rightarrow> response \<Rightarrow> response" where
  "bandAdvice target resp =
     (if target \<noteq> Regulars \<or> rs_result resp \<noteq> Inl (No_such_band target) then resp else refuse No_regulars)"

definition moveWindow :: "'w outside \<Rightarrow> (string list \<Rightarrow> string \<Rightarrow> string) \<Rightarrow> ('w, response) handler" where
  "moveWindow out step_by =
     attempt (ask (DeskMap (ot_niri out))) (\<lambda>e. refuse (From_niri e)) (\<lambda>m.
       if Rotation m = [] then give (refuse No_desks)
       else do { origin \<leftarrow> activeDesk out m; carryTo out (step_by (Rotation m) origin) origin })"

definition moveWindowTo :: "'w outside \<Rightarrow> string \<Rightarrow> ('w, response) handler" where
  "moveWindowTo out target =
     (if \<not> ValidDesk target then give (refuse (Not_a_desk target))
      else attempt (ask (DeskMap (ot_niri out))) (\<lambda>e. refuse (From_niri e)) (\<lambda>m. do {
        origin \<leftarrow> activeDesk out m;
        resp \<leftarrow> carryTo out target origin;
        give (bandAdvice target resp)
      }))"

definition declaresSlot :: "desk_manifest \<Rightarrow> string \<Rightarrow> string \<Rightarrow> bool" where
  "declaresSlot d mon sl = (sl \<in> set (mb_workspaces (block_of d mon)))"

definition rename_into :: "'w outside \<Rightarrow> string \<Rightarrow> name \<Rightarrow> name \<Rightarrow> ('w, response) handler" where
  "rename_into out target origin to =
     must (ask (RenameWorkspace (ot_niri out) (String origin) (String to))) (\<lambda>e. refuse (From_niri e)) (do {
       _ \<leftarrow> noted out (\<lambda>how. Renamed how \<lparr>From = origin, To = to\<rparr>);
       _ \<leftarrow> noted out (\<lambda>how. SetOnDesk how target);
       _ \<leftarrow> noted out (\<lambda>how. SetActive how to);
       _ \<leftarrow> (if desk origin \<noteq> target then noted out (\<lambda>how. SetLastDesk how (desk origin)) else give ());
       give (ok (Names [String to]))
     })"

text \<open>The move once the focused workspace's name is known to be ours.\<close>

definition move_named :: "'w outside \<Rightarrow> string \<Rightarrow> string \<Rightarrow> name \<Rightarrow> ('w, response) handler" where
  "move_named out target name origin =
     (if desk origin = target then give (refuse (Already_in name target))
      else do {
        d \<leftarrow> manifestFor out (desk origin);
        if (case d of None \<Rightarrow> False | Some d \<Rightarrow> declaresSlot d (monitor origin) (slot origin))
        then give (refuse (Declared_there (desk origin) (slot origin) (monitor origin)))
        else attempt (ask (DeskMap (ot_niri out))) (\<lambda>e. refuse (From_niri e)) (\<lambda>m.
          case MoveTo (Some m) origin target of
            None \<Rightarrow> give (refuse (No_name_for (slot origin) target))
          | Some to \<Rightarrow> rename_into out target origin to)
      })"

definition moveWorkspaceTo :: "'w outside \<Rightarrow> string \<Rightarrow> ('w, response) handler" where
  "moveWorkspaceTo out target =
     (if \<not> ValidDesk target then give (refuse (Not_a_desk target))
      else attempt (ask (FocusedPlace (ot_niri out))) (\<lambda>e. refuse (From_niri e)) (\<lambda>(name, _).
        if name = [] then give (refuse Nothing_focused)
        else (case ParseName name of
                Inl _ \<Rightarrow> give (refuse (Not_ours name))
              | Inr origin \<Rightarrow> move_named out target name origin)))"

section \<open>Moving about\<close>

definition scroll :: "'w outside \<Rightarrow> int \<Rightarrow> ('w, response) handler" where
  "scroll out steps =
     attempt (ask (DeskMap (ot_niri out))) (\<lambda>e. refuse (From_niri e)) (\<lambda>m.
     attempt (ask (FocusedPlace (ot_niri out))) (\<lambda>e. refuse (From_niri e)) (\<lambda>(focused, mon). do {
       let origin = (case ParseName focused of Inl _ \<Rightarrow> no_name | Inr n \<Rightarrow> n);
       on \<leftarrow> deskOf out m focused;
       if on = [] then give (refuse No_desk_here)
       else if Band m on mon = [] then give (refuse (Not_on_screen on))
       else (case BandStep (Band m on mon) origin steps of
            None \<Rightarrow> give (ok (Names []))
          | Some to \<Rightarrow>
              must (ask (FocusWorkspace (ot_niri out) (String to))) (\<lambda>e. refuse (From_niri e)) (do {
                _ \<leftarrow> noted out (\<lambda>how. SetActive how to);
                give (ok (Names [String to]))
              }))
     }))"

definition rotate :: "'w outside \<Rightarrow> (string list \<Rightarrow> string \<Rightarrow> string) \<Rightarrow> ('w, response) handler" where
  "rotate out step_by =
     attempt (ask (DeskMap (ot_niri out))) (\<lambda>e. refuse (From_niri e)) (\<lambda>m.
       if Rotation m = [] then give (refuse No_desks)
       else do {
         origin \<leftarrow> activeDesk out m;
         let to = step_by (Rotation m) origin;
         if to = origin then give (ok (Names [])) else switchDesk out to
       })"

definition nav :: "'w outside \<Rightarrow> bool \<Rightarrow> ('w, response) handler" where
  "nav out down =
     attempt (ask (FocusedWindow (ot_niri out))) (\<lambda>e. refuse (From_niri e)) (\<lambda>before.
     must (ask (FocusWindowVertically (ot_niri out) down)) (\<lambda>e. refuse (From_niri e))
     (attempt (ask (FocusedWindow (ot_niri out))) (\<lambda>e. refuse (From_niri e)) (\<lambda>after.
       if after \<noteq> before then give (ok (Names []))
       else if down then rotate out Next
       else rotate out Prev)))"

definition regulars :: "'w outside \<Rightarrow> ('w, response) handler" where
  "regulars out = do { resp \<leftarrow> switchDesk out Regulars; give (bandAdvice Regulars resp) }"

definition lastDesk :: "'w outside \<Rightarrow> string \<Rightarrow> ('w, response) handler" where
  "lastDesk out prev = do {
     resp \<leftarrow> switchDesk out prev;
     if rs_result resp \<noteq> Inl (No_such_band prev) then give resp
     else do { _ \<leftarrow> with_journal out (\<lambda>how. SetLastDesk how []); give (refuse (Nowhere_back prev)) }
   }"

fun first_on_a_desk :: "desk_map \<Rightarrow> item list \<Rightarrow> string option" where
  "first_on_a_desk m [] = None"
| "first_on_a_desk m (it # its) =
     (if it_Desk it \<noteq> [] \<and> Desk_Map.Workspaces m (it_Desk it) \<noteq> [] then Some (it_Desk it) else first_on_a_desk m its)"

definition queueJump :: "'w outside \<Rightarrow> ('w, response) handler" where
  "queueJump out = do {
     jrn \<leftarrow> journalled;
     q \<leftarrow> look (\<lambda>s. Waiting (dm_jrn s));
     if \<not> jrn then give (refuse No_journal)
     else if q = [] then give (refuse Nothing_waiting)
     else attempt (ask (DeskMap (ot_niri out))) (\<lambda>e. refuse (From_niri e)) (\<lambda>m.
       case first_on_a_desk m q of
         Some d \<Rightarrow> switchDesk out d
       | None \<Rightarrow> give (refuse (Not_on_any_desk (it_Text (hd q)))))
   }"


section \<open>Pickers\<close>

definition withRegulars :: "string list \<Rightarrow> string list" where
  "withRegulars names = (if Regulars \<in> set names then names else sort_strings (names @ [Regulars]))"

definition deskPicker :: "'w outside \<Rightarrow> string \<Rightarrow> ('w, response) handler" where
  "deskPicker out what =
     attempt (ask (DeskMap (ot_niri out))) (\<lambda>e. refuse (From_niri e)) (\<lambda>m.
       let names = (if what \<noteq> EventPicker then withRegulars (DeskNames m) else DeskNames m)
       in if names = [] then give (refuse No_desks)
          else do {
            scr \<leftarrow> focused_output out;
            on \<leftarrow> activeDesk out m;
            shown \<leftarrow> ask (ot_surface out (no_event\<lparr>ev_Kind := what, ev_Desks := names, ev_On := on, ev_Output := scr\<rparr>));
            give (ok (Switcher_is shown names on))
          })"

definition switcher :: "'w outside \<Rightarrow> ('w, response) handler" where "switcher out = deskPicker out EventPicker"

definition clean_window :: "unicode \<Rightarrow> open_window \<Rightarrow> open_window" where
  "clean_window u w = w\<lparr>ow_Title := Line u (ow_Title w), ow_AppID := Line u (ow_AppID w), ow_Workspace := Line u (ow_Workspace w)\<rparr>"

definition windows :: "'w outside \<Rightarrow> ('w, string + open_window list) handler" where
  "windows out = attempt (ask (Niri.Windows (ot_niri out))) Inl (\<lambda>ws. give (Inr (map (clean_window (ot_unicode out)) ws)))"

definition window_less :: "open_window \<Rightarrow> open_window \<Rightarrow> bool" where
  "window_less a b = (if ow_Workspace a \<noteq> ow_Workspace b then ow_Workspace a < ow_Workspace b else ow_ID a < ow_ID b)"

definition sortWindows :: "open_window list \<Rightarrow> open_window list" where "sortWindows ws = sort_by window_less ws"

definition jumpTo :: "'w outside \<Rightarrow> ('w, response) handler" where
  "jumpTo out =
     attempt (windows out) (\<lambda>e. refuse (From_niri e)) (\<lambda>ws.
       if ws = [] then give (refuse Nothing_open)
       else do {
         scr \<leftarrow> focused_output out;
         shown \<leftarrow> ask (ot_surface out (no_event\<lparr>ev_Kind := EventWindows, ev_Windows := sortWindows ws, ev_Output := scr\<rparr>));
         give (ok (Jump_is shown (sortWindows ws)))
       })"

definition land_on :: "'w outside \<Rightarrow> 64 word \<Rightarrow> open_window \<Rightarrow> ('w, response) handler" where
  "land_on out i w =
     must (ask (FocusWindow (ot_niri out) i)) (\<lambda>e. refuse (From_niri e)) (do {
       _ \<leftarrow> (case ParseName (ow_Workspace w) of Inl _ \<Rightarrow> give () | Inr n \<Rightarrow> noted out (\<lambda>how. SetActive how n));
       give (ok (Names (if ow_Workspace w = [] then [] else [ow_Workspace w])))
     })"

definition focusWindow :: "'w outside \<Rightarrow> string \<Rightarrow> ('w, response) handler" where
  "focusWindow out asked =
     (case parse_uint asked of
        None \<Rightarrow> give (refuse (Not_an_id asked))
      | Some i \<Rightarrow> attempt (windows out) (\<lambda>e. refuse (From_niri e)) (\<lambda>ws.
          case find (\<lambda>w. ow_ID w = i) ws of
            None \<Rightarrow> give (refuse (No_window asked))
          | Some w \<Rightarrow>
              (case ParseName (ow_Workspace w) of
                 Inl _ \<Rightarrow> land_on out i w
               | Inr landing \<Rightarrow>
                   attempt (ask (DeskMap (ot_niri out))) (\<lambda>e. refuse (From_niri e)) (\<lambda>m. do {
                     origin \<leftarrow> activeDesk out m;
                     if origin = desk landing then land_on out i w
                     else do {
                       resp \<leftarrow> switchFrom out (desk landing) origin;
                       (case rs_result resp of Inl _ \<Rightarrow> give resp | Inr _ \<Rightarrow> land_on out i w)
                     }
                   }))))"

section \<open>A desk's apps, and a desk written down\<close>

definition Address :: "string \<Rightarrow> string \<Rightarrow> string" where
  "Address a inst = (if inst = [] then a else a @ ''@'' @ inst)"

definition placed_app :: "string \<Rightarrow> app \<Rightarrow> string \<times> string" where
  "placed_app target a =
     (Address (ap_app a) (ap_instance a),
      (if ap_monitor a \<noteq> [] \<and> ap_workspace a \<noteq> []
       then (case NewName target (ap_monitor a) (ap_workspace a) of Inl _ \<Rightarrow> [] | Inr n \<Rightarrow> String n) else []))"

definition apps_of :: "'w outside \<Rightarrow> string \<Rightarrow> ('w, response) handler" where
  "apps_of out target =
     attempt (ask (ot_desks out)) (\<lambda>e. refuse (From_desks e)) (\<lambda>(all, problems). do {
       _ \<leftarrow> rememberProblems problems;
       give (case map_of all target of
               None \<Rightarrow> refuse (Not_declared target (sort_strings (map fst all)))
             | Some d \<Rightarrow> ok (Apps_are (map (placed_app target) (ds_apps d))))
     })"

definition deskApps :: "'w outside \<Rightarrow> string list \<Rightarrow> ('w, response) handler" where
  "deskApps out args =
     (case args of
        [] \<Rightarrow> attempt (ask (FocusedName (ot_niri out))) (\<lambda>e. refuse (From_niri e)) (\<lambda>focused.
                case ParseName focused of
                  Inl _ \<Rightarrow> give (refuse (Not_a_workspace focused))
                | Inr n \<Rightarrow> apps_of out (desk n))
      | [target] \<Rightarrow> apps_of out target
      | _ \<Rightarrow> give (refuse (Takes_other_arguments ''desk.apps'')))"

definition write_down :: "'w outside \<Rightarrow> desk_map \<Rightarrow> string \<Rightarrow> ('w, response) handler" where
  "write_down out m target =
     (if target = Regulars then give (refuse Regulars_undeclared)
      else do {
        prev \<leftarrow> manifestFor out target;
        (case FromMap m target (case prev of None \<Rightarrow> False | Some d \<Rightarrow> ds_private d) of
           Inl e \<Rightarrow> give (refuse (Snapshot_refused e))
         | Inr d \<Rightarrow> attempt (ask (ot_save out d)) (\<lambda>e. refuse (Save_refused e)) (\<lambda>path. give (ok (Path_is path))))
      })"

definition snapshot :: "'w outside \<Rightarrow> string list \<Rightarrow> ('w, response) handler" where
  "snapshot out args =
     attempt (ask (DeskMap (ot_niri out))) (\<lambda>e. refuse (From_niri e)) (\<lambda>m.
       case args of
         [] \<Rightarrow> do {
           r \<leftarrow> ask (FocusedName (ot_niri out));
           let target = (case r of Inl _ \<Rightarrow> [] | Inr focused \<Rightarrow> (case ParseName focused of Inl _ \<Rightarrow> [] | Inr n \<Rightarrow> desk n));
           if target = [] then give (refuse No_snapshot_desk) else write_down out m target
         }
       | [target] \<Rightarrow> write_down out m target
       | _ \<Rightarrow> give (refuse (Takes_other_arguments ''desk.snapshot'')))"

section \<open>Zen\<close>

definition setZen :: "'w outside \<Rightarrow> bool \<Rightarrow> ('w, response) handler" where
  "setZen out on = do {
     jrn \<leftarrow> journalled;
     if \<not> jrn then give (refuse No_journal)
     else do {
       written \<leftarrow> with_journal out (\<lambda>how. SetZen how on);
       if \<not> written then give (refuse Not_written)
       else do {
         _ \<leftarrow> SyncRules out;
         _ \<leftarrow> ask (ReloadConfig (ot_niri out));
         _ \<leftarrow> ask (ot_tell out (no_event\<lparr>ev_Kind := EventZen\<rparr>));
         give (ok (Zen_is on))
       }
     }
   }"

definition zen :: "'w outside \<Rightarrow> string list \<Rightarrow> ('w, response) handler" where
  "zen out args =
     (case args of
        [] \<Rightarrow> do { on \<leftarrow> zenState; give (ok (Zen_is on)) }
      | [a] \<Rightarrow>
          if a = ''on'' then setZen out True
          else if a = ''off'' then setZen out False
          else if a = ''toggle'' then do { on \<leftarrow> zenState; setZen out (\<not> on) }
          else give (refuse (Takes_other_arguments ''desk.zen''))
      | _ \<Rightarrow> give (refuse (Takes_other_arguments ''desk.zen'')))"

section \<open>Launching what a desk declares\<close>

definition releaseLaunch :: "string \<Rightarrow> ('w, unit) handler" where
  "releaseLaunch target = change (\<lambda>s. s\<lparr>dm_launching := removeAll target (dm_launching s)\<rparr>)"

definition comingUp :: "('w, nat) handler" where "comingUp = look (\<lambda>s. length (dm_launching s))"

definition launchesNamed :: nat where "launchesNamed = 4"
definition reasonMax :: nat where "reasonMax = 200"

text \<open>A text of one line at most, cut at \<open>reasonMax\<close> runes.\<close>

definition reason_text :: "string \<Rightarrow> string" where
  "reason_text msg =
     (let msg = (if newline \<in> set (map of_char msg)
                 then TrimSpace (takeWhile (\<lambda>ch. of_char ch \<noteq> newline) msg) @ '' ...'' else msg);
          r = runes_of msg
      in if reasonMax < length r then TrimSpace (string_of_runes (take reasonMax r)) @ '' ...'' else msg)"

definition launchSummary :: "string \<Rightarrow> (string \<times> string) list \<Rightarrow> string" where
  "launchSummary target failed =
     (case failed of
        [f] \<Rightarrow> ''desk '' @ target @ '': '' @ fst f @ '' did not start''
      | _ \<Rightarrow> ''desk '' @ target @ '': '' @ itoa (length failed) @ '' apps did not start'')"

fun launch_lines :: "nat \<Rightarrow> (string \<times> string) list \<Rightarrow> string" where
  "launch_lines i [] = []"
| "launch_lines i (f # fs) =
     (if 0 < i then [char_of (10 :: nat)] else [])
     @ (if i = launchesNamed then ''and '' @ itoa (length (f # fs)) @ '' more, in journalctl --user -u zded''
        else fst f @ '': '' @ reason_text (snd f) @ launch_lines (i + 1) fs)"

definition launchBody :: "(string \<times> string) list \<Rightarrow> string" where "launchBody failed = launch_lines 0 failed"

definition launchesFailed :: "'w outside \<Rightarrow> string \<Rightarrow> (string \<times> string) list \<Rightarrow> ('w, unit) handler" where
  "launchesFailed out target failed =
     (if failed = [] then give ()
      else do { _ \<leftarrow> Arrived_op out (Local (ot_unicode out) (launchSummary target failed) (launchBody failed)); give () })"

text \<open>The apps one after the other; \<open>None\<close> is a stop in the middle, which reports nothing.\<close>

fun launch_each :: "'w outside \<Rightarrow> app list \<Rightarrow> (string \<times> string) list \<Rightarrow> ('w, (string \<times> string) list option) handler" where
  "launch_each out [] failed = give (Some failed)"
| "launch_each out (a # as) failed = do {
     ending \<leftarrow> ask (ot_ending out);
     if ending then give None
     else do {
       r \<leftarrow> ask (ot_launch out (Address (ap_app a) (ap_instance a)));
       (case r of
          None \<Rightarrow> launch_each out as failed
        | Some AlreadyRunning \<Rightarrow> launch_each out as failed
        | Some (NotStarted why) \<Rightarrow> do {
            ending \<leftarrow> ask (ot_ending out);
            if ending then give None
            else launch_each out as (failed @ [(Address (ap_app a) (ap_instance a), why)])
          })
     }
   }"

definition launchApps :: "'w outside \<Rightarrow> string \<Rightarrow> app list \<Rightarrow> ('w, unit) handler" where
  "launchApps out target as = do {
     failed \<leftarrow> launch_each out as [];
     _ \<leftarrow> (case failed of None \<Rightarrow> give () | Some fs \<Rightarrow> launchesFailed out target fs);
     releaseLaunch target
   }"

text \<open>A step of one of the goroutines \<open>startApps\<close> left behind.\<close>

definition start_one :: "'w outside \<Rightarrow> ('w, bool) handler" where
  "start_one out = do {
     waiting \<leftarrow> look dm_starting;
     (case waiting of
        [] \<Rightarrow> give False
      | (target, as) # rest \<Rightarrow> do {
          _ \<leftarrow> change (\<lambda>s. s\<lparr>dm_starting := rest\<rparr>);
          _ \<leftarrow> launchApps out target as;
          give True
        })
   }"

end
