(* ===== verification/Zded_Panic.thy ===== *)
theory Zded_Panic
  imports Zded_Desk
begin

text \<open>
  Panic (\<open>internal/zded/panic.go\<close>, \<open>canShow\<close> of \<open>config.go\<close>): the decoy desk, quiet and silence by
  one key, and the same key back; and the requests about desks and windows
  (\<open>dispatch_desk.go\<close>). What panic took is in the daemon's memory alone.
\<close>

section \<open>Panic\<close>

definition canShow :: "'w outside \<Rightarrow> string \<Rightarrow> ('w, complaint option) handler" where
  "canShow out name =
     attempt (ask (ot_desks out)) (\<lambda>e. Some (From_desks e)) (\<lambda>(all, problems). do {
       _ \<leftarrow> rememberProblems problems;
       give (if problems \<noteq> [] then Some (Cannot_tell_private name)
             else (case map_of all name of
                     Some d \<Rightarrow> if ds_private d then Some (Declared_private name) else None
                   | None \<Rightarrow> None))
     })"

definition holdPanic :: "panic_hold option \<Rightarrow> ('w, unit) handler" where
  "holdPanic h = change (\<lambda>s. s\<lparr>dm_panicking := h\<rparr>)"

text \<open>\<open>Some None\<close> is the error of a machine whose sound cannot be reached.\<close>

definition setMuted :: "'w outside \<Rightarrow> bool \<Rightarrow> ('w, string option option) handler" where
  "setMuted out on =
     (if ot_sound out then do { r \<leftarrow> ask (ot_mute out on); give (case r of None \<Rightarrow> None | Some e \<Rightarrow> Some (Some e)) }
      else give (Some None))"

definition what_is_lost :: "'w outside \<Rightarrow> string \<Rightarrow> ('w, panic_hold) handler" where
  "what_is_lost out decoy = do {
     origin \<leftarrow> whereWeAre out;
     m \<leftarrow> mode;
     sound \<leftarrow> (if ot_sound out then ask (ot_muted out) else give (Inl []));
     give \<lparr>ph_decoy = decoy, ph_from = origin, ph_mode = m, ph_took = False,
       ph_muted = (case sound of Inl _ \<Rightarrow> False | Inr b \<Rightarrow> b),
       ph_knewMuted = (case sound of Inl _ \<Rightarrow> False | Inr _ \<Rightarrow> True)\<rparr>
   }"

definition enterPanic :: "'w outside \<Rightarrow> ('w, response) handler" where
  "enterPanic out =
     attempt (ask (ot_decoy out)) (\<lambda>e. refuse (Nothing_hidden (Config_unreadable e))) (\<lambda>decoy.
       if decoy = [] then give (refuse (Nothing_hidden No_decoy))
       else must (canShow out decoy) (\<lambda>e. refuse (Nothing_hidden e)) (do {
         hold \<leftarrow> what_is_lost out decoy;
         resp \<leftarrow> switchDesk out decoy;
         (case rs_result resp of
            Inl e \<Rightarrow> give (refuse (Decoy_not_up e))
          | Inr _ \<Rightarrow> do {
              quieted \<leftarrow> setMode out Quiet;
              _ \<leftarrow> ask (ot_tell out (no_event\<lparr>ev_Kind := EventAttnHide\<rparr>));
              muted \<leftarrow> setMuted out True;
              _ \<leftarrow> holdPanic (Some (hold\<lparr>ph_took := (muted = None)\<rparr>));
              give ((ok (Panic_on decoy))\<lparr>rs_note :=
                (case rs_result quieted of Inl e \<Rightarrow> [Not_silenced e] | Inr _ \<Rightarrow> [])
                @ (case muted of None \<Rightarrow> [] | Some e \<Rightarrow> [Not_muted e])\<rparr>)
            })
       }))"

definition leavePanic :: "'w outside \<Rightarrow> panic_hold \<Rightarrow> ('w, response) handler" where
  "leavePanic out hold = do {
     (home, note1) \<leftarrow>
       (if ph_from hold \<noteq> [] \<and> ph_from hold \<noteq> ph_decoy hold then do {
          resp \<leftarrow> switchDesk out (ph_from hold);
          give (case rs_result resp of Inl e \<Rightarrow> (False, [Not_brought_back e]) | Inr _ \<Rightarrow> (True, []))
        }
        else give (True, if ph_from hold = [] then [Still_on_decoy] else []));
     note2 \<leftarrow>
       (if \<not> ph_took hold then give []
        else if \<not> ph_knewMuted hold then give [Left_off]
        else if ph_muted hold then give []
        else do { r \<leftarrow> setMuted out False; give (case r of None \<Rightarrow> [] | Some e \<Rightarrow> [Still_muted e]) });
     resp \<leftarrow> setMode out (ph_mode hold);
     _ \<leftarrow> (if home then holdPanic None else give ());
     give ((ok Panic_off)\<lparr>rs_note := note1 @ note2
       @ (case rs_result resp of Inl e \<Rightarrow> [Not_unquieted e] | Inr _ \<Rightarrow> [])\<rparr>)
   }"

definition deskPanic :: "'w outside \<Rightarrow> ('w, response) handler" where
  "deskPanic out = do {
     hold \<leftarrow> look dm_panicking;
     (case hold of
        None \<Rightarrow> enterPanic out
      | Some h \<Rightarrow> do {
          here \<leftarrow> whereWeAre out;
          if here = ph_decoy h then leavePanic out h else enterPanic out
        })
   }"

section \<open>The requests\<close>

definition no_arguments :: "string \<Rightarrow> string list \<Rightarrow> ('w, response) handler \<Rightarrow> ('w, response) handler" where
  "no_arguments method args f = (if args \<noteq> [] then give (refuse (Takes_other_arguments method)) else f)"

definition dispatchDesk :: "'w outside \<Rightarrow> string \<Rightarrow> string list \<Rightarrow> ('w, response) handler" where
  "dispatchDesk out method args =
     (if method = ''desk.switcher'' then no_arguments method args (switcher out)
      else if method = ''desk.list'' then
        attempt (ask (DeskMap (ot_niri out))) (\<lambda>e. refuse (From_niri e)) (\<lambda>m. give (ok (Names (DeskNames m))))
      else if method = ''desk.switch'' then
        (case args of [d] \<Rightarrow> switchDesk out d | _ \<Rightarrow> give (refuse (Takes_other_arguments method)))
      else if method = ''desk.move-window'' then
        (if args = [''next''] then moveWindow out Next
         else if args = [''prev''] then moveWindow out Prev
         else give (refuse (Takes_other_arguments method)))
      else if method = ''desk.move-window-to'' then
        (case args of
           [] \<Rightarrow> deskPicker out EventPickerMoveWindow
         | [d] \<Rightarrow> moveWindowTo out d
         | _ \<Rightarrow> give (refuse (Takes_other_arguments method)))
      else if method = ''desk.move-workspace-to'' then
        (case args of
           [] \<Rightarrow> deskPicker out EventPickerMoveWorkspace
         | [d] \<Rightarrow> moveWorkspaceTo out d
         | _ \<Rightarrow> give (refuse (Takes_other_arguments method)))
      else if method = ''desk.zen'' then zen out args
      else if method = ''desk.queue-jump'' then no_arguments method args (queueJump out)
      else if method = ''desk.regulars'' then no_arguments method args (regulars out)
      else if method = ''desk.panic'' then no_arguments method args (deskPanic out)
      else if method = ''desk.next'' then no_arguments method args (rotate out Next)
      else if method = ''desk.prev'' then no_arguments method args (rotate out Prev)
      else if method = ''desk.apps'' then deskApps out args
      else if method = ''desk.snapshot'' then snapshot out args
      else if method = ''desk.reconcile'' then reconcile out
      else if method = ''desk.last'' then do {
        jrn \<leftarrow> journalled;
        st \<leftarrow> journal_state;
        if \<not> jrn then give (refuse No_journal)
        else if st_LastDesk st = [] then give (refuse No_last_desk)
        else lastDesk out (st_LastDesk st)
      }
      else give (refuse (Unknown_method method)))"

definition dispatchWindow :: "'w outside \<Rightarrow> string \<Rightarrow> string list \<Rightarrow> ('w, response) handler" where
  "dispatchWindow out method args =
     (if method = ''window.jump-to'' then
        (case args of
           [] \<Rightarrow> jumpTo out
         | [i] \<Rightarrow> focusWindow out i
         | _ \<Rightarrow> give (refuse (Takes_other_arguments method)))
      else if method = ''nav.down'' \<or> method = ''nav.up'' then no_arguments method args (nav out (method = ''nav.down''))
      else if method = ''workspace.next'' then no_arguments method args (scroll out 1)
      else if method = ''workspace.prev'' then no_arguments method args (scroll out (- 1))
      else give (refuse (Unknown_method method)))"

end
