(* ===== verification/Zded_Arrivals.thy ===== *)
theory Zded_Arrivals
  imports Zded_Attn
begin

text \<open>
  What the daemon promises of an arrival: what it changes and what it leaves, that the daemon is
  the sink the notification server asks for, and what follows for whatever comes off the bus.
\<close>

section \<open>What an arrival leaves as it was\<close>

text \<open>
  Everything of the daemon that finding out where and when leaves alone: the world, the
  problems last seen, the counter and the desk the journal believes in are not in it.
\<close>

definition core :: "'w daemon \<Rightarrow> history \<times> 64 word \<times> item list \<times> string \<times> borrowed \<times> server \<times> bool \<times> bool \<times> event list" where
  "core s = (dm_history s, j_lastID (dm_jrn s), Waiting (dm_jrn s), st_Mode (State (dm_jrn s)), st_Borrowed (State (dm_jrn s)),
     server.truncate s, dm_journalled s, dm_serving s, dm_popups s)"

lemma core_apart [simp]:
  "core (s\<lparr>dm_world := w\<rparr>) = core s" "core (s\<lparr>dm_problems := ps\<rparr>) = core s" "core (s\<lparr>dm_unplaced := n\<rparr>) = core s"
  by (simp_all add: core_def server.defs)

lemma worldly_core: "worldly (\<lambda>s. core s = c)"
  by (simp add: worldly_def)

lemma SetOnDesk_apart:
  "j_lastID (snd (SetOnDesk how d j)) = j_lastID j" "Waiting (snd (SetOnDesk how d j)) = Waiting j"
  "st_Mode (State (snd (SetOnDesk how d j))) = st_Mode (State j)"
  "st_Borrowed (State (snd (SetOnDesk how d j))) = st_Borrowed (State j)"
  by (simp_all add: SetOnDesk_def recordLocked_def apply_entry_def kinds no_entry_def set_state_def Waiting_def State_def
      split: outcome.split)

lemma core_ask [keeping]: "preserves (\<lambda>s. core s = c) (ask m)"
  by (rule keeps_ask[OF worldly_core])

lemma core_SetOnDesk [keeping]: "preserves (\<lambda>s. core s = c) (with_journal out (\<lambda>how. SetOnDesk how d))"
  by (rule keeps_with_journal[OF worldly_core]) (simp add: core_def SetOnDesk_apart server.defs)

lemma core_remember [keeping]: "preserves (\<lambda>s. core s = c) (rememberProblems ps)"
  unfolding rememberProblems_def by (rule keeps_change) simp

lemma core_where [keeping]: "preserves (\<lambda>s. core s = c) (whereWeAre out)"
  unfolding whereWeAre_def activeDesk_def deskOf_def by (intro keeping)

lemma core_private [keeping]: "preserves (\<lambda>s. core s = c) (privateArrival out d)"
  unfolding privateArrival_def couldNotPlace_def by (intro keeping keeps_change) simp_all

lemma core_output [keeping]: "preserves (\<lambda>s. core s = c) (focused_output out)"
  unfolding focused_output_def by (intro keeping)

section \<open>The contract with the notification server\<close>

text \<open>The ids given out are those up to the last; there is one more unless that is the largest there is.\<close>

definition given_ids :: "'w daemon \<Rightarrow> 64 word set" where "given_ids s = {i. i \<le> j_lastID (dm_jrn s)}"

definition id_left :: "'w daemon \<Rightarrow> bool" where "id_left s \<longleftrightarrow> j_lastID (dm_jrn s) \<noteq> - 1"

definition daemon_ok :: "'w daemon \<Rightarrow> bool" where "daemon_ok s \<longleftrightarrow> hist_ok (dm_history s)"

lemma Done_apart: "j_lastID (snd (Done how i j)) = j_lastID j"
  by (simp add: Done_def recordLocked_def apply_entry_def kinds no_entry_def set_state_def split: outcome.split)

text \<open>The queue's write, by its answer.\<close>

lemma Queue_answer:
  assumes "Journal.Queue how it j = (r, j')" and "it_Text it \<noteq> []" and "j_lastID j \<noteq> - 1"
  shows "(\<exists>e. r = Inl e \<and> j_lastID j' = j_lastID j \<and> Waiting j' = Waiting j \<and> roomFor (Waiting j) (it_From it) = Some e)
    \<or> (r = Inl journal_error.WriteFailed \<and> j_lastID j' = j_lastID j \<and> Waiting j' = Waiting j)
    \<or> (\<exists>it'. r = Inr it' \<and> it' = it\<lparr>it_ID := j_lastID j + 1\<rparr> \<and> j_lastID j' = j_lastID j + 1
        \<and> Waiting j' = Waiting j @ [it'] \<and> roomFor (Waiting j) (it_From it) = None)"
proof -
  have "j_lastID j + 1 \<noteq> 0" using word_succ[OF assms(3)] by (metis word_not_simps(1))
  then show ?thesis
    using assms word_succ[OF assms(3)]
    by (auto simp: Queue_def recordLocked_def apply_entry_def queued_entry_def kinds no_entry_def set_state_def Waiting_def Let_def
        split: option.splits outcome.splits)
qed

lemma Queue_apart:
  "st_Mode (State (snd (Journal.Queue how it j))) = st_Mode (State j)"
  "st_Borrowed (State (snd (Journal.Queue how it j))) = st_Borrowed (State j)"
  by (auto simp: Queue_def recordLocked_def apply_entry_def queued_entry_def kinds no_entry_def set_state_def State_def skip_def Let_def
        split: option.splits outcome.splits)

lemma ClaimID_answer:
  assumes "ClaimID how j = (r, j')" and "j_lastID j \<noteq> - 1"
  shows "Waiting j' = Waiting j \<and> (case r of None \<Rightarrow> j_lastID j' = j_lastID j | Some i \<Rightarrow> i = j_lastID j + 1 \<and> j_lastID j' = i)
    \<and> st_Mode (State j') = st_Mode (State j) \<and> st_Borrowed (State j') = st_Borrowed (State j)"
  using assms word_succ[OF assms(2)]
  by (auto simp: ClaimID_def recordLocked_def apply_entry_def kinds no_entry_def set_state_def Waiting_def State_def Let_def
      split: option.splits outcome.splits)

section \<open>An arrival, step by step\<close>

text \<open>
  What the two steps that write do to the core: the record comes out with the next id, and
  is on the queue as the mode and the queue's bounds say.
\<close>

definition core_with :: "(history \<times> 64 word \<times> item list \<times> string \<times> borrowed \<times> server \<times> bool \<times> bool \<times> event list)
    \<Rightarrow> 64 word \<Rightarrow> item list \<Rightarrow> (history \<times> 64 word \<times> item list \<times> string \<times> borrowed \<times> server \<times> bool \<times> bool \<times> event list)" where
  "core_with c i q = (case c of (h, _, _, rest) \<Rightarrow> (h, i, q, rest))"

definition item_of :: "arrival \<Rightarrow> item" where
  "item_of rec = \<lparr>it_ID = r_ID rec, it_Text = r_Text rec, it_Desk = r_Desk rec, it_From = r_From rec,
     it_Self = r_Self rec, it_Urgent = r_Urgent rec\<rparr>"

definition goes_on_queue :: "string \<Rightarrow> arrival \<Rightarrow> item list \<Rightarrow> bool" where
  "goes_on_queue m rec q \<longleftrightarrow> Queues m (r_Urgent rec) \<and> roomFor q (r_From rec) = None"

definition numbered_record :: "string \<Rightarrow> arrival \<Rightarrow> 64 word \<Rightarrow> item list \<Rightarrow> arrival" where
  "numbered_record m rec i q = rec\<lparr>r_ID := i, r_Queued := goes_on_queue m rec q\<rparr>"

lemma core_with_journal:
  "run (with_journal out f) s = (x, s') \<Longrightarrow>
     \<exists>how j'. f how (dm_jrn s) = (x, j') \<and> dm_jrn s' = j' \<and>
       core s' = (dm_history s, j_lastID j', Waiting j', st_Mode (State j'), st_Borrowed (State j'),
     server.truncate s, dm_journalled s, dm_serving s, dm_popups s)"
  by (auto simp: with_journal_def core_def server.defs split: prod.splits)

lemma roomFor_refusals: "roomFor q f = Some e \<Longrightarrow> e \<noteq> journal_error.WriteFailed"
  by (auto simp: roomFor_def Let_def split: if_splits)

lemma claim_core:
  assumes "run (claim_id out rec) s = (r, s')" and "\<not> r_Queued rec" and "j_lastID (dm_jrn s) \<noteq> - 1"
  shows "case r of Inl _ \<Rightarrow> core s' = core s
    | Inr rec' \<Rightarrow> rec' = rec\<lparr>r_ID := j_lastID (dm_jrn s) + 1\<rparr> \<and> core s' = core_with (core s) (j_lastID (dm_jrn s) + 1) (Waiting (dm_jrn s))"
proof -
  obtain x s1 where w: "run (with_journal out (\<lambda>how. ClaimID how)) s = (x, s1)" by fastforce
  obtain how j' where j': "ClaimID how (dm_jrn s) = (x, j')" and c: "core s1 = (dm_history s, j_lastID j', Waiting j', st_Mode (State j'),
      st_Borrowed (State j'), server.truncate s, dm_journalled s, dm_serving s, dm_popups s)"
    using core_with_journal[OF w] by blast
  show ?thesis
    using assms w c ClaimID_answer[OF j' assms(3)]
    by (cases x) (auto simp: claim_id_def core_def core_with_def)
qed

lemma offer_and_claim:
  assumes "run (offer_queue out m rec) s = (r, s1)" and "r_Text rec \<noteq> []" and "\<not> r_Queued rec"
    and "core s = c" and "j_lastID (dm_jrn s) = i" and "Waiting (dm_jrn s) = q" and "i \<noteq> - 1"
  shows "(case r of Inl _ \<Rightarrow> core s1 = c
    | Inr rec1 \<Rightarrow>
        (case run (claim_id out rec1) s1 of
          (Inl _, s2) \<Rightarrow> core s2 = c
        | (Inr rec2, s2) \<Rightarrow> rec2 = numbered_record m rec (i + 1) q
            \<and> core s2 = core_with c (i + 1) (if r_Queued rec2 then q @ [item_of rec2] else q)))"
proof -
  have plain: ?thesis if "r = Inr rec" "core s1 = c" "\<not> goes_on_queue m rec q"
  proof -
    obtain r2 s2 where r2: "run (claim_id out rec) s1 = (r2, s2)" by fastforce
    have s1: "j_lastID (dm_jrn s1) = i" "Waiting (dm_jrn s1) = q" using that(2) assms(4-6) by (auto simp: core_def)
    show ?thesis
      using claim_core[OF r2 assms(3)] that r2 s1 assms(3,4,7)
      by (auto simp: numbered_record_def split: sum.splits)
  qed
  show ?thesis
  proof (cases "Queues m (r_Urgent rec)")
    case False
    then show ?thesis using assms(1,4) plain by (simp add: offer_queue_def goes_on_queue_def)
  next
    case True
    let ?it = "\<lparr>it_ID = 0, it_Text = r_Text rec, it_Desk = r_Desk rec, it_From = r_From rec, it_Self = r_Self rec, it_Urgent = r_Urgent rec\<rparr>"
    obtain x s0 where w: "run (with_journal out (\<lambda>how. Journal.Queue how ?it)) s = (x, s0)" by fastforce
    obtain how j' where j': "Journal.Queue how ?it (dm_jrn s) = (x, j')" and c: "core s0 = (dm_history s, j_lastID j', Waiting j',
        st_Mode (State j'), st_Borrowed (State j'), server.truncate s, dm_journalled s, dm_serving s, dm_popups s)"
      using core_with_journal[OF w] by blast
    have kept: "st_Mode (State j') = st_Mode (State (dm_jrn s))" "st_Borrowed (State j') = st_Borrowed (State (dm_jrn s))"
      using Queue_apart[of how ?it "dm_jrn s"] by (simp_all add: j')
    have s0: "s1 = s0" using assms(1) True w by (simp add: offer_queue_def)
    from Queue_answer[OF j'] assms(2,5,7) consider
      e where "x = Inl e" "core s0 = c" "roomFor q (r_From rec) = Some e"
    | "x = Inl journal_error.WriteFailed" "core s0 = c"
    | "x = Inr (?it\<lparr>it_ID := i + 1\<rparr>)" "core s0 = core_with c (i + 1) (q @ [?it\<lparr>it_ID := i + 1\<rparr>])" "roomFor q (r_From rec) = None"
      using c kept assms(4,6) by (auto simp: core_def core_with_def)
    then show ?thesis
    proof cases
      case 1
      then have "r = Inr rec" using assms(1) True w roomFor_refusals[OF 1(3)]
        by (cases e) (auto simp: offer_queue_def)
      then show ?thesis by (rule plain) (use 1 s0 in \<open>simp_all add: goes_on_queue_def\<close>)
    next
      case 2
      then show ?thesis using assms(1) True w by (auto simp: offer_queue_def)
    next
      case 3
      then have "r = Inr (rec\<lparr>r_ID := i + 1, r_Queued := True\<rparr>)" using assms(1) True w by (simp add: offer_queue_def)
      then show ?thesis using 3 True s0
        by (simp add: claim_id_def numbered_record_def goes_on_queue_def item_of_def)
    qed
  qed
qed

definition popup_of :: "arrival \<Rightarrow> string \<Rightarrow> event" where
  "popup_of rec scr = no_event\<lparr>ev_Kind := EventAttnPopup, ev_Notifications := [rec], ev_Output := scr\<rparr>"

definition pops_up :: "string \<Rightarrow> arrival \<Rightarrow> event list \<Rightarrow> bool" where
  "pops_up m rec evs \<longleftrightarrow> Pops m (r_Urgent rec) \<and> \<not> r_Private rec \<and> length evs < popupBacklog"

lemma maybePop_core:
  assumes "run (maybePop out rec m) s = (x, s')"
  shows "\<exists>scr. core s' = core (s\<lparr>dm_popups := dm_popups s @ (if pops_up m rec (dm_popups s) then [popup_of rec scr] else [])\<rparr>)"
proof (cases "Pops m (r_Urgent rec) \<and> \<not> r_Private rec")
  case False
  then show ?thesis using assms by (auto simp: maybePop_def pops_up_def split: if_splits)
next
  case True
  obtain scr s1 where f: "run (focused_output out) s = (scr, s1)" by fastforce
  have "core s1 = core s" using ensuresD[OF core_output _ f] by simp
  moreover have "s' = (if length (dm_popups s1) < popupBacklog then s1\<lparr>dm_popups := dm_popups s1 @ [popup_of rec scr]\<rparr> else s1)"
    using assms True f by (auto simp: maybePop_def pop_def popup_of_def)
  ultimately show ?thesis using True by (intro exI[of _ scr]) (auto simp: core_def pops_up_def server.defs)
qed

lemma Forget_daemon [simp]:
  "dm_history (fold Forget gone s) = dm_history s" "dm_jrn (fold Forget gone s) = dm_jrn s"
  "dm_journalled (fold Forget gone s) = dm_journalled s" "dm_serving (fold Forget gone s) = dm_serving s"
  "dm_popups (fold Forget gone s) = dm_popups s"
  by (induction gone arbitrary: s) (simp_all add: Forget_def forget_def)

lemma Forget_congruent: "same_tables s t \<Longrightarrow> same_tables (fold Forget gone s) (fold Forget gone t)"
proof (induction gone arbitrary: s t)
  case (Cons i gone)
  have "same_tables (Forget i s) (Forget i t)" using Cons.prems by (auto simp: Forget_def forget_def same_tables_def)
  then show ?case using Cons.IH by simp
qed simp

definition take_in :: "notification \<Rightarrow> arrival \<Rightarrow> history \<Rightarrow> (64 word list \<times> history) option" where
  "take_in n rec h = (if n_Replaces n \<noteq> 0 then Attn_History.Replace (n_Replaces n) rec h else Attn_History.Add rec h)"

lemma take_in_ok: 
  assumes "hist_ok h"
  obtains gone h' where "take_in n rec h = Some (gone, h')" and "hist_ok h'"
proof -
  let ?h = "if n_Replaces n \<noteq> 0 then snd (remove (n_Replaces n) h) else h"
  have ok: "hist_ok ?h" using assms remove_ok[OF assms] by simp
  have "take_in n rec h = add rec ?h" by (simp add: take_in_def Attn_History.Replace_def Attn_History.Add_def)
  then show thesis using add_answers[OF ok, of rec] add_ok[OF ok, of rec] that by metis
qed

text \<open>The whole of an arrival, on either answer.\<close>

lemma Arrived_outcome:
  assumes "hist_ok (dm_history s)" and "j_lastID (dm_jrn s) \<noteq> - 1" and "n_Text n \<noteq> []" and "Arrived out n s = (r, s')"
  shows "case r of None \<Rightarrow> core s' = core s
    | Some i \<Rightarrow> \<exists>now on hidden rec gone h' scr.
        i = j_lastID (dm_jrn s) + 1
      \<and> rec = numbered_record (mode_of s) (record_of n now on hidden) i (Waiting (dm_jrn s))
      \<and> take_in n rec (dm_history s) = Some (gone, h')
      \<and> dm_history s' = h' \<and> hist_ok h' \<and> j_lastID (dm_jrn s') = i
      \<and> Waiting (dm_jrn s') = Waiting (dm_jrn s) @ (if r_Queued rec then [item_of rec] else [])
      \<and> same_tables s' (fold Forget (if dm_serving s then gone else []) s)
      \<and> dm_popups s' = dm_popups s @ (if pops_up (mode_of s) rec (dm_popups s) then [popup_of rec scr] else [])"
proof (cases "dm_journalled s")
  case False
  then show ?thesis using assms(4) by (auto simp: Arrived_def Arrived_op_def journalled_def)
next
  case True
  obtain on s1 where w: "run (whereWeAre out) s = (on, s1)" by fastforce
  obtain now s2 where t: "run (ask (ot_now out)) s1 = (now, s2)" by fastforce
  obtain hidden s3 where p: "run (privateArrival out on) s2 = (hidden, s3)" by fastforce
  have c3: "core s3 = core s"
    using ensuresD[OF core_where _ w] ensuresD[OF core_ask _ t] ensuresD[OF core_private _ p] by simp
  then have m: "mode_of s3 = mode_of s" by (simp add: core_def mode_of_def)
  let ?rec = "record_of n now on hidden"
  obtain r4 s4 where o: "run (offer_queue out (mode_of s) ?rec) s3 = (r4, s4)" by fastforce
  have s3: "j_lastID (dm_jrn s3) = j_lastID (dm_jrn s)" "Waiting (dm_jrn s3) = Waiting (dm_jrn s)" "dm_history s3 = dm_history s"
    using c3 by (simp_all add: core_def)
  let ?i = "j_lastID (dm_jrn s) + 1"
  note oc = offer_and_claim[OF o _ _ c3 s3(1,2) assms(2)]
  have texts: "r_Text ?rec \<noteq> []" "\<not> r_Queued ?rec" using assms(3) by (simp_all add: record_of_def)
  have R: "(r, s') = (case r4 of Inl _ \<Rightarrow> (None, s4) | Inr rec1 \<Rightarrow>
      (case run (claim_id out rec1) s4 of (Inl _, s5) \<Rightarrow> (None, s5) | (Inr rec2, s5) \<Rightarrow>
        run (do { gone \<leftarrow> into_history (n_Replaces n) rec2;
          case gone of None \<Rightarrow> give None
          | Some ids \<Rightarrow> do { _ \<leftarrow> forget_gone ids; _ \<leftarrow> maybePop out rec2 (mode_of s); give (Some (r_ID rec2)) } }) s5))"
    using assms(4) w t p o True unfolding Arrived_def Arrived_op_def
    by (simp add: journalled_def mode_def m del: run_ask split: sum.splits prod.splits)
  show ?thesis
  proof (cases r4)
    case (Inl e)
    then show ?thesis using R oc texts by simp
  next
    case (Inr rec1)
    obtain r5 s5 where c: "run (claim_id out rec1) s4 = (r5, s5)" by fastforce
    show ?thesis
    proof (cases r5)
      case (Inl e)
      then show ?thesis using R oc texts Inr c by simp
    next
      case (Inr rec)
      have rec: "rec = numbered_record (mode_of s) ?rec ?i (Waiting (dm_jrn s))"
        and c5: "core s5 = core_with (core s) ?i (if r_Queued rec then Waiting (dm_jrn s) @ [item_of rec] else Waiting (dm_jrn s))"
        using oc texts \<open>r4 = Inr rec1\<close> c Inr by simp_all
      obtain gone h' where h: "take_in n rec (dm_history s) = Some (gone, h')" "hist_ok h'" by (rule take_in_ok[OF assms(1)])
      have d5: "dm_history s5 = dm_history s" "dm_serving s5 = dm_serving s" "dm_popups s5 = dm_popups s"
        "j_lastID (dm_jrn s5) = ?i" "server.truncate s5 = server.truncate s"
        "Waiting (dm_jrn s5) = Waiting (dm_jrn s) @ (if r_Queued rec then [item_of rec] else [])"
        using c5 by (simp_all add: core_def core_with_def)
      let ?s6 = "fold Forget (if dm_serving s then gone else []) (s5\<lparr>dm_history := h'\<rparr>)"
      obtain x s7 where p7: "run (maybePop out rec (mode_of s)) ?s6 = (x, s7)" by (meson surj_pair)
      have "(r, s') = (Some (r_ID rec), s7)"
        using R \<open>r4 = Inr rec1\<close> c Inr h(1) p7 d5(1,2)
        by (simp add: into_history_def take_in_def forget_gone_def split: if_splits)
      moreover obtain scr where c7: "core s7 = core (?s6\<lparr>dm_popups := dm_popups ?s6 @ (if pops_up (mode_of s) rec (dm_popups ?s6) then [popup_of rec scr] else [])\<rparr>)"
        using maybePop_core[OF p7] by blast
      have "same_tables (s5\<lparr>dm_history := h'\<rparr>) s" using d5(5) by (simp add: same_tables_def server.defs)
      then have "same_tables ?s6 (fold Forget (if dm_serving s then gone else []) s)" by (rule Forget_congruent)
      then have "same_tables s7 (fold Forget (if dm_serving s then gone else []) s)"
        using c7 by (simp add: core_def same_tables_def server.defs)
      moreover have "dm_history s7 = h'" "j_lastID (dm_jrn s7) = ?i" 
        "Waiting (dm_jrn s7) = Waiting (dm_jrn s) @ (if r_Queued rec then [item_of rec] else [])"
        "dm_popups s7 = dm_popups s @ (if pops_up (mode_of s) rec (dm_popups s) then [popup_of rec scr] else [])"
        using c7 d5 by (simp_all add: core_def)
      moreover have "r_ID rec = ?i" using rec by (simp add: numbered_record_def)
      ultimately have "r = Some ?i" "s' = s7"
        and "same_tables s' (fold Forget (if dm_serving s then gone else []) s) \<and> dm_history s' = h' \<and> j_lastID (dm_jrn s') = ?i
          \<and> Waiting (dm_jrn s') = Waiting (dm_jrn s) @ (if r_Queued rec then [item_of rec] else [])
          \<and> dm_popups s' = dm_popups s @ (if pops_up (mode_of s) rec (dm_popups s) then [popup_of rec scr] else [])"
        by simp_all
      then show ?thesis unfolding \<open>r = Some ?i\<close> option.case using h rec by blast
    qed
  qed
qed

lemma Closed_outcome:
  assumes "Closed out i s = (b, s')"
  shows "dm_history s' = snd (Attn_History.Dismiss i (dm_history s))" and "j_lastID (dm_jrn s') = j_lastID (dm_jrn s)"
    and "server.truncate s' = server.truncate s"
  using assms Done_apart
  by (auto simp: Closed_def Closed_op_def dismiss_in_history_def journalled_def with_journal_def server.defs split: if_splits prod.splits)
    (metis snd_conv)+

lemma tables_and_core:
  "dm_history (remember k i s) = dm_history s" "dm_jrn (remember k i s) = dm_jrn s"
  "dm_history (forget i s) = dm_history s" "dm_jrn (forget i s) = dm_jrn s"
  "dm_history (emitClosed i r s) = dm_history s" "dm_jrn (emitClosed i r s) = dm_jrn s"
  by (auto simp: remember_def forget_def emitClosed_def Let_def split: option.split)

lemma next_id: "(x :: 64 word) \<noteq> - 1 \<Longrightarrow> {i. i \<le> x + 1} = insert (x + 1) {i. i \<le> x}"
proof -
  assume x: "x \<noteq> - 1"
  have "unat (x + 1) = Suc (unat x)" using unatSuc[of x] word_succ[OF x] by (metis add.commute word_not_simps(1))
  then have "i \<le> x + 1 \<longleftrightarrow> i = x + 1 \<or> i \<le> x" for i by (metis le_Suc_eq word_le_nat_alt word_unat_eq_iff)
  then show ?thesis by auto
qed
  
interpretation dm: sink given_ids id_left daemon_ok "Closed out" "Arrived out" for out :: "'w outside"
proof unfold_locales
  fix s s' :: "'w daemon" and i b
  assume "daemon_ok s" "Closed out i s = (b, s')"
  then show "daemon_ok s' \<and> given_ids s' = given_ids s \<and> id_left s' = id_left s \<and> same_tables s' s"
    using Closed_outcome[of out i s b s'] Dismiss_ok by (simp add: daemon_ok_def given_ids_def id_left_def same_tables_def server.defs)
next
  fix s s' :: "'w daemon" and n
  assume "daemon_ok s" "id_left s" "n_Text n \<noteq> []" "Arrived out n s = (None, s')"
  then have "core s' = core s" using Arrived_outcome[of s n out None s'] by (simp add: daemon_ok_def id_left_def)
  then show "daemon_ok s' \<and> given_ids s' = given_ids s \<and> same_tables s' s"
    using \<open>daemon_ok s\<close> by (simp add: core_def daemon_ok_def given_ids_def same_tables_def server.defs)
next
  fix s s' :: "'w daemon" and n i
  assume a: "daemon_ok s" "id_left s" "n_Text n \<noteq> []" "Arrived out n s = (Some i, s')"
  obtain gone where g: "i = j_lastID (dm_jrn s) + 1" "hist_ok (dm_history s')" "j_lastID (dm_jrn s') = i"
      "same_tables s' (fold Forget (if dm_serving s then gone else []) s)"
    using Arrived_outcome[of s n out "Some i" s'] a by (auto simp: daemon_ok_def id_left_def)
  have "Forget = (forget :: _ \<Rightarrow> 'w daemon \<Rightarrow> _)" by (intro ext) (simp add: Forget_def)
  then show "daemon_ok s' \<and> i \<notin> given_ids s \<and> given_ids s' = insert i (given_ids s) \<and> (\<exists>gone. same_tables s' (fold forget gone s))"
    using g a(2) next_id[of "j_lastID (dm_jrn s)"] word_succ[of "j_lastID (dm_jrn s)"]
    by (auto simp: daemon_ok_def given_ids_def id_left_def not_le)
qed (simp_all add: daemon_ok_def given_ids_def id_left_def tables_and_core)

section \<open>Names stay with their items\<close>

text \<open>
  What can happen to a daemon that serves notifications: the calls of the bus, the requests
  that finish or press a notification, one of the desktop's own, and anything that touches
  neither the tables nor the history and takes no id back. A notification needs one of the
  \<open>2 ^ 64\<close> ids to be left.
\<close>

inductive bus_step :: "'w outside \<Rightarrow> unicode \<Rightarrow> 'w daemon \<Rightarrow> 'w daemon \<Rightarrow> bool" for out u where
  notified: "id_left s \<Longrightarrow> Notify u (Closed out) (Arrived out) sender app replaces summary body actions hints s = (r, s')
    \<Longrightarrow> bus_step out u s s'"
| taken_back: "CloseNotification (Closed out) sender i s = (b, s') \<Longrightarrow> bus_step out u s s'"
| reminded: "id_left s \<Longrightarrow> n_Text n \<noteq> [] \<Longrightarrow> Arrived out n s = (r, s') \<Longrightarrow> bus_step out u s s'"
| finished: "run (queueDone out asked) s = (r, s') \<Longrightarrow> bus_step out u s s'"
| emptied: "run (queueClear out) s = (r, s') \<Longrightarrow> bus_step out u s s'"
| pressed: "run (invoke out asked key) s = (r, s') \<Longrightarrow> bus_step out u s s'"
| elsewhere: "same_tables s' s \<Longrightarrow> dm_history s' = dm_history s \<Longrightarrow> given_ids s \<subseteq> given_ids s' \<Longrightarrow> bus_step out u s s'"

inductive bus_reached :: "'w outside \<Rightarrow> unicode \<Rightarrow> 'w daemon \<Rightarrow> bool" for out u where
  start: "sv_mine s = Map.empty \<Longrightarrow> sv_by s = (\<lambda>_. []) \<Longrightarrow> dm_history s = empty_history \<Longrightarrow> bus_reached out u s"
| step: "bus_reached out u s \<Longrightarrow> bus_step out u s s' \<Longrightarrow> bus_reached out u s'"

lemma served_when:
  assumes "dm.served s" and "same_tables s' s" and "hist_ok (dm_history s')" and "j_lastID (dm_jrn s) \<le> j_lastID (dm_jrn s')"
  shows "dm.served s'"
  by (rule dm.served_same[OF assms(1,2)]) (use assms(3,4) in \<open>auto simp: daemon_ok_def given_ids_def\<close>)

lemma served_hist: "dm.served s \<Longrightarrow> hist_ok (dm_history s)"
  by (simp add: dm.served_def daemon_ok_def)

lemma worldly_served: "worldly dm.served"
  unfolding worldly_def dm.served_def daemon_ok_def tables_ok_def held_def given_ids_def by simp

lemma served_ask [keeping]: "preserves dm.served (ask m)"
  by (rule keeps_ask[OF worldly_served])

lemma served_jrn: "dm.served s \<Longrightarrow> j_lastID (dm_jrn s) \<le> j_lastID j \<Longrightarrow> dm.served (s\<lparr>dm_jrn := j\<rparr>)"
  by (rule served_when) (simp_all add: same_tables_def served_hist[of s])

lemma served_Done [keeping]: "preserves dm.served (with_journal out (\<lambda>how. Done how i))"
  by (rule keeps_with_journal[OF worldly_served]) (simp add: served_jrn Done_apart)

lemma served_Clear [keeping]: "preserves dm.served (with_journal out Journal.Clear)"
  by (rule keeps_with_journal[OF worldly_served])
    (auto intro!: served_jrn simp: Clear_def Let_def recordLocked_def apply_entry_def kinds no_entry_def set_state_def split: outcome.split)

lemma served_settle [keeping]: "preserves dm.served (settle i)"
  unfolding settle_def dismiss_in_history_def tell_dismissed_def
proof (intro keeping keeps_change)
  fix s :: "'a daemon" assume "dm.served s"
  then show "dm.served (s\<lparr>dm_history := snd (Attn_History.Dismiss i (dm_history s))\<rparr>)"
    by (rule served_when) (simp_all add: same_tables_def Dismiss_ok[OF served_hist[OF \<open>dm.served s\<close>]])
next
  fix s :: "'a daemon" assume "dm.served s"
  then show "dm.served (if dm_serving s then Dismissed i s else s)" by (simp add: dm.Dismissed_served)
qed

lemma served_press [keeping]: "preserves dm.served (press out i key)"
  unfolding press_def
proof (intro keeping keeps_step)
  fix s :: "'a daemon" and b assume "dm.served s"
  then show "dm.served (snd (Invoke (\<lambda>_. b) i key s))"
    by (rule served_when) (auto simp: Invoke_def same_tables_def served_hist[OF \<open>dm.served s\<close>] split: option.split)
qed

lemma served_requests: "preserves dm.served (queueDone out asked)" "preserves dm.served (queueClear out)"
    "preserves dm.served (invoke out asked key)"
  unfolding queueDone_def queueClear_def invoke_def by (intro keeping)+

lemma bus_step_served: "bus_step out u s s' \<Longrightarrow> dm.served s \<Longrightarrow> dm.served s'"
proof (induction rule: bus_step.induct)
  case (notified s sender app replaces summary body actions hints r s')
  then show ?case by (meson dm.Notify_served)
next
  case (taken_back sender i s b s')
  then show ?case by (meson dm.CloseNotification_served)
next
  case (reminded s n r s')
  then have inv: "daemon_ok s" by (simp add: dm.served_def)
  show ?case
  proof (cases r)
    case None
    then show ?thesis
      using dm.arrived_fails[OF inv, of n out s'] reminded by (intro dm.served_same[of s s']) auto
  next
    case (Some i)
    then show ?thesis using dm.served_arrived(1)[of s n out i s'] reminded by simp
  qed
next
  case (elsewhere s' s)
  have "daemon_ok s'" using served_hist[OF elsewhere(4)] elsewhere(2) by (simp add: daemon_ok_def)
  then show ?case using dm.served_same[OF elsewhere(4,1)] elsewhere(3) by blast
qed (metis ensuresD served_requests)+

lemma start_served: "sv_mine s = Map.empty \<Longrightarrow> sv_by s = (\<lambda>_. []) \<Longrightarrow> dm_history s = empty_history \<Longrightarrow> dm.served s"
  by (simp add: dm.served_def daemon_ok_def tables_ok_def held_def empty_ok)

lemma bus_reached_served: "bus_reached out u s \<Longrightarrow> dm.served s"
  by (induction rule: bus_reached.induct) (auto intro: start_served bus_step_served)

lemma take_in_newest:
  assumes "hist_ok h" and "take_in n rec h = Some (gone, h')"
  obtains rest where "Recent h' = rec # rest" and "set rest \<subseteq> set (Recent h)"
proof -
  let ?h = "if n_Replaces n \<noteq> 0 then snd (remove (n_Replaces n) h) else h"
  have ok: "hist_ok ?h" using assms remove_ok[OF assms(1)] by simp
  have "add rec ?h = Some (gone, h')" using assms(2) by (simp add: take_in_def Attn_History.Replace_def Attn_History.Add_def split: if_splits)
  note n = add_newest[OF ok this]
  have "Recent h' = rec # map s_rec (filter (\<lambda>e. e \<in> set (entries (h_rings h'))) (newestFirst ?h))"
    by (simp add: Recent_def n)
  moreover have "set (newestFirst ?h) \<subseteq> set (newestFirst h)"
    using set_drop_first by (auto simp: remove_def entries_remove_in)
  then have "set (map s_rec (filter (\<lambda>e. e \<in> set (entries (h_rings h'))) (newestFirst ?h))) \<subseteq> set (Recent h)"
    by (auto simp: Recent_def)
  ultimately show thesis by (rule that)
qed

text \<open>C5: whatever comes off the bus, and whatever is asked of the daemon between, the two tables of the
  notification server stay two readings of one relation: a name found by a connection is its
  own, the item behind it was given out by this journal, and no item ever has more than two names,
  all of one connection.\<close>

theorem names_stay_with_their_items:
  assumes "bus_reached out u s"
  shows "(lookup_name k s = Some i \<longleftrightarrow> k \<in> set (sv_by s i))
    \<and> (lookup_name k s = Some i \<longrightarrow> senderOf i s = Some (fst k) \<and> i \<le> j_lastID (dm_jrn s))
    \<and> length (sv_by s i) \<le> 2"
proof -
  have s: "tables_ok s" "Attn_Server.held s \<subseteq> given_ids s" "length (sv_by s i) \<le> 2"
    using bus_reached_served[OF assms] by (auto simp: dm.served_def)
  note names = tables_okD(1)[OF s(1), of k i]
  moreover have "senderOf i s = Some (fst k) \<and> i \<le> j_lastID (dm_jrn s)" if "k \<in> set (sv_by s i)"
  proof -
    have "i \<in> Attn_Server.held s" using that by (auto simp: Attn_Server.held_def)
    then have "i \<in> given_ids s" using s(2) by blast
    then show ?thesis using senderOf_name[OF s(1) that] by (simp add: given_ids_def)
  qed
  ultimately show ?thesis using s(3) by (simp add: lookup_name_def)
qed

text \<open>C8: a notification is kept whatever the mode. When \<open>Arrived\<close> answers with an id it is the next one;
  the record with that id, the sender's text and the sender's name is on top of the history, above
  only records that were there; it is on the queue, last, exactly when the mode queues it and
  its sender has room; and a popup for it is sent only when the mode pops it, it is not private and
  the backlog has room. When \<open>Arrived\<close> answers with an error, nothing of this changed.\<close>

theorem arrival_is_kept:
  assumes "hist_ok (dm_history s)" and "id_left s" and "n_Text n \<noteq> []" and "Arrived out n s = (r, s')"
  shows "case r of
      None \<Rightarrow> dm_history s' = dm_history s \<and> Waiting (dm_jrn s') = Waiting (dm_jrn s) \<and> dm_popups s' = dm_popups s
    | Some i \<Rightarrow> i = j_lastID (dm_jrn s) + 1 \<and> (\<exists>rec rest scr.
        Recent (dm_history s') = rec # rest \<and> set rest \<subseteq> set (Recent (dm_history s))
      \<and> r_ID rec = i \<and> r_Text rec = n_Text n \<and> r_From rec = n_From n
      \<and> r_Queued rec = goes_on_queue (mode_of s) rec (Waiting (dm_jrn s))
      \<and> Waiting (dm_jrn s') = Waiting (dm_jrn s) @ (if r_Queued rec then [item_of rec] else [])
      \<and> dm_popups s' = dm_popups s @ (if pops_up (mode_of s) rec (dm_popups s) then [popup_of rec scr] else []))"
proof (cases r)
  case None
  then show ?thesis using Arrived_outcome[OF assms(1) _ assms(3,4)] assms(2) by (simp add: id_left_def core_def)
next
  case (Some i)
  obtain now on hidden rec gone scr where a: "i = j_lastID (dm_jrn s) + 1"
    "rec = numbered_record (mode_of s) (record_of n now on hidden) i (Waiting (dm_jrn s))"
    "take_in n rec (dm_history s) = Some (gone, dm_history s')"
    "Waiting (dm_jrn s') = Waiting (dm_jrn s) @ (if r_Queued rec then [item_of rec] else [])"
    "dm_popups s' = dm_popups s @ (if pops_up (mode_of s) rec (dm_popups s) then [popup_of rec scr] else [])"
    using Arrived_outcome[OF assms(1) _ assms(3,4)] assms(2) Some by (auto simp: id_left_def)
  obtain rest where r: "Recent (dm_history s') = rec # rest" "set rest \<subseteq> set (Recent (dm_history s))"
    by (rule take_in_newest[OF assms(1) a(3)])
  show ?thesis unfolding Some option.case
    using a r by (intro conjI exI[of _ rec] exI[of _ rest] exI[of _ scr]) (simp_all add: numbered_record_def record_of_def goes_on_queue_def)
qed

lemma started_reached: "bus_reached out u started"
  by (rule bus_reached.start) (simp_all add: started_at_def)

lemma names_stay_with_their_items_witness:
  "length (sv_by (snd (Notify ascii_unicode (Closed silent) (Arrived silent) '':1.7'' ''mail'' 0 ''hi'' [] [] Map.empty started)) 1) \<le> 2"
proof -
  let ?s = "snd (Notify ascii_unicode (Closed silent) (Arrived silent) '':1.7'' ''mail'' 0 ''hi'' [] [] Map.empty started)"
  have "id_left started" by (simp add: id_left_def started_at_def fresh_inv)
  then have "bus_reached silent ascii_unicode ?s"
    using bus_reached.step[OF started_reached bus_step.notified] by (metis prod.collapse)
  then show ?thesis using names_stay_with_their_items by blast
qed

definition a_reminder :: notification where
  "a_reminder = \<lparr>n_From = SelfFrom, n_Self = True, n_Text = ''tea'', n_Body = [], n_Urgent = False, n_Actions = [], n_Extra = 0, n_Replaces = 0\<rparr>"

lemma with_journal_written:
  assumes "\<And>w. fst (run (ot_disk out) w) = Written" and "run (with_journal out f) s = (x, s')"
  shows "x = fst (f Written (dm_jrn s))" and "dm_jrn s' = snd (f Written (dm_jrn s))" and "dm_history s' = dm_history s"
  using assms(1)[of "dm_world s"] assms(2) by (auto simp: with_journal_def split: prod.splits)

lemma Arrived_answers:
  assumes "dm_journalled s" and ok: "hist_ok (dm_history s)" and disk: "\<And>w. fst (run (ot_disk out) w) = Written"
  shows "\<exists>i s'. Arrived out n s = (Some i, s')"
proof -
  obtain on s1 where w: "run (whereWeAre out) s = (on, s1)" by fastforce
  obtain now s2 where t: "run (ask (ot_now out)) s1 = (now, s2)" by fastforce
  obtain hidden s3 where p: "run (privateArrival out on) s2 = (hidden, s3)" by fastforce
  have "core s3 = core s"
    using ensuresD[OF core_where _ w] ensuresD[OF core_ask _ t] ensuresD[OF core_private _ p] by simp
  then have h3: "dm_history s3 = dm_history s" by (simp add: core_def)
  let ?rec = "record_of n now on hidden"
  obtain r4 s4 where o: "run (offer_queue out (mode_of s3) ?rec) s3 = (r4, s4)" by fastforce
  have r4: "\<exists>rec. r4 = Inr rec" "dm_history s4 = dm_history s"
  proof -
    obtain x s0 where j: "run (with_journal out (\<lambda>how. Journal.Queue how (item_of (?rec\<lparr>r_ID := 0\<rparr>)))) s3 = (x, s0)" by fastforce
    note wj = with_journal_written[OF disk j]
    have "x \<noteq> Inl journal_error.WriteFailed"
      using roomFor_refusals unfolding wj(1) by (auto simp: Queue_def Let_def recordLocked_def split: option.split)
    then show "\<exists>rec. r4 = Inr rec" "dm_history s4 = dm_history s"
      using o j wj(3) h3 unfolding offer_queue_def item_of_def
      by (auto split: if_splits sum.splits journal_error.splits prod.splits)
  qed
  then obtain rec1 where r4: "r4 = Inr rec1" "dm_history s4 = dm_history s" by blast
  obtain r5 s5 where c: "run (claim_id out rec1) s4 = (r5, s5)" by fastforce
  have "\<exists>rec. r5 = Inr rec" "dm_history s5 = dm_history s"
  proof -
    obtain x s0 where j: "run (with_journal out (\<lambda>how. ClaimID how)) s4 = (x, s0)" by fastforce
    note wj = with_journal_written[OF disk j]
    have "x \<noteq> None" unfolding wj(1) by (auto simp: ClaimID_def Let_def recordLocked_def)
    then show "\<exists>rec. r5 = Inr rec" "dm_history s5 = dm_history s"
      using c j wj(3) r4(2) unfolding claim_id_def by (auto split: if_splits)
  qed
  then obtain rec where r5: "r5 = Inr rec" "dm_history s5 = dm_history s" by blast
  obtain gone h' where "take_in n rec (dm_history s5) = Some (gone, h')" "hist_ok h'"
    by (rule take_in_ok) (use ok r5 in auto)
  then have "run (into_history (n_Replaces n) rec) s5 = (Some gone, s5\<lparr>dm_history := h'\<rparr>)"
    by (simp add: into_history_def take_in_def)
  then show ?thesis
    using w t p o r4 c r5 assms(1) unfolding Arrived_def Arrived_op_def
    by (simp add: journalled_def mode_def del: run_ask split: prod.splits)
qed

lemma arrival_is_kept_witness:
  "map r_Text (Recent (dm_history (snd (Arrived silent a_reminder started)))) = [''tea'']"
proof -
  have s: "hist_ok (dm_history started)" "id_left started" "n_Text a_reminder \<noteq> []" "Recent (dm_history started) = []"
    by (simp_all add: started_at_def empty_ok id_left_def fresh_inv a_reminder_def) (simp add: empty_history_def Recent_def newestFirst_def)
  obtain i s' where "Arrived silent a_reminder started = (Some i, s')"
    using Arrived_answers[of started silent a_reminder] s(1) by (auto simp: started_at_def silent_def)
  then show ?thesis using arrival_is_kept [OF s(1-3), of silent "Some i" s'] s(4) by (auto simp: a_reminder_def)
qed

section \<open>Private unless it is proved public\<close>

text \<open>C27: a notification is treated as public only on evidence. When \<open>privateArrival\<close> answers no, either
  the desk is the regulars, or the desks directory was read without a single problem and it
  either declares this very desk and does not call it private, or declares no private desk at all.\<close>

theorem public_only_on_evidence:
  assumes "run (privateArrival out d) s = (False, s')"
  shows "d = Regulars \<or> (\<exists>all w. run (ot_desks out) (dm_world s) = (Inr (all, []), w)
    \<and> ((d \<noteq> [] \<and> (\<exists>m. map_of all d = Some m \<and> \<not> ds_private m)) \<or> (\<forall>(_, m) \<in> set all. \<not> ds_private m)))"
  using assms
  by (auto simp: privateArrival_def list_ex_iff rememberProblems_def couldNotPlace_def split: if_splits option.splits prod.splits sum.splits)

lemma public_only_on_evidence_witness:
  "''work'' = Regulars \<or> (\<exists>all w. run (ot_desks silent) (dm_world started) = (Inr (all, []), w)
    \<and> ((''work'' \<noteq> [] \<and> (\<exists>m. map_of all ''work'' = Some m \<and> \<not> ds_private m)) \<or> (\<forall>(_, m) \<in> set all. \<not> ds_private m)))"
proof -
  obtain s' where "run (privateArrival silent ''work'') started = (False, s')"
    by (simp add: privateArrival_def silent_def started_at_def Regulars_def rememberProblems_def)
  then show ?thesis by (rule public_only_on_evidence)
qed

end
