(* ===== verification/Zded_Loan.thy ===== *)
theory Zded_Loan
  imports Zded_Arrivals
begin

text \<open>
  The mode a desk borrows (\<open>enterDesk\<close> of \<open>internal/zded/attn.go\<close>): what it amounts to over a
  whole walk from desk to desk.
\<close>

section \<open>The loan, as a function\<close>

text \<open>
  Where a walk over desks that started with mode \<open>w\<close> and no loan can be: nothing lent and the
  mode it started with, or one desk's mode with \<open>w\<close> lent by it.
\<close>

definition walking :: "(string \<Rightarrow> string option) \<Rightarrow> string \<Rightarrow> string \<times> borrowed \<Rightarrow> bool" where
  "walking D w p \<longleftrightarrow>
     (b_Desk (snd p) = [] \<and> fst p = w)
   \<or> (b_Desk (snd p) \<noteq> [] \<and> b_Mode (snd p) = w \<and> D (b_Desk (snd p)) = Some (fst p))"

lemma walking_lend:
  assumes "walking D w (m, b)" and "t \<noteq> []" and "ParseMode w = Inr w"
  shows "walking D w (lend t (D t) m b) \<and> fst (lend t (D t) m b) = (case D t of None \<Rightarrow> w | Some d \<Rightarrow> d)"
  using assms by (auto simp: walking_def lend_def split: option.splits)

section \<open>The loan, in the daemon\<close>

definition loan_state :: "'w daemon \<Rightarrow> string \<times> borrowed" where
  "loan_state s = (mode_of s, st_Borrowed (State (dm_jrn s)))"

lemma run_with_journal_written:
  assumes "\<And>w. fst (run (ot_disk out) w) = Written"
  shows "\<exists>w. run (with_journal out f) s = (fst (f Written (dm_jrn s)), s\<lparr>dm_world := w, dm_jrn := snd (f Written (dm_jrn s))\<rparr>)"
  using assms[of "dm_world s"] by (auto simp: with_journal_def split: prod.split)

lemma mode_of_valid: "ParseMode (mode_of s) = Inr (mode_of s)"
  by (auto simp: mode_of_def modes ParseMode_idem ParseMode_def split: sum.split)

lemma core_declared: "preserves (\<lambda>s. core s = c) (declaredMode out t)"
  unfolding declaredMode_def manifestFor_def by (intro keeping)

lemma declared_valid: "run (declaredMode out t) s = (Some m, s') \<Longrightarrow> ParseMode m = Inr m"
  by (auto simp: declaredMode_def split: prod.splits option.splits if_splits sum.splits dest: ParseMode_idem)

lemma Set_apart:
  "State (snd (SetBorrowed Written b j)) = (State j)\<lparr>st_Borrowed := b\<rparr>"
  "State (snd (SetMode Written m j)) = (State j)\<lparr>st_Mode := m\<rparr>"
  by (simp_all add: SetBorrowed_def SetMode_def recordLocked_def apply_entry_def kinds no_entry_def set_state_def State_def)

lemma set_borrowed_run:
  assumes "\<And>w. fst (run (ot_disk out) w) = Written"
  shows "\<exists>s' x. run (if b \<noteq> st_Borrowed (State (dm_jrn s)) then with_journal out (\<lambda>how. SetBorrowed how b) else give True) s = (x, s')
    \<and> dm_journalled s' = dm_journalled s \<and> State (dm_jrn s') = (State (dm_jrn s))\<lparr>st_Borrowed := b\<rparr>"
  using run_with_journal_written[where f = "\<lambda>how. SetBorrowed how b", OF assms, of s] by (auto simp: Set_apart)

lemma enterDesk_lends:
  assumes disk: "\<And>w. fst (run (ot_disk out) w) = Written"
    and D: "\<And>s. fst (run (declaredMode out t) s) = D t"
    and j: "dm_journalled s" and run: "run (enterDesk out t) s = (x, s')"
    and valid: "ParseMode (fst (lend t (D t) (mode_of s) (st_Borrowed (State (dm_jrn s))))) = Inr (fst (lend t (D t) (mode_of s) (st_Borrowed (State (dm_jrn s)))))"
  shows "dm_journalled s' \<and> loan_state s' = lend t (D t) (mode_of s) (st_Borrowed (State (dm_jrn s)))"
proof -
  obtain s1 where d: "run (declaredMode out t) s = (D t, s1)" using D[of s] by (metis prod.collapse)
  have "core s1 = core s" using ensuresD[OF core_declared _ d] by simp
  then have s1: "dm_journalled s1" "mode_of s1 = mode_of s" "st_Borrowed (State (dm_jrn s1)) = st_Borrowed (State (dm_jrn s))"
    using j by (simp_all add: core_def mode_of_def)
  obtain now held where l: "lend t (D t) (mode_of s) (st_Borrowed (State (dm_jrn s))) = (now, held)" by fastforce
  obtain x2 s2 where b: "run (if held \<noteq> st_Borrowed (State (dm_jrn s)) then with_journal out (\<lambda>how. SetBorrowed how held) else give True) s1 = (x2, s2)"
      "dm_journalled s2" "State (dm_jrn s2) = (State (dm_jrn s1))\<lparr>st_Borrowed := held\<rparr>"
    using set_borrowed_run[OF disk, of held s1] s1 by auto
  have m2: "mode_of s2 = mode_of s" using s1 b(2,3) by (simp add: mode_of_def)
  have "run (enterDesk out t) s = (case run (if now \<noteq> mode_of s then with_journal out (\<lambda>how. SetMode how now) else give True) s2 of (_, s3) \<Rightarrow> ((), s3))"
    using j d l b(1) by (simp add: enterDesk_def journalled_def mode_def journal_state_def)
  then have s': "s' = snd (run (if now \<noteq> mode_of s then with_journal out (\<lambda>how. SetMode how now) else give True) s2)"
    using run by (metis (no_types, lifting) case_prod_beta snd_conv)
  show ?thesis
  proof (cases "now = mode_of s")
    case True
    then show ?thesis using s' b m2 l by (simp add: loan_state_def)
  next
    case False
    then have "dm_journalled s'" "State (dm_jrn s') = (State (dm_jrn s2))\<lparr>st_Mode := now\<rparr>"
      using s' b(2) run_with_journal_written[where f = "\<lambda>how. SetMode how now", OF disk, of s2] by (auto simp: Set_apart)
    then show ?thesis using b l valid by (simp add: loan_state_def mode_of_def)
  qed
qed

text \<open>C28: a borrowed mode is given back. From a state with no loan, whatever desks are entered one after
  the other, the mode ends as what the last of them declares, and as the mode it all started
  with when the last declares none, provided the journal's writes succeed and each desk's
  declaration stays what it is.\<close>

theorem loan_comes_back:
  assumes "\<And>w. fst (run (ot_disk out) w) = Written" and "\<And>t s. fst (run (declaredMode out t) s) = D t"
    and "dm_journalled s" and "b_Desk (st_Borrowed (State (dm_jrn s))) = []"
    and "[] \<notin> set ts" and "t \<noteq> []" and "run (every (enterDesk out) (ts @ [t])) s = (x, s')"
  shows "mode_of s' = (case D t of None \<Rightarrow> mode_of s | Some m \<Rightarrow> m)"
proof -
  have valid: "ParseMode m = Inr m" if "D u = Some m" for u m
    using declared_valid[of out u s m] assms(2)[of u s] that by (metis prod.collapse)
  have enter: "walking D w (loan_state s') \<and> dm_journalled s' \<and> mode_of s' = (case D u of None \<Rightarrow> w | Some m \<Rightarrow> m)"
    if "walking D w (loan_state s)" "ParseMode w = Inr w" "dm_journalled s" "u \<noteq> []" "run (enterDesk out u) s = (x, s')" for w s u x s'
  proof -
    note l = walking_lend[OF that(1)[unfolded loan_state_def] that(4,2)]
    have "ParseMode (fst (lend u (D u) (mode_of s) (st_Borrowed (State (dm_jrn s))))) = Inr (fst (lend u (D u) (mode_of s) (st_Borrowed (State (dm_jrn s)))))"
      using l that(2) valid[of u] by (simp split: option.split)
    note e = enterDesk_lends[of out u D, OF assms(1) assms(2) that(3,5) this]
    then have "mode_of s' = fst (lend u (D u) (mode_of s) (st_Borrowed (State (dm_jrn s))))" unfolding loan_state_def by (metis fst_conv)
    then show ?thesis using e l by simp
  qed
  have walk: "mode_of s' = (case D t of None \<Rightarrow> w | Some m \<Rightarrow> m)"
    if "walking D w (loan_state s)" "ParseMode w = Inr w" "dm_journalled s" "[] \<notin> set ts"
      "run (every (enterDesk out) (ts @ [t])) s = (x, s')" for w s
    using that
  proof (induction ts arbitrary: s)
    case Nil
    then show ?case using enter[OF Nil(1-3) assms(6)] by (auto split: prod.splits)
  next
    case (Cons u ts)
    obtain y s1 where u: "run (enterDesk out u) s = (y, s1)" by (meson surj_pair)
    have "u \<noteq> []" "[] \<notin> set ts" using Cons.prems(4) by auto
    have "run (every (enterDesk out) (ts @ [t])) s1 = (x, s')" using Cons.prems(5) u by simp
    then show ?case using enter[OF Cons.prems(1-3) \<open>u \<noteq> []\<close> u] Cons.IH[of s1] Cons.prems(2) \<open>[] \<notin> set ts\<close> by blast
  qed
  show ?thesis
    using walk[of "mode_of s" s] assms(3-7) by (simp add: walking_def loan_state_def mode_of_valid)
qed

definition hushed :: "unit outside" where
  "hushed = silent\<lparr>ot_desks := give (Inr ([(''film'', (new_desk ''film'' False)\<lparr>ds_policies := \<lparr>pl_attn = ''quiet'', pl_zen = False\<rparr>\<rparr>)], []))\<rparr>"

lemma loan_comes_back_witness:
  "mode_of (snd (run (every (enterDesk hushed) [''film'']) started)) = Quiet
   \<and> mode_of (snd (run (every (enterDesk hushed) [''film'', ''mail'']) started)) = Work"
proof -
  let ?D = "\<lambda>t. if t = ''film'' then Some Quiet else None"
  have d: "fst (run (declaredMode hushed t) s) = ?D t" for t s
    by (simp add: declaredMode_def manifestFor_def hushed_def silent_def rememberProblems_def ParseMode_def modes)
  have disk: "fst (run (ot_disk hushed) w) = Written" for w by (simp add: hushed_def silent_def)
  have start: "dm_journalled started" "b_Desk (st_Borrowed (State (dm_jrn started))) = []" "mode_of started = Work"
    by (simp_all add: started_at_def State_def fresh_def newState_def mode_of_def ParseMode_def)
  have walk: "mode_of (snd (run (every (enterDesk hushed) (ts @ [t])) started)) = (case ?D t of None \<Rightarrow> Work | Some m \<Rightarrow> m)"
    if "[] \<notin> set ts" "t \<noteq> []" for ts t
    using loan_comes_back [OF disk d start(1,2) that prod.collapse [symmetric]] start(3) by simp
  show ?thesis using walk[of "[]" "''film''"] walk[of "[''film'']" "''mail''"] by simp
qed
end
