(* ===== verification/Zded_Trace.thy ===== *)
theory Zded_Trace
  imports Zded_Panic Zded_Loan "HOL-Library.Sublist"
begin

text \<open>
  What the daemon asks of the compositor. Any world can be watched: \<open>recording\<close> is the same
  world with a list of the requests niri was sent beside it, and the rules here say which
  handlers send an action at all.
\<close>

section \<open>A world that is watched\<close>

definition beside :: "('w, 'a) op \<Rightarrow> ('w \<times> request list, 'a) op" where
  "beside m = step_op (\<lambda>(w, l). case run m w of (x, w') \<Rightarrow> (x, (w', l)))"

definition noting :: "request \<Rightarrow> ('w, 'a) op \<Rightarrow> ('w \<times> request list, 'a) op" where
  "noting req m = step_op (\<lambda>(w, l). case run m w of (x, w') \<Rightarrow> (x, (w', l @ [req])))"

definition recording :: "'w outside \<Rightarrow> ('w \<times> request list) outside" where
  "recording out =
     \<lparr>ot_unicode = ot_unicode out,
      ot_niri = \<lparr>nr_dial = beside (nr_dial (ot_niri out)), nr_exchange = (\<lambda>req. noting req (nr_exchange (ot_niri out) req))\<rparr>,
      ot_disk = beside (ot_disk out), ot_desks = beside (ot_desks out), ot_save = (\<lambda>d. beside (ot_save out d)),
      ot_now = beside (ot_now out), ot_surface = (\<lambda>ev. beside (ot_surface out ev)), ot_holds = (\<lambda>who. beside (ot_holds out who)),
      ot_rules = (\<lambda>t. beside (ot_rules out t)), ot_tell = (\<lambda>ev. beside (ot_tell out ev)), ot_sound = ot_sound out,
      ot_muted = beside (ot_muted out), ot_mute = (\<lambda>b. beside (ot_mute out b)), ot_decoy = beside (ot_decoy out),
      ot_ending = beside (ot_ending out), ot_launch = (\<lambda>a. beside (ot_launch out a))\<rparr>"

lemma recording_simps [simp]:
  "nr_dial (ot_niri (recording out)) = beside (nr_dial (ot_niri out))"
  "nr_exchange (ot_niri (recording out)) req = noting req (nr_exchange (ot_niri out) req)"
  "ot_unicode (recording out) = ot_unicode out" "ot_disk (recording out) = beside (ot_disk out)"
  "ot_desks (recording out) = beside (ot_desks out)" "ot_rules (recording out) t = beside (ot_rules out t)"
  "ot_ending (recording out) = beside (ot_ending out)" "ot_surface (recording out) ev = beside (ot_surface out ev)"
  by (simp_all add: recording_def)

definition actions :: "request list \<Rightarrow> niri_action list" where
  "actions l = concat (map (\<lambda>req. case req of Act a \<Rightarrow> [a] | Ask _ \<Rightarrow> []) l)"

lemma actions_simps [simp]: "actions [] = []" "actions (l @ k) = actions l @ actions k" "actions [Act a] = [a]" "actions [Ask q] = []"
  by (simp_all add: actions_def)

text \<open>What niri has been told to do.\<close>

definition acted :: "('w \<times> request list) daemon \<Rightarrow> niri_action list" where
  "acted s = actions (snd (dm_world s))"

abbreviation watched :: "niri_action list \<Rightarrow> 'w \<times> request list \<Rightarrow> bool" where
  "watched L \<equiv> \<lambda>w. actions (snd w) = L"

lemma keeps_beside [keeping]: "preserves (watched L) (beside m)"
  by (auto simp: ensures_def beside_def split: prod.split)

lemma keeps_asking [keeping]: "preserves (watched L) (noting (Ask q) m)"
  by (auto simp: ensures_def noting_def split: prod.split)

lemma keeps_questions [keeping]:
  "preserves (watched L) (DeskMap (ot_niri (recording out)))"
  "preserves (watched L) (FocusedName (ot_niri (recording out)))"
  "preserves (watched L) (FocusedOutput (ot_niri (recording out)))"
  "preserves (watched L) (FocusedPlace (ot_niri (recording out)))"
  "preserves (watched L) (FocusedWindow (ot_niri (recording out)))"
  "preserves (watched L) (EmptyByOutput (ot_niri (recording out)))"
  "preserves (watched L) (FirstApps (ot_niri (recording out)))"
  "preserves (watched L) (Niri.Windows (ot_niri (recording out)))"
  unfolding DeskMap_def niri_DeskMap_def FocusedName_def niri_FocusedName_def FocusedOutput_def niri_FocusedOutput_def
    FocusedPlace_def niri_FocusedPlace_def FocusedWindow_def niri_FocusedWindow_def EmptyByOutput_def niri_EmptyByOutput_def
    FirstApps_def niri_FirstApps_def Niri.Windows_def niri_OpenWindows_def niri_Workspaces_def niri_Screens_def niri_Windows_def
    dialled_def call_def recording_simps
  by (intro keeping)+

lemma act_told:
  assumes "run (dialled_act (ot_niri (recording out)) (Niri_Action (ot_niri (recording out)) a what)) w = (r, w')"
  shows "actions (snd w') = actions (snd w) \<and> r \<noteq> None \<or> actions (snd w') = actions (snd w) @ [a]"
  using assms
  by (auto simp: dialled_act_def Niri_Action_def call_def beside_def noting_def split: prod.splits option.splits sum.splits if_splits)

section \<open>In the daemon\<close>

abbreviation told :: "niri_action list \<Rightarrow> ('w \<times> request list) daemon \<Rightarrow> bool" where
  "told L \<equiv> \<lambda>s. acted s = L"

lemma told_ask [keeping]:
  assumes "preserves (watched L) m"
  shows "preserves (told L) (ask m)"
proof (rule ensuresI)
  fix s :: "('a \<times> request list) daemon" and x s'
  assume "told L s" "run (ask m) s = (x, s')"
  moreover obtain y w where m: "run m (dm_world s) = (y, w)" by (meson surj_pair)
  ultimately show "told L s'" using ensuresD[OF assms _ m] by (auto simp: acted_def)
qed

lemma told_change: "(\<And>s. dm_world (f s) = dm_world s) \<Longrightarrow> preserves (told L) (change f)"
  by (simp add: ensures_def acted_def)

lemma told_journal [keeping]: "preserves (told L) (with_journal (recording out) f)"
  unfolding with_journal_def recording_simps
  by (intro keeping keeps_step) (simp add: acted_def split: prod.split)

lemma told_noted [keeping]: "preserves (told L) (noted (recording out) f)"
  unfolding noted_def by (intro keeping)

lemma told_problems [keeping]: "preserves (told L) (rememberProblems ps)"
  unfolding rememberProblems_def by (rule told_change) simp

lemma told_where [keeping]:
  "preserves (told L) (activeDesk (recording out) m)" "preserves (told L) (deskOf (recording out) m f)"
  "preserves (told L) (whereWeAre (recording out))" "preserves (told L) (focused_output (recording out))"
  unfolding whereWeAre_def activeDesk_def deskOf_def focused_output_def by (intro keeping)+

lemma told_manifests [keeping]:
  "preserves (told L) (manifestFor (recording out) t)" "preserves (told L) (landingSlots (recording out) t)"
  "preserves (told L) (declaredMode (recording out) t)" "preserves (told L) (enterDesk (recording out) t)"
  "preserves (told L) (SyncRules (recording out))"
  unfolding landingSlots_def manifestFor_def declaredMode_def enterDesk_def SyncRules_def zenState_def recording_simps
  by (intro keeping)+

lemma told_start [keeping]: "preserves (told L) (startApps (recording out) t)"
  unfolding startApps_def claimLaunch_def recording_simps by (intro keeping told_change) simp_all

text \<open>An action either never left, and the handler has an error, or is the next thing niri was told.\<close>

lemma told_act:
  assumes "run (ask (dialled_act (ot_niri (recording out)) (Niri_Action (ot_niri (recording out)) a what))) s = (r, s')"
  shows "acted s' = acted s \<and> r \<noteq> None \<or> acted s' = acted s @ [a]"
  using act_told[of out a what "dm_world s"] assms by (auto simp: acted_def split: prod.splits)

lemmas told_actions =
  told_act[where a = "Focus_workspace n" and what = "''FocusWorkspace '' @ n" for n,
    folded niri_FocusWorkspace_def FocusWorkspace_def]
  told_act[where a = "Name_by_id i n" and what = "''SetWorkspaceName '' @ n" for i n,
    folded niri_SetWorkspaceNameByID_def SetWorkspaceNameByID_def]
  told_act[where a = "Name_by_name f t" and what = "''SetWorkspaceName '' @ t" for f t,
    folded niri_RenameWorkspace_def RenameWorkspace_def]
  told_act[where a = "Move_window n False" and what = "''MoveWindowToWorkspace '' @ n" for n,
    folded niri_MoveWindowToWorkspace_def MoveWindowToWorkspace_def]

section \<open>Rules for what comes back\<close>

lemma ensures_attempt:
  assumes "ensures P m (\<lambda>r s. case r of Inl e \<Rightarrow> R (fail e) s | Inr x \<Rightarrow> Q x s)" and "\<And>x. ensures (Q x) (f x) R"
  shows "ensures P (attempt m fail f) R"
  unfolding attempt_def
  by (rule ensures_bind[OF assms(1)]) (use assms(2) in \<open>auto simp: ensures_def split: sum.split\<close>)

lemma ensures_must:
  assumes "ensures P m (\<lambda>r s. case r of Some e \<Rightarrow> R (fail e) s | None \<Rightarrow> Q s)" and "ensures Q f R"
  shows "ensures P (must m fail f) R"
  unfolding must_def
  by (rule ensures_bind[OF assms(1)]) (use assms(2) in \<open>auto simp: ensures_def split: option.split\<close>)

lemma ensures_any: "(\<And>y. ensures (P y) m Q) \<Longrightarrow> ensures (\<lambda>s. \<exists>y. P y s) m Q"
  by (auto simp: ensures_def)

lemma ensures_then: "preserves P m \<Longrightarrow> (\<And>x. ensures P (f x) R) \<Longrightarrow> ensures P (m \<bind> f) R"
  by (rule ensures_bind)

lemma ensures_fact: "(C \<Longrightarrow> ensures P m Q) \<Longrightarrow> ensures (\<lambda>s. P s \<and> C) m Q"
  by (auto simp: ensures_def)

lemma ensures_give: "(\<And>s. P s \<Longrightarrow> Q x s) \<Longrightarrow> ensures P (give x) Q"
  by (simp add: ensures_def)

lemma ensures_if: "(b \<Longrightarrow> ensures P m Q) \<Longrightarrow> (\<not> b \<Longrightarrow> ensures P n Q) \<Longrightarrow> ensures P (if b then m else n) Q"
  by simp

text \<open>The map a handler works on is one that niri's workspaces and screens make.\<close>

lemma DeskMap_made: "run (DeskMap c) w = (Inr m, w') \<Longrightarrow> \<exists>ws scr. m = Rebuild ws scr"
  by (auto simp: DeskMap_def dialled_def niri_DeskMap_def split: prod.splits option.splits sum.splits)

lemma map_told:
  "ensures (told L) (ask (DeskMap (ot_niri (recording out))))
     (\<lambda>r s. case r of Inl _ \<Rightarrow> told L s | Inr m \<Rightarrow> told L s \<and> (\<exists>ws scr. m = Rebuild ws scr))"
proof (rule ensuresI)
  fix s s' :: "('a \<times> request list) daemon" and r
  assume t: "told L s" and r: "run (ask (DeskMap (ot_niri (recording out)))) s = (r, s')"
  have "told L s'" by (rule ensuresD[OF told_ask[OF keeps_questions(1)] t r])
  moreover have "\<exists>ws scr. m = Rebuild ws scr" if "r = Inr m" for m
    using r that DeskMap_made by (auto split: prod.splits)
  ultimately show "case r of Inl _ \<Rightarrow> told L s' | Inr m \<Rightarrow> told L s' \<and> (\<exists>ws scr. m = Rebuild ws scr)"
    by (simp split: sum.split)
qed

definition name_it :: "adoption \<Rightarrow> niri_action" where
  "name_it a = Name_by_id (Ad_ID a) (String (Ad_Name a))"

definition focus_on :: "name \<Rightarrow> niri_action" where "focus_on n = Focus_workspace (String n)"

section \<open>A session to try it on\<close>

text \<open>One screen with one workspace, named and focused, and a compositor that does what it is told.\<close>

definition one_screen :: "unit niri" where
  "one_screen = \<lparr>nr_dial = give None, nr_exchange = (\<lambda>req. give (Inr \<lparr>rp_Ok = Some (case req of
       Act _ \<Rightarrow> Word ''Handled''
     | Ask what \<Rightarrow>
         if what = ''Workspaces'' then Workspaces_payload
           [\<lparr>nw_ID = 1, nw_Idx = 1, nw_Name = Some ''work.DP-1.code'', nw_Output = Some ''DP-1'', nw_Active = True, nw_Focused = True\<rparr>]
         else if what = ''Outputs'' then Outputs_payload [(''DP-1'', \<lparr>ou_Name = ''DP-1'', ou_Logical = True\<rparr>)]
         else Windows_payload []), rp_Err = None\<rparr>))\<rparr>"

definition session :: "unit outside" where "session = silent\<lparr>ot_niri := one_screen\<rparr>"

abbreviation fresh_start :: "(unit \<times> request list) daemon" where "fresh_start \<equiv> started_at ((), [])"

lemma fresh_start_acted [simp]: "acted fresh_start = []"
  by (simp add: acted_def started_at_def)

section \<open>Making what is declared\<close>

text \<open>A name handed out by the loop is declared, on an empty workspace niri offered, and on no workspace of the desk yet.\<close>

definition declared_gap :: "name list \<Rightarrow> adoption \<Rightarrow> bool" where
  "declared_gap want a \<longleftrightarrow> Ad_Name a \<in> set want
     \<and> (\<exists>ws scr free. Ad_ID a \<in> set (free (monitor (Ad_Name a)))
        \<and> String (Ad_Name a) \<notin> String ` set (Desk_Map.Workspaces (Rebuild ws scr) (desk (hd want))))"

lemma first_missing:
  assumes "MissingPlan (Rebuild ws scr) want free = (a # as, nowhere)"
  shows "declared_gap want a"
proof -
  have want: "want \<noteq> []" using assms by (auto simp: MissingPlan_def)
  note safe = MissingPlan_safe[OF assms want]
  obtain k where "map Ad_ID (filter (\<lambda>b. monitor (Ad_Name b) = monitor (Ad_Name a)) (a # as)) = take k (free (monitor (Ad_Name a)))"
    using safe by blast
  then have "Ad_ID a \<in> set (take k (free (monitor (Ad_Name a))))" by (metis (mono_tags, lifting) filter.simps(2) list.set_intros(1) list.simps(9))
  then have "Ad_ID a \<in> set (free (monitor (Ad_Name a)))" by (meson in_set_takeD)
  then show ?thesis using safe unfolding declared_gap_def by auto
qed

text \<open>What an action leaves, as a triple: told or refused before it was told.\<close>

lemma act_triples:
  "ensures (told L) (ask (SetWorkspaceNameByID (ot_niri (recording out)) i n)) (\<lambda>r s. told L s \<and> r \<noteq> None \<or> told (L @ [Name_by_id i n]) s)"
  "ensures (told L) (ask (RenameWorkspace (ot_niri (recording out)) f n)) (\<lambda>r s. told L s \<and> r \<noteq> None \<or> told (L @ [Name_by_name f n]) s)"
  "ensures (told L) (ask (FocusWorkspace (ot_niri (recording out)) n)) (\<lambda>r s. told L s \<and> r \<noteq> None \<or> told (L @ [Focus_workspace n]) s)"
  "ensures (told L) (ask (MoveWindowToWorkspace (ot_niri (recording out)) n)) (\<lambda>r s. told L s \<and> r \<noteq> None \<or> told (L @ [Move_window n False]) s)"
  by (rule ensuresI, drule told_actions, auto)+

lemma ensure_loop_told:
  "ensures (told L) (ensure_loop (recording out) want rounds waiting)
     (\<lambda>r s. \<exists>named. told (L @ map name_it named) s \<and> length named \<le> length rounds \<and> list_all (declared_gap want) named)"
proof (induction rounds arbitrary: L waiting)
  case Nil
  then show ?case by (auto intro!: ensures_give exI[of _ "[]"])
next
  case (Cons x rounds)
  let ?R = "\<lambda>(r :: complaint + name list) s. \<exists>named. told (L @ map name_it named) s \<and> length named \<le> length (x # rounds) \<and> list_all (declared_gap want) named"
  have stop: "?R r s" if "told L s" for r and s using that by (intro exI[of _ "[]"]) simp
  have more: "ensures (told (L @ [name_it a])) (ensure_loop (recording out) want rounds w) ?R" if "declared_gap want a" for a w
  proof (rule ensures_mono[OF Cons.IH])
    fix r s assume "\<exists>named. told ((L @ [name_it a]) @ map name_it named) s \<and> length named \<le> length rounds \<and> list_all (declared_gap want) named"
    then obtain named where "told ((L @ [name_it a]) @ map name_it named) s" "length named \<le> length rounds" "list_all (declared_gap want) named"
      by blast
    then show "?R r s" using that by (intro exI[of _ "a # named"]) simp
  qed
  show ?case
    unfolding ensure_loop.simps
  proof (rule ensures_attempt[OF ensures_mono[OF map_told]])
    fix m
    show "ensures (\<lambda>s. told L s \<and> (\<exists>ws scr. m = Rebuild ws scr))
        (attempt (ask (EmptyByOutput (ot_niri (recording out)))) (\<lambda>e. Inl (From_niri e)) (\<lambda>free.
          case MissingPlan m want free of ([], nowhere) \<Rightarrow> give (Inr nowhere)
          | (a # as, nowhere) \<Rightarrow> must (ask (SetWorkspaceNameByID (ot_niri (recording out)) (Ad_ID a) (String (Ad_Name a))))
              (\<lambda>e. Inl (Creating (String (Ad_Name a)) e)) (ensure_loop (recording out) want rounds nowhere))) ?R"
    proof (rule ensures_fact, elim exE)
      fix ws scr assume m: "m = Rebuild ws scr"
      show "ensures (told L) (attempt (ask (EmptyByOutput (ot_niri (recording out)))) (\<lambda>e. Inl (From_niri e)) (\<lambda>free.
          case MissingPlan m want free of ([], nowhere) \<Rightarrow> give (Inr nowhere)
          | (a # as, nowhere) \<Rightarrow> must (ask (SetWorkspaceNameByID (ot_niri (recording out)) (Ad_ID a) (String (Ad_Name a))))
              (\<lambda>e. Inl (Creating (String (Ad_Name a)) e)) (ensure_loop (recording out) want rounds nowhere))) ?R"
      proof (rule ensures_attempt[where Q = "\<lambda>_. told L"])
        fix free
        show "ensures (told L) (case MissingPlan m want free of ([], nowhere) \<Rightarrow> give (Inr nowhere)
          | (a # as, nowhere) \<Rightarrow> must (ask (SetWorkspaceNameByID (ot_niri (recording out)) (Ad_ID a) (String (Ad_Name a))))
              (\<lambda>e. Inl (Creating (String (Ad_Name a)) e)) (ensure_loop (recording out) want rounds nowhere)) ?R"
        proof (cases "MissingPlan m want free")
          case (Pair plan nowhere)
          show ?thesis
          proof (cases plan)
            case Nil
            then show ?thesis using Pair stop by (auto intro!: ensures_give)
          next
            case (Cons a as)
            then have gap: "declared_gap want a" using first_missing Pair m by blast
            have "ensures (told L) (must (ask (SetWorkspaceNameByID (ot_niri (recording out)) (Ad_ID a) (String (Ad_Name a))))
              (\<lambda>e. Inl (Creating (String (Ad_Name a)) e)) (ensure_loop (recording out) want rounds nowhere)) ?R"
            proof (rule ensures_must[OF ensures_mono[OF act_triples(1)] more[OF gap]])
              fix r :: "string option" and s assume "told L s \<and> r \<noteq> None \<or> told (L @ [Name_by_id (Ad_ID a) (String (Ad_Name a))]) s"
              then show "case r of Some e \<Rightarrow> ?R (Inl (Creating (String (Ad_Name a)) e)) s | None \<Rightarrow> told (L @ [name_it a]) s"
              proof (elim disjE conjE)
                assume "told L s" "r \<noteq> None"
                then show ?thesis using stop by (auto split: option.split)
              next
                assume now: "told (L @ [Name_by_id (Ad_ID a) (String (Ad_Name a))]) s"
                then have "?R y s" for y using gap by (intro exI[of _ "[a]"]) (simp add: name_it_def)
                then show ?thesis using now by (simp add: name_it_def split: option.split)
              qed
            qed
            then show ?thesis using Pair Cons by simp
          qed
        qed
      qed (rule ensures_mono[OF told_ask[OF keeps_questions(6)]], use stop in \<open>simp split: sum.split\<close>)
    qed
  qed (use stop in \<open>auto split: sum.splits\<close>)
qed

text \<open>What the manifest of a desk declares, as the directory reads at the moment.\<close>

definition declared_for :: "'w outside \<Rightarrow> string \<Rightarrow> 'w \<Rightarrow> name list" where
  "declared_for out target w =
     (case fst (run (ot_desks out) w) of
        Inl _ \<Rightarrow> []
      | Inr (all, _) \<Rightarrow> (case map_of all target of None \<Rightarrow> [] | Some d \<Rightarrow> declared_workspaces d))"

definition made_for :: "'w outside \<Rightarrow> string \<Rightarrow> 'w \<Rightarrow> adoption list \<Rightarrow> bool" where
  "made_for out target w named \<longleftrightarrow>
     length named \<le> length (declared_for out target w) \<and> list_all (declared_gap (declared_for out target w)) named"

lemma made_none [simp]: "made_for out target w []"
  by (simp add: made_for_def)

lemma ensureDeclared_told:
  "ensures (\<lambda>s. told L s \<and> fst (dm_world s) = w) (ensureDeclared (recording out) target)
     (\<lambda>r s. \<exists>named. told (L @ map name_it named) s \<and> made_for out target w named)"
  (is "ensures ?P _ ?R")
  unfolding ensureDeclared_def
proof (rule ensures_attempt[where Q = "\<lambda>x s. told L s \<and> fst (run (ot_desks out) w) = Inr x"])
  have stop: "?R r s" if "told L s" for r :: "complaint + name list" and s using that by (intro exI[of _ "[]"]) simp
  show "ensures ?P (ask (ot_desks (recording out)))
      (\<lambda>r s. case r of Inl e \<Rightarrow> ?R (Inl (From_desks e)) s | Inr x \<Rightarrow> told L s \<and> fst (run (ot_desks out) w) = Inr x)"
    by (auto simp: ensures_def acted_def beside_def intro!: exI[of _ "[]"] split: prod.split sum.split)
  fix x :: "(string \<times> desk_manifest) list \<times> problem list"
  obtain all problems where x: "x = (all, problems)" by fastforce
  show "ensures (\<lambda>s. told L s \<and> fst (run (ot_desks out) w) = Inr x) (case x of (all, problems) \<Rightarrow>
      rememberProblems problems \<bind> (\<lambda>_. case map_of all target of None \<Rightarrow> give (Inr [])
      | Some declared \<Rightarrow> let want = declared_workspaces declared in ensure_loop (recording out) want want [])) ?R"
    unfolding x prod.case
  proof (rule ensures_fact, rule ensures_then[OF told_problems])
    assume r: "fst (run (ot_desks out) w) = Inr (all, problems)"
    show "ensures (told L) (case map_of all target of None \<Rightarrow> give (Inr [])
      | Some declared \<Rightarrow> let want = declared_workspaces declared in ensure_loop (recording out) want want []) ?R"
    proof (cases "map_of all target")
      case None
      then show ?thesis using stop by (auto intro!: ensures_give)
    next
      case (Some d)
      then have "declared_for out target w = declared_workspaces d" using r by (simp add: declared_for_def)
      then have "ensures (told L) (ensure_loop (recording out) (declared_workspaces d) (declared_workspaces d) []) ?R"
        by (intro ensures_mono[OF ensure_loop_told]) (auto simp: made_for_def)
      then show ?thesis using Some by (simp add: Let_def)
    qed
  qed
qed



section \<open>Switching\<close>

text \<open>A loop that tells niri one thing per element and stops at the first failure.\<close>

lemma each_told:
  assumes f: "\<And>x L. ensures (told L) (f x) (\<lambda>r s. told L s \<and> r \<noteq> None \<or> told (L @ [tells x]) s)"
  shows "ensures (told L) (each f xs) (\<lambda>r s. \<exists>acted_on. told (L @ map tells acted_on) s \<and> prefix acted_on xs \<and> (r = None \<longrightarrow> acted_on = xs))"
proof (induction xs arbitrary: L)
  case Nil
  then show ?case by (auto intro!: ensures_give)
next
  case (Cons x xs)
  let ?R = "\<lambda>r s. \<exists>acted_on. told (L @ map tells acted_on) s \<and> prefix acted_on (x # xs) \<and> (r = None \<longrightarrow> acted_on = x # xs)"
  have more: "ensures (told (L @ [tells x])) (each f xs) ?R"
  proof (rule ensures_mono[OF Cons.IH])
    fix r s assume "\<exists>acted_on. told ((L @ [tells x]) @ map tells acted_on) s \<and> prefix acted_on xs \<and> (r = None \<longrightarrow> acted_on = xs)"
    then obtain acted_on where "told ((L @ [tells x]) @ map tells acted_on) s" "prefix acted_on xs" "r = None \<longrightarrow> acted_on = xs" by blast
    then show "?R r s" by (intro exI[of _ "x # acted_on"]) simp
  qed
  show ?case
    unfolding each.simps
  proof (rule ensures_bind[OF f])
    fix r
    have "?R (Some e) s" if "told L s \<or> told (L @ [tells x]) s" for e s
      using that by (elim disjE) (rule exI[of _ "[]"], simp, rule exI[of _ "[x]"], simp)
    then show "ensures (\<lambda>s. told L s \<and> r \<noteq> None \<or> told (L @ [tells x]) s) (case r of None \<Rightarrow> each f xs | Some e \<Rightarrow> give (Some e)) ?R"
      using more by (auto intro!: ensures_give split: option.split)
  qed
qed

lemma each_focus_told:
  "ensures (told L) (each (\<lambda>n. ask (FocusWorkspace (ot_niri (recording out)) (String n))) plan)
     (\<lambda>r s. \<exists>focused. told (L @ map focus_on focused) s \<and> prefix focused plan \<and> (r = None \<longrightarrow> focused = plan))"
  by (rule each_told, unfold focus_on_def, rule act_triples(3))

definition switched :: "'w outside \<Rightarrow> string \<Rightarrow> 'w \<Rightarrow> niri_action list \<Rightarrow> response \<Rightarrow> ('w \<times> request list) daemon \<Rightarrow> bool" where
  "switched out target w L resp s \<longleftrightarrow>
     (\<exists>named focused ws scr slots. told (L @ map name_it named @ map focus_on focused) s
        \<and> made_for out target w named
        \<and> prefix focused (SwitchPlan (Rebuild ws scr) target slots)
        \<and> (\<forall>r. rs_result resp = Inr r \<longrightarrow> focused = SwitchPlan (Rebuild ws scr) target slots
             \<and> focused \<noteq> [] \<and> r = Names (map String focused)))"

lemma switched_refused: "told (L @ map name_it named) s \<Longrightarrow> made_for out target w named \<Longrightarrow> switched out target w L (refuse e) s"
  unfolding switched_def by (rule exI[of _ named], rule exI[of _ "[]"]) (simp add: refuse_def)

lemma told_settled [keeping]: "preserves (told L) (settled_on (recording out) target was origin plan)"
  unfolding settled_on_def by (intro keeping)

lemma switch_over_told:
  assumes m: "m = Rebuild ws scr" and named: "made_for out target w named"
  shows "ensures (told (L @ map name_it named)) (switch_over (recording out) target from_desk was waiting m) (switched out target w L)"
  unfolding switch_over_def Let_def
proof (rule ensures_then, intro keeping, rule ensures_if)
  fix slots
  show "ensures (told (L @ map name_it named)) (give (refuse (No_such_band target))) (switched out target w L)"
    by (rule ensures_give) (rule switched_refused[OF _ named])
next
  fix slots
  let ?plan = "SwitchPlan m target slots" and ?K = "L @ map name_it named"
  assume p: "?plan \<noteq> []"
  have at: "switched out target w L resp s" if "told (?K @ map focus_on focused) s" "prefix focused ?plan"
      "\<And>r. rs_result resp = Inr r \<Longrightarrow> focused = ?plan \<and> r = Names (map String focused)" for focused resp s
    unfolding switched_def using that named m p
    by (intro exI[of _ named] exI[of _ focused] exI[of _ ws] exI[of _ scr] exI[of _ slots]) auto
  have rest: "ensures (told (?K @ map focus_on ?plan)) (settled_on (recording out) target was origin ?plan \<bind>
      (\<lambda>_. give ((ok (Names (map String ?plan)))\<lparr>rs_note := waitingNote (ot_unicode (recording out)) waiting\<rparr>))) (switched out target w L)" for origin
    by (rule ensures_then, intro keeping, rule ensures_give, erule at) (auto simp: ok_def)
  have stopped: "case r of Some e \<Rightarrow> switched out target w L (refuse (Switching target e)) s | None \<Rightarrow> told (?K @ map focus_on ?plan) s"
    if "\<exists>focused. told (?K @ map focus_on focused) s \<and> prefix focused ?plan \<and> (r = None \<longrightarrow> focused = ?plan)" for r :: "string option" and s
    using that at by (force simp: refuse_def split: option.split)
  show "ensures (told ?K) ((if from_desk = [] then activeDesk (recording out) m else give from_desk) \<bind> (\<lambda>origin.
      must (each (\<lambda>n. ask (FocusWorkspace (ot_niri (recording out)) (String n))) ?plan) (\<lambda>e. refuse (Switching target e))
        (settled_on (recording out) target was origin ?plan \<bind> (\<lambda>_.
          give ((ok (Names (map String ?plan)))\<lparr>rs_note := waitingNote (ot_unicode (recording out)) waiting\<rparr>)))))
    (switched out target w L)"
    by (rule ensures_then, intro keeping, rule ensures_must[OF ensures_mono[OF each_focus_told stopped] rest])
qed

lemma switchFrom_told:
  "ensures (\<lambda>s. told L s \<and> fst (dm_world s) = w) (switchFrom (recording out) target origin) (switched out target w L)"
  unfolding switchFrom_def
proof (rule ensures_then, simp add: journalled_def keeps_look, rule ensures_then, simp add: journal_state_def keeps_look,
    rule ensures_attempt[OF ensures_mono[OF ensureDeclared_told]])
  fix r :: "complaint + name list" and s :: "('a \<times> request list) daemon"
  assume "\<exists>named. told (L @ map name_it named) s \<and> made_for out target w named"
  then show "case r of Inl e \<Rightarrow> switched out target w L (refuse e) s
      | Inr _ \<Rightarrow> \<exists>named. told (L @ map name_it named) s \<and> made_for out target w named"
    using switched_refused by (force split: sum.split)
next
  fix jrn st waiting
  show "ensures (\<lambda>s. \<exists>named. told (L @ map name_it named) s \<and> made_for out target w named)
    (attempt (ask (DeskMap (ot_niri (recording out)))) (\<lambda>e. refuse (From_niri e))
      (\<lambda>m. switch_over (recording out) target origin (if jrn then st_OnDesk st else []) waiting m)) (switched out target w L)"
  proof (rule ensures_any, rule ensures_fact, rule ensures_attempt[OF ensures_mono[OF map_told]])
    fix named and r :: "string + desk_map" and s :: "('a \<times> request list) daemon" assume named: "made_for out target w named"
    assume "case r of Inl _ \<Rightarrow> told (L @ map name_it named) s | Inr m \<Rightarrow> told (L @ map name_it named) s \<and> (\<exists>ws scr. m = Rebuild ws scr)"
    then show "case r of Inl e \<Rightarrow> switched out target w L (refuse (From_niri e)) s
      | Inr m \<Rightarrow> told (L @ map name_it named) s \<and> (\<exists>ws scr. m = Rebuild ws scr)"
      using switched_refused[OF _ named] by (auto split: sum.splits)
  next
    fix named m assume named: "made_for out target w named"
    show "ensures (\<lambda>s. told (L @ map name_it named) s \<and> (\<exists>ws scr. m = Rebuild ws scr))
      (switch_over (recording out) target origin (if jrn then st_OnDesk st else []) waiting m) (switched out target w L)"
      by (rule ensures_fact, elim exE, erule switch_over_told, rule named)
  qed
qed



section \<open>Reconciling\<close>

definition move_it :: "rename \<Rightarrow> niri_action" where "move_it r = Name_by_name (String (From r)) (String (To r))"

lemma told_once:
  assumes a: "ensures (told L) m (\<lambda>r s. told L s \<and> r \<noteq> None \<or> told (L @ [a]) s)"
    and f: "\<And>L. ensures (told L) f (\<lambda>r s. told L s \<and> r = None)"
  shows "ensures (told L) (must m (\<lambda>e. Some (g e)) f) (\<lambda>r s. told L s \<and> r \<noteq> None \<or> told (L @ [a]) s)"
  unfolding must_def
proof (rule ensures_bind[OF a])
  fix r
  show "ensures (\<lambda>s. told L s \<and> r \<noteq> None \<or> told (L @ [a]) s) (case r of Some e \<Rightarrow> give (Some (g e)) | None \<Rightarrow> f)
      (\<lambda>r s. told L s \<and> r \<noteq> None \<or> told (L @ [a]) s)"
  proof (cases r)
    case None
    have "ensures (told (L @ [a])) f (\<lambda>r s. told L s \<and> r \<noteq> None \<or> told (L @ [a]) s)"
      by (rule ensures_mono[OF f]) simp
    then show ?thesis using None by simp
  next
    case (Some e)
    then show ?thesis by (auto intro!: ensures_give)
  qed
qed

lemma told_none: "(\<And>L. preserves (told L) m) \<Longrightarrow> ensures (told L) (do { _ \<leftarrow> m; give None }) (\<lambda>r s. told L s \<and> r = None)"
  by (rule ensures_then) (auto intro!: ensures_give)

lemma rename_one_told: "ensures (told L) (rename_one (recording out) r) (\<lambda>e s. told L s \<and> e \<noteq> None \<or> told (L @ [move_it r]) s)"
  unfolding rename_one_def move_it_def by (rule told_once[OF act_triples(2) told_none]) (intro keeping)

lemma adopt_one_told: "ensures (told L) (adopt_one (recording out) active a) (\<lambda>e s. told L s \<and> e \<noteq> None \<or> told (L @ [name_it a]) s)"
  unfolding adopt_one_def name_it_def by (rule told_once[OF act_triples(1)]) (auto intro!: ensures_give)

text \<open>Where a reconcile leaves niri, and what its answer then is.\<close>

definition reconciled :: "'w outside \<Rightarrow> niri_action list \<Rightarrow> response \<Rightarrow> ('w \<times> request list) daemon \<Rightarrow> bool" where
  "reconciled out L resp s \<longleftrightarrow>
     (\<exists>moved adopted ws scr active firstApp. told (L @ map move_it moved @ map name_it adopted) s
        \<and> prefix moved (renames (Rebuild ws scr))
        \<and> prefix adopted (AdoptPlan (ot_unicode out) (Rebuild ws scr) active firstApp)
        \<and> (adopted \<noteq> [] \<longrightarrow> active \<noteq> [] \<and> moved = renames (Rebuild ws scr))
        \<and> (\<forall>r. rs_result resp = Inr r \<longrightarrow> moved = renames (Rebuild ws scr)
             \<and> (active \<noteq> [] \<longrightarrow> adopted = AdoptPlan (ot_unicode out) (Rebuild ws scr) active firstApp)
             \<and> r = Reconciled_is (renamed_lines (Rebuild ws scr)) (map (\<lambda>a. String (Ad_Name a)) adopted)
                 (conflict_lines (ot_unicode out) (Rebuild ws scr))))"

lemma reconciled_refused:
  "told (L @ map move_it moved) s \<Longrightarrow> prefix moved (renames (Rebuild ws scr)) \<Longrightarrow> reconciled out L (refuse e) s"
  unfolding reconciled_def by (rule exI[of _ moved], rule exI[of _ "[]"], rule exI[of _ ws], rule exI[of _ scr]) (simp add: refuse_def)

lemma adopt_all_told:
  assumes m: "m = Rebuild ws scr"
  shows "ensures (told (L @ map move_it (renames m))) (adopt_all (recording out) m active) (reconciled out L)"
  (is "ensures (told ?K) _ _")
proof (cases "active = []")
  case True
  then have "reconciled out L (ok (Reconciled_is (renamed_lines m) [] (conflict_lines (ot_unicode out) m))) s" if "told ?K s" for s
    unfolding reconciled_def using that m
    by (intro exI[of _ "renames m"] exI[of _ "[]"] exI[of _ ws] exI[of _ scr] exI[of _ active] exI[of _ Map.empty]) (simp add: ok_def)
  then show ?thesis using True by (auto intro!: ensures_give simp: adopt_all_def)
next
  case False
  have refused: "reconciled out L (refuse e) s" if "told ?K s" for e s
    by (rule reconciled_refused[where moved = "renames m" and ws = ws and scr = scr]) (use that m in simp_all)
  have "ensures (told ?K) (must (each (adopt_one (recording out) active) plan) refuse
      (give (ok (Reconciled_is (renamed_lines m) (map (\<lambda>a. String (Ad_Name a)) plan) (conflict_lines (ot_unicode out) m))))) (reconciled out L)"
    if plan: "plan = AdoptPlan (ot_unicode out) m active firstApp" for plan firstApp
  proof (rule ensures_must[OF ensures_mono[OF each_told[OF adopt_one_told]]])
    fix r :: "complaint option" and s :: "('a \<times> request list) daemon"
    assume "\<exists>adopted. told (?K @ map name_it adopted) s \<and> prefix adopted plan \<and> (r = None \<longrightarrow> adopted = plan)"
    then obtain adopted where a: "told (?K @ map name_it adopted) s" "prefix adopted plan" "r = None \<longrightarrow> adopted = plan" by blast
    then have "reconciled out L (refuse e) s" for e
      unfolding reconciled_def using m plan False
      by (intro exI[of _ "renames m"] exI[of _ adopted] exI[of _ ws] exI[of _ scr] exI[of _ active] exI[of _ firstApp]) (simp add: refuse_def)
    then show "case r of Some e \<Rightarrow> reconciled out L (refuse e) s | None \<Rightarrow> told (?K @ map name_it plan) s"
      using a by (simp split: option.split)
  next
    show "ensures (told (?K @ map name_it plan)) (give (ok (Reconciled_is (renamed_lines m) (map (\<lambda>a. String (Ad_Name a)) plan)
        (conflict_lines (ot_unicode out) m)))) (reconciled out L)"
      unfolding reconciled_def using m plan False
      by (intro ensures_give exI[of _ "renames m"] exI[of _ plan] exI[of _ ws] exI[of _ scr] exI[of _ active] exI[of _ firstApp]) (simp add: ok_def)
  qed
  then have plan: "ensures (told ?K) (let plan = AdoptPlan (ot_unicode out) m active firstApp in must (each (adopt_one (recording out) active) plan) refuse
      (give (ok (Reconciled_is (renamed_lines m) (map (\<lambda>a. String (Ad_Name a)) plan) (conflict_lines (ot_unicode out) m))))) (reconciled out L)"
    for firstApp by (simp add: Let_def)
  show ?thesis unfolding adopt_all_def if_not_P[OF False] recording_simps
    by (rule ensures_attempt[OF ensures_mono[OF told_ask[OF keeps_questions(7)]] plan]) (use refused in \<open>auto split: sum.split\<close>)
qed

lemma reconcile_told: "ensures (told L) (reconcile (recording out)) (reconciled out L)"
  unfolding reconcile_def
proof (rule ensures_then, intro keeping, rule ensures_attempt[OF ensures_mono[OF map_told]])
  fix r :: "string + desk_map" and s :: "('a \<times> request list) daemon"
  assume "case r of Inl _ \<Rightarrow> told L s | Inr m \<Rightarrow> told L s \<and> (\<exists>ws scr. m = Rebuild ws scr)"
  then show "case r of Inl e \<Rightarrow> reconciled out L (refuse (From_niri e)) s | Inr m \<Rightarrow> told L s \<and> (\<exists>ws scr. m = Rebuild ws scr)"
    using reconciled_refused[where s = s and L = L and moved = "[]"] by (auto split: sum.splits)
next
  fix m
  show "ensures (\<lambda>s. told L s \<and> (\<exists>ws scr. m = Rebuild ws scr)) (must (each (rename_one (recording out)) (renames m)) refuse
      (activeDesk (recording out) m \<bind> adopt_all (recording out) m)) (reconciled out L)"
  proof (rule ensures_fact, elim exE, rule ensures_must[OF ensures_mono[OF each_told[OF rename_one_told]]])
    fix ws scr and r :: "complaint option" and s :: "('a \<times> request list) daemon"
    assume m: "m = Rebuild ws scr"
    assume "\<exists>moved. told (L @ map move_it moved) s \<and> prefix moved (renames m) \<and> (r = None \<longrightarrow> moved = renames m)"
    then show "case r of Some e \<Rightarrow> reconciled out L (refuse e) s | None \<Rightarrow> told (L @ map move_it (renames m)) s"
      using reconciled_refused[where s = s and L = L and ws = ws and scr = scr] m by (auto split: option.split)
  next
    fix ws scr assume m: "m = Rebuild ws scr"
    show "ensures (told (L @ map move_it (renames m))) (activeDesk (recording out) m \<bind> adopt_all (recording out) m) (reconciled out L)"
      by (rule ensures_then, intro keeping, rule adopt_all_told[OF m])
  qed
qed



section \<open>Moving a workspace\<close>

lemma MoveTo_lands:
  assumes "MoveTo (Some m) origin target = Some to"
  shows "desk to = target" and "monitor to = monitor origin" and "valid_name to"
    and "String to \<notin> String ` set (Desk_Map.Workspaces m target)"
proof -
  obtain j where free: "String to \<notin> set (map String (Desk_Map.Workspaces m target))"
    and n: "NewName target (monitor origin) (suffixed (slot origin) j) = Inr to"
    using suffix_loop_Some assms unfolding MoveTo_def by fastforce
  show "String to \<notin> String ` set (Desk_Map.Workspaces m target)" using free by simp
  have "to = \<lparr>desk = target, monitor = monitor origin, slot = suffixed (slot origin) j\<rparr> \<and> valid_name to"
    using n unfolding NewName_Inr_eq .
  then show "desk to = target" "monitor to = monitor origin" "valid_name to" by (metis name.select_convs)+
qed

definition moved_to :: "string \<Rightarrow> niri_action list \<Rightarrow> response \<Rightarrow> ('w \<times> request list) daemon \<Rightarrow> bool" where
  "moved_to target L resp s \<longleftrightarrow>
     (told L s \<and> (\<forall>r. rs_result resp \<noteq> Inr r))
   \<or> (\<exists>origin to ws scr. told (L @ [Name_by_name (String origin) (String to)]) s
        \<and> valid_name origin \<and> desk origin \<noteq> target \<and> MoveTo (Some (Rebuild ws scr)) origin target = Some to
        \<and> (\<forall>r. rs_result resp = Inr r \<longrightarrow> r = Names [String to]))"

lemma moved_refused: "told L s \<Longrightarrow> moved_to target L (refuse e) s"
  by (simp add: moved_to_def refuse_def)

lemma refuse_moved: "ensures (told L) (give (refuse e)) (moved_to target L)"
  by (rule ensures_give) (rule moved_refused)

lemma rename_into_told:
  assumes "valid_name origin" "desk origin \<noteq> target" "MoveTo (Some m) origin target = Some to" "m = Rebuild ws scr"
  shows "ensures (told L) (rename_into (recording out) target origin to) (moved_to target L)"
  unfolding rename_into_def
proof (rule ensures_must[OF ensures_mono[OF act_triples(2)]])
  have there: "moved_to target L resp s" if "told (L @ [Name_by_name (String origin) (String to)]) s"
      "\<And>r. rs_result resp = Inr r \<Longrightarrow> r = Names [String to]" for resp and s :: "('a \<times> request list) daemon"
    unfolding moved_to_def using that assms by blast
  show "ensures (told (L @ [Name_by_name (String origin) (String to)])) (do {
       _ \<leftarrow> noted (recording out) (\<lambda>how. Renamed how \<lparr>From = origin, To = to\<rparr>);
       _ \<leftarrow> noted (recording out) (\<lambda>how. SetOnDesk how target);
       _ \<leftarrow> noted (recording out) (\<lambda>how. SetActive how to);
       _ \<leftarrow> (if desk origin \<noteq> target then noted (recording out) (\<lambda>how. SetLastDesk how (desk origin)) else give ());
       give (ok (Names [String to])) }) (moved_to target L)"
    by (intro ensures_then ensures_give there) (auto intro!: keeping simp: ok_def)
  fix r :: "string option" and s :: "('a \<times> request list) daemon"
  assume "told L s \<and> r \<noteq> None \<or> told (L @ [Name_by_name (String origin) (String to)]) s"
  then show "case r of Some e \<Rightarrow> moved_to target L (refuse (From_niri e)) s | None \<Rightarrow> told (L @ [Name_by_name (String origin) (String to)]) s"
    using moved_refused there[of s "refuse (From_niri e)" for e] by (auto split: option.split) (simp_all add: refuse_def)
qed

lemma move_named_told:
  assumes v: "valid_name origin"
  shows "ensures (told L) (move_named (recording out) target name origin) (moved_to target L)"
  unfolding move_named_def
proof (rule ensures_if, rule refuse_moved, rule ensures_then, intro keeping, rule ensures_if, rule refuse_moved,
    rule ensures_attempt[OF ensures_mono[OF map_told]])
  fix r :: "string + desk_map" and s :: "('a \<times> request list) daemon"
  assume "case r of Inl _ \<Rightarrow> told L s | Inr m \<Rightarrow> told L s \<and> (\<exists>ws scr. m = Rebuild ws scr)"
  then show "case r of Inl e \<Rightarrow> moved_to target L (refuse (From_niri e)) s | Inr m \<Rightarrow> told L s \<and> (\<exists>ws scr. m = Rebuild ws scr)"
    using moved_refused by (auto split: sum.splits)
next
  fix m assume "desk origin \<noteq> target"
  then show "ensures (\<lambda>s. told L s \<and> (\<exists>ws scr. m = Rebuild ws scr)) (case MoveTo (Some m) origin target of
      None \<Rightarrow> give (refuse (No_name_for (slot origin) target)) | Some to \<Rightarrow> rename_into (recording out) target origin to) (moved_to target L)"
    using refuse_moved rename_into_told[OF v] by (auto intro!: ensures_fact split: option.split)
qed

lemma moveWorkspaceTo_told: "ensures (told L) (moveWorkspaceTo (recording out) target) (moved_to target L)"
  unfolding moveWorkspaceTo_def
proof (rule ensures_if, rule refuse_moved, rule ensures_attempt[OF ensures_mono[OF told_ask[OF keeps_questions(4)]]])
  fix r :: "string + string \<times> string" and s :: "('a \<times> request list) daemon"
  assume "told L s"
  then show "case r of Inl e \<Rightarrow> moved_to target L (refuse (From_niri e)) s | Inr p \<Rightarrow> told L s"
    using moved_refused by (auto split: sum.split)
next
  fix p :: "string \<times> string"
  show "ensures (told L) (case p of (name, _) \<Rightarrow> if name = [] then give (refuse Nothing_focused)
      else (case ParseName name of Inl _ \<Rightarrow> give (refuse (Not_ours name)) | Inr origin \<Rightarrow> move_named (recording out) target name origin))
    (moved_to target L)"
    using refuse_moved move_named_told by (auto split: prod.split sum.split simp: ParseName_iff)
qed



end
