(* ===== verification/Zded_Decoy.thy ===== *)
theory Zded_Decoy
  imports Zded_Trace
begin

text \<open>
  What panic promises (\<open>internal/zded/panic.go\<close>): what it puts up, what it takes and what it gives back.
\<close>

section \<open>The mode through a request\<close>

lemma mode_of_world [simp]: "mode_of (s\<lparr>dm_world := w\<rparr>) = mode_of s" "mode_of (s\<lparr>dm_problems := ps\<rparr>) = mode_of s"
    "mode_of (s\<lparr>dm_panicking := h\<rparr>) = mode_of s"
  by (simp_all add: mode_of_def)

lemma with_journal_run:
  "run (with_journal out f) s = (x, s') \<Longrightarrow> \<exists>how. x = fst (f how (dm_jrn s)) \<and> dm_jrn s' = snd (f how (dm_jrn s)) \<and> dm_journalled s' = dm_journalled s"
  by (auto simp: with_journal_def split: prod.splits) (metis fst_conv snd_conv)

text \<open>A mode that was set is the mode.\<close>

lemma setMode_sets:
  assumes "run (setMode out m) s = (resp, s')" and "rs_result resp = Inr r" and "m \<noteq> []"
  shows "mode_of s' = m \<and> r = Mode_is m"
proof -
  obtain m' where p: "ParseMode m = Inr m'" and j: "dm_journalled s"
    using assms by (auto simp: setMode_def refuse_def journalled_def split: sum.splits if_splits)
  have m: "m' = m" using ParseMode_known[OF p] assms(3) by simp
  obtain b s1 where w: "run (with_journal out (\<lambda>how. SetMode how m)) s = (b, s1)" by fastforce
  obtain how where s1: "b = fst (SetMode how m (dm_jrn s))" "dm_jrn s1 = snd (SetMode how m (dm_jrn s))" "dm_journalled s1"
    using with_journal_run[OF w] j by blast
  have b: "b" using assms p m j w by (cases b) (auto simp: setMode_def refuse_def journalled_def)
  then have "how = Written" using s1(1) by (auto simp: SetMode_def recordLocked_def split: outcome.splits)
  then have mode: "st_Mode (State (dm_jrn s1)) = m" using s1(2) Set_apart(2) by simp
  have "st_Mode (State (snd (SetBorrowed how b j))) = st_Mode (State j)" for how b j
    by (simp add: SetBorrowed_def recordLocked_def apply_entry_def kinds no_entry_def set_state_def State_def split: outcome.split)
  then have "st_Mode (State (dm_jrn s')) = m \<and> dm_journalled s' \<and> r = Mode_is m"
    using assms p m j w b s1 mode
    by (auto simp: setMode_def refuse_def ok_def journalled_def journal_state_def split: if_splits prod.splits dest!: with_journal_run)
  then show ?thesis using p m by (simp add: mode_of_def)
qed

section \<open>Panic\<close>

lemma core_canShow: "preserves (\<lambda>s. core s = c) (canShow out d)"
  unfolding canShow_def by (intro keeping)

lemma mode_core: "core s = core t \<Longrightarrow> mode_of s = mode_of t"
  by (simp add: core_def mode_of_def)

lemma what_is_lost_mode:
  assumes "run (what_is_lost out decoy) s = (h, s')"
  shows "ph_mode h = mode_of s \<and> ph_decoy h = decoy"
proof -
  obtain here s1 where w: "run (whereWeAre out) s = (here, s1)" by fastforce
  have "mode_of s1 = mode_of s" using ensuresD[OF core_where _ w] mode_core by blast
  then show ?thesis using assms w by (auto simp: what_is_lost_def mode_def split: prod.splits if_splits)
qed

lemma setMuted_keeps: "run (setMuted out b) s = (r, s') \<Longrightarrow> mode_of s' = mode_of s \<and> dm_panicking s' = dm_panicking s"
  by (auto simp: setMuted_def split: if_splits prod.splits)

text \<open>Where panic was refused before anything, and what it did when it was not.\<close>

lemma enterPanic_on:
  assumes "run (enterPanic out) s = (resp, s')" and "rs_result resp = Inr r"
  obtains decoy all w0 w h where "decoy \<noteq> []" and "r = Panic_on decoy"
    and "run (ot_desks out) w0 = (Inr (all, []), w)" and "\<forall>d. map_of all decoy = Some d \<longrightarrow> \<not> ds_private d"
    and "dm_panicking s' = Some h" and "ph_decoy h = decoy" and "ph_mode h = mode_of s"
    and "mode_of s' = Quiet \<or> (\<exists>e. Not_silenced e \<in> set (rs_note resp))"
proof -
  obtain decoy s0 where c: "run (ask (ot_decoy out)) s = (Inr decoy, s0)" and d: "decoy \<noteq> []"
    using assms by (auto simp: enterPanic_def refuse_def split: prod.splits sum.splits if_splits)
  obtain s1 where sh: "run (canShow out decoy) s0 = (None, s1)"
    using assms c d by (auto simp: enterPanic_def refuse_def simp del: run_ask split: prod.splits option.splits)
  obtain h s2 where l: "run (what_is_lost out decoy) s1 = (h, s2)" by fastforce
  have "core s1 = core s" using ensuresD[OF core_ask _ c] ensuresD[OF core_canShow _ sh] by simp
  then have h: "ph_mode h = mode_of s" "ph_decoy h = decoy" using what_is_lost_mode[OF l] mode_core by auto
  obtain sw s3 where sw: "run (switchDesk out decoy) s2 = (sw, s3)" by fastforce
  obtain q s4 where q: "run (setMode out Quiet) s3 = (q, s4)" by fastforce
  obtain x s5 where x: "run (ask (ot_tell out (no_event\<lparr>ev_Kind := EventAttnHide\<rparr>))) s4 = (x, s5)" by (meson surj_pair)
  obtain mu s6 where mu: "run (setMuted out True) s5 = (mu, s6)" by fastforce
  have R: "rs_result resp = Inr (Panic_on decoy) \<and> s' = s6\<lparr>dm_panicking := Some (h\<lparr>ph_took := (mu = None)\<rparr>)\<rparr>
      \<and> rs_note resp = (case rs_result q of Inl e \<Rightarrow> [Not_silenced e] | Inr _ \<Rightarrow> []) @ (case mu of None \<Rightarrow> [] | Some e \<Rightarrow> [Not_muted e])"
    using assms c d sh l sw q x mu
    by (auto simp: enterPanic_def refuse_def ok_def holdPanic_def simp del: run_ask split: sum.splits)
  have "mode_of s' = mode_of s4" using R setMuted_keeps[OF mu] x by (auto split: prod.splits)
  then have "mode_of s' = Quiet \<or> (\<exists>e. Not_silenced e \<in> set (rs_note resp))"
    using setMode_sets[OF q] R by (cases "rs_result q") (auto simp: modes)
  moreover obtain all w0 w where "run (ot_desks out) w0 = (Inr (all, []), w)" "\<forall>d. map_of all decoy = Some d \<longrightarrow> \<not> ds_private d"
    using sh by (auto simp: canShow_def split: prod.splits sum.splits if_splits option.splits)
  moreover note R h assms(2)
  ultimately show thesis
    by (intro that[of decoy w0 all w "h\<lparr>ph_took := (mu = None)\<rparr>"]) (simp_all add: d)
qed

lemma leavePanic_off:
  assumes "run (leavePanic out h) s = (resp, s')" and "ph_mode h \<noteq> []"
  shows "mode_of s' = ph_mode h \<or> (\<exists>e. Not_unquieted e \<in> set (rs_note resp))"
    and "dm_panicking s' = None \<or> (\<exists>e. Not_brought_back e \<in> set (rs_note resp))"
proof -
  let ?home = "if ph_from h \<noteq> [] \<and> ph_from h \<noteq> ph_decoy h then do {
          resp \<leftarrow> switchDesk out (ph_from h);
          give (case rs_result resp of Inl e \<Rightarrow> (False, [Not_brought_back e]) | Inr _ \<Rightarrow> (True, []))
        }
        else give (True, if ph_from h = [] then [Still_on_decoy] else [])"
  let ?sound = "if \<not> ph_took h then give []
        else if \<not> ph_knewMuted h then give [Left_off]
        else if ph_muted h then give []
        else do { r \<leftarrow> setMuted out False; give (case r of None \<Rightarrow> [] | Some e \<Rightarrow> [Still_muted e]) }"
  obtain home n1 s1 where 1: "run ?home s = ((home, n1), s1)" by (metis prod.exhaust)
  obtain n2 s2 where 2: "run ?sound s1 = (n2, s2)" by (meson surj_pair)
  obtain sm s3 where 3: "run (setMode out (ph_mode h)) s2 = (sm, s3)" by (meson surj_pair)
  have R: "s' = (if home then s3\<lparr>dm_panicking := None\<rparr> else s3)"
    "rs_note resp = n1 @ n2 @ (case rs_result sm of Inl e \<Rightarrow> [Not_unquieted e] | Inr _ \<Rightarrow> [])"
    using assms(1) unfolding leavePanic_def by (cases home; auto simp: 1 2 3 ok_def holdPanic_def simp del: run_ask)+
  show "mode_of s' = ph_mode h \<or> (\<exists>e. Not_unquieted e \<in> set (rs_note resp))"
    using setMode_sets[OF 3 _ assms(2)] R by (cases "rs_result sm") auto
  have "home \<or> (\<exists>e. Not_brought_back e \<in> set n1)"
    using 1 by (auto split: if_splits prod.splits sum.splits)
  then show "dm_panicking s' = None \<or> (\<exists>e. Not_brought_back e \<in> set (rs_note resp))" using R by auto
qed

text \<open>C7: panic puts up only what was proved harmless, and gives back what it took. When \<open>enterPanic\<close>
  answers that it is on, the desks directory had been read without one problem and did not
  declare the decoy private, notifications are quiet (or the answer says they are not), and what is held is the
  mode of before; and whenever that hold is given back, that mode is the mode again and
  nothing is held, or the answer says what could not be given back.\<close>

theorem panic_hides_and_gives_back:
  assumes "run (enterPanic out) s = (resp, s1)" and "rs_result resp = Inr r"
  shows "\<exists>decoy h all w0 w. decoy \<noteq> [] \<and> r = Panic_on decoy
    \<and> run (ot_desks out) w0 = (Inr (all, []), w) \<and> (\<forall>d. map_of all decoy = Some d \<longrightarrow> \<not> ds_private d)
    \<and> (mode_of s1 = Quiet \<or> (\<exists>e. Not_silenced e \<in> set (rs_note resp)))
    \<and> dm_panicking s1 = Some h \<and> ph_decoy h = decoy
    \<and> (\<forall>s2 resp' s'. run (leavePanic out h) s2 = (resp', s') \<longrightarrow>
          (mode_of s' = mode_of s \<or> (\<exists>e. Not_unquieted e \<in> set (rs_note resp')))
        \<and> (dm_panicking s' = None \<or> (\<exists>e. Not_brought_back e \<in> set (rs_note resp'))))"
proof -
  obtain decoy all w0 w h where e: "decoy \<noteq> []" "r = Panic_on decoy"
    "run (ot_desks out) w0 = (Inr (all, []), w)" "\<forall>d. map_of all decoy = Some d \<longrightarrow> \<not> ds_private d"
    "dm_panicking s1 = Some h" "ph_decoy h = decoy" "ph_mode h = mode_of s"
    "mode_of s1 = Quiet \<or> (\<exists>e. Not_silenced e \<in> set (rs_note resp))"
    by (rule enterPanic_on[OF assms])
  have "ph_mode h \<noteq> []" using e(7) ParseMode_known[OF mode_of_valid[of s]] by (auto simp: modes)
  then have "(mode_of s' = mode_of s \<or> (\<exists>e. Not_unquieted e \<in> set (rs_note resp')))
      \<and> (dm_panicking s' = None \<or> (\<exists>e. Not_brought_back e \<in> set (rs_note resp')))"
    if "run (leavePanic out h) s2 = (resp', s')" for s2 resp' s'
    using leavePanic_off[OF that] e(7) by simp
  then show ?thesis
    using e(1-6,8) by (intro exI[of _ decoy] exI[of _ h] exI[of _ all] exI[of _ w0] exI[of _ w] conjI allI impI) blast+
qed

text \<open>A session whose panic has a decoy: the one desk it has.\<close>

definition decoyed :: "unit outside" where "decoyed = session\<lparr>ot_decoy := give (Inr ''work'')\<rparr>"

definition session_map :: desk_map where
  "session_map = Rebuild [\<lparr>ID = 1, Idx = 1, Name = ''work.DP-1.code'', Output = ''DP-1''\<rparr>] [''DP-1'']"

lemma session_plan: "SwitchPlan session_map ''work'' Map.empty = [\<lparr>desk = ''work'', monitor = ''DP-1'', slot = ''code''\<rparr>]"
  unfolding session_map_def by code_simp

lemma unit_ask: "run (ask m) (s :: unit daemon) = (fst (run m ()), s)"
  by (cases s) (simp split: prod.split)

lemma decoyed_asks:
  "fst (run (DeskMap (ot_niri decoyed)) ()) = Inr session_map" "fst (run (FocusWorkspace (ot_niri decoyed) n) ()) = None"
  by (simp_all add: DeskMap_def FocusWorkspace_def dialled_def dialled_act_def
      niri_DeskMap_def niri_FocusWorkspace_def niri_Workspaces_def niri_Screens_def
      Niri_Action_def call_def decoyed_def session_def one_screen_def session_map_def AsDeskWorkspaces_def deref_def)

lemma decoyed_world: "ot_desks decoyed = give (Inr ([], []))" "ot_disk decoyed = give Written" "ot_decoy decoyed = give (Inr ''work'')"
  by (simp_all add: decoyed_def session_def silent_def)

lemma decoyed_ensures: "run (ensureDeclared decoyed t) s = (Inr [], s\<lparr>dm_problems := []\<rparr>)"
  by (simp add: ensureDeclared_def unit_ask decoyed_world rememberProblems_def del: run_ask)

lemma decoyed_slots:
  "st_LastActive (State (dm_jrn s)) = [] \<Longrightarrow> run (landingSlots decoyed t) s = (Map.empty, s\<lparr>dm_problems := []\<rparr>)"
  by (simp add: landingSlots_def manifestFor_def unit_ask decoyed_world rememberProblems_def journalled_def journal_state_def Let_def del: run_ask)

lemma decoyed_switches:
  assumes "st_LastActive (State (dm_jrn s)) = []"
  shows "rs_result (fst (run (switchDesk decoyed ''work'') s)) = Inr (Names [''work.DP-1.code''])"
proof -
  have p: "String \<lparr>desk = ''work'', monitor = ''DP-1'', slot = ''code''\<rparr> = ''work.DP-1.code''" by code_simp
  show ?thesis
    using assms
    by (simp add: switchDesk_def switchFrom_def switch_over_def decoyed_ensures decoyed_slots decoyed_asks unit_ask session_plan p
        journalled_def journal_state_def ok_def Let_def del: run_ask split: prod.split)
qed

lemma lost_places: "preserves (\<lambda>s. st_LastActive (State (dm_jrn s)) = []) (what_is_lost out d)"
proof -
  let ?P = "\<lambda>s :: 'a daemon. st_LastActive (State (dm_jrn s)) = []"
  have w: "worldly ?P" by (simp add: worldly_def)
  have "preserves ?P (with_journal out (\<lambda>how. SetOnDesk how t))" for t
    by (rule keeps_with_journal[OF w])
      (simp add: SetOnDesk_def recordLocked_def apply_entry_def kinds no_entry_def set_state_def State_def split: outcome.split)
  then show ?thesis
    unfolding what_is_lost_def whereWeAre_def activeDesk_def deskOf_def by (intro keeping keeps_ask[OF w])
qed

lemma decoyed_panics: "rs_result (fst (run (enterPanic decoyed) started)) = Inr (Panic_on ''work'')"
proof -
  obtain h s2 where l: "run (what_is_lost decoyed ''work'') (started\<lparr>dm_problems := []\<rparr>) = (h, s2)" by fastforce
  have "st_LastActive (State (dm_jrn s2)) = []"
    by (rule ensuresD[OF lost_places _ l]) (simp add: started_at_def State_def fresh_def newState_def)
  then have sw: "rs_result (fst (run (switchDesk decoyed ''work'') s2)) = Inr (Names [''work.DP-1.code''])" by (rule decoyed_switches)
  have c: "run (canShow decoyed ''work'') started = (None, started\<lparr>dm_problems := []\<rparr>)"
    by (simp add: canShow_def unit_ask decoyed_world rememberProblems_def del: run_ask)
  show ?thesis
    using sw by (auto simp: enterPanic_def unit_ask decoyed_world c l ok_def simp del: run_ask split: prod.split sum.split)
qed

lemma panic_hides_and_gives_back_witness:
  "\<exists>h. dm_panicking (snd (run (enterPanic decoyed) started)) = Some h \<and> ph_decoy h = ''work''
    \<and> (mode_of (snd (run (leavePanic decoyed h) started)) = Work
       \<or> (\<exists>e. Not_unquieted e \<in> set (rs_note (fst (run (leavePanic decoyed h) started)))))"
proof -
  have "mode_of started = Work" by (simp add: started_at_def mode_of_def State_def fresh_def newState_def ParseMode_def)
  moreover obtain h where h: "dm_panicking (snd (run (enterPanic decoyed) started)) = Some h" "ph_decoy h = ''work''"
    and back_again: "\<And>s2 resp' s'. run (leavePanic decoyed h) s2 = (resp', s') \<Longrightarrow>
        mode_of s' = mode_of started \<or> (\<exists>e. Not_unquieted e \<in> set (rs_note resp'))"
    using panic_hides_and_gives_back [of decoyed started, OF prod.collapse [symmetric] decoyed_panics] by auto
  moreover note back_again[of started, OF prod.collapse [symmetric]]
  ultimately show ?thesis by auto
qed

end
