(* ===== verification/Go_Text.thy ===== *)
theory Go_Text
  imports Attn_Text "HOL-Library.Sublist"
begin

text \<open>
  The parts of Go's \<open>strings\<close> and \<open>fmt\<close> that the clients of the system's services use, beside those of
  the prelude: trimming and case on whole strings, cutting, replacing, and numbers padded with
  zeros. \<open>up\<close> is \<open>unicode.ToUpper\<close>, a table of the Go distribution like those of \<open>unicode\<close>.
\<close>

definition HasPrefix :: "string \<Rightarrow> string \<Rightarrow> bool" where "HasPrefix s p \<longleftrightarrow> prefix p s"
definition HasSuffix :: "string \<Rightarrow> string \<Rightarrow> bool" where "HasSuffix s p \<longleftrightarrow> suffix p s"

text \<open>
  \<open>ToLower(TrimSpace(s))\<close> and \<open>ToUpper(TrimSpace(s))\<close>: both case functions rewrite what is not UTF-8, so
  the trimming can be of the runes.
\<close>

definition lower_trimmed :: "unicode \<Rightarrow> string \<Rightarrow> string" where
  "lower_trimmed u s = string_of_runes (map (to_lower u) (trim_space (runes_of s)))"

definition upper_trimmed :: "(rune \<Rightarrow> rune) \<Rightarrow> string \<Rightarrow> string" where
  "upper_trimmed up s = string_of_runes (map up (trim_space (runes_of s)))"

lemma upper_plain:
  assumes "ascii s" and "\<forall>c \<in> set s. \<not> is_space (of_char c)"
  shows "upper_trimmed id s = s"
proof -
  have "trim_space (map of_char s) = map of_char s" using assms(2) by (intro trim_no_space) auto
  then show ?thesis using assms(1) by (simp add: upper_trimmed_def runes_of_ascii string_of_runes_ascii)
qed

text \<open>\<open>strings.Cut\<close> around one byte.\<close>

fun Cut :: "char \<Rightarrow> string \<Rightarrow> string \<times> string \<times> bool" where
  "Cut c [] = ([], [], False)"
| "Cut c (x # xs) = (if x = c then ([], xs, True) else (case Cut c xs of (a, b, f) \<Rightarrow> (x # a, b, f)))"

lemma Cut_found: "Cut c s = (a, b, f) \<Longrightarrow> f \<longleftrightarrow> c \<in> set s"
  by (induction s arbitrary: a b f) (auto split: prod.splits if_splits)

lemma Cut_parts: "Cut c s = (a, b, True) \<Longrightarrow> s = a @ c # b \<and> c \<notin> set a"
  by (induction s arbitrary: a b) (auto split: prod.splits if_splits)

lemma Cut_at: "c \<notin> set a \<Longrightarrow> Cut c (a @ c # b) = (a, b, True)"
  by (induction a) auto

lemma Cut_none: "c \<notin> set s \<Longrightarrow> Cut c s = (s, [], False)"
  by (induction s) auto

text \<open>\<open>strings.Replace(s, old, new, 1)\<close> for an \<open>old\<close> that is not empty.\<close>

fun replace_first :: "string \<Rightarrow> string \<Rightarrow> string \<Rightarrow> string" where
  "replace_first old new [] = []"
| "replace_first old new (c # cs) =
     (if prefix old (c # cs) then new @ drop (length old) (c # cs) else c # replace_first old new cs)"

text \<open>\<open>fmt.Sprintf("%0*d", w, n)\<close> for a number that is not negative.\<close>

definition zero_padded :: "nat \<Rightarrow> nat \<Rightarrow> string" where
  "zero_padded w n = replicate (w - length (itoa n)) (CHR ''0'') @ itoa n"

lemma zero_padded_digits: "list_all is_digit (zero_padded w n)"
  using itoa_digits [of n] by (auto simp: zero_padded_def list_all_iff is_digit_def)

lemma zero_padded_length: "length (zero_padded w n) = max w (length (itoa n))"
  by (simp add: zero_padded_def)

text \<open>
  Two numbers written in the same number of digits or more are different texts if they are
  different numbers.
\<close>

lemma digits_val_zeros: "digits_val (replicate k (CHR ''0'') @ s) = digits_val s"
  by (induction k) (auto simp: digits_val_def digit_val_def)

lemma digits_val_padded [simp]: "digits_val (zero_padded w n) = n"
  by (simp add: zero_padded_def digits_val_zeros digits_val_itoa)

lemma zero_padded_inj: "zero_padded w m = zero_padded w n \<Longrightarrow> m = n"
  by (metis digits_val_padded)

text \<open>Lines that are each ended are split back into themselves.\<close>

lemma split_lines:
  "list_all (\<lambda>l. c \<notin> set l) ls \<Longrightarrow> split_on c (concat (map (\<lambda>l. l @ [c]) ls) @ rest) = ls @ split_on c rest"
  by (induction ls) (simp_all add: split_on_append_sep)

section \<open>strconv.Quote\<close>

definition hex_low :: "nat \<Rightarrow> nat" where "hex_low d = (if d < 10 then 48 + d else 87 + d)"

fun hex_fixed :: "nat \<Rightarrow> nat \<Rightarrow> nat list" where
  "hex_fixed 0 n = []"
| "hex_fixed (Suc k) n = hex_fixed k (n div 16) @ [hex_low (n mod 16)]"

definition quoted_rune :: "unicode \<Rightarrow> rune \<Rightarrow> nat list" where
  "quoted_rune u r =
     (if r = 34 \<or> r = 92 then [92, r]
      else if is_print u r then encode_rune r
      else if r = 7 then [92, 97] else if r = 8 then [92, 98] else if r = 12 then [92, 102]
      else if r = 10 then [92, 110] else if r = 13 then [92, 114] else if r = 9 then [92, 116]
      else if r = 11 then [92, 118]
      else if r < 32 \<or> r = 127 then [92, 120] @ hex_fixed 2 r
      else if r < 0x10000 then [92, 117] @ hex_fixed 4 r
      else [92, 85] @ hex_fixed 8 r)"

function quoted_bytes :: "unicode \<Rightarrow> nat list \<Rightarrow> nat list" where
  "quoted_bytes u [] = []"
| "quoted_bytes u (a # bs) =
     (case decode_first a bs of (r, k) \<Rightarrow>
        (if 128 \<le> a \<and> k = 0 then [92, 120] @ hex_fixed 2 a else quoted_rune u r) @ quoted_bytes u (drop k bs))"
  by pat_completeness auto
termination
  by (relation "measure (length \<circ> snd)") auto

definition Quote :: "unicode \<Rightarrow> string \<Rightarrow> string" where
  "Quote u s = map char_of ([34] @ quoted_bytes u (map of_char s) @ [34])"

lemma hex_low_ge: "48 \<le> hex_low d"
  by (simp add: hex_low_def)

lemma hex_fixed_ge: "b \<in> set (hex_fixed k n) \<Longrightarrow> 48 \<le> b"
  by (induction k n rule: hex_fixed.induct) (auto simp: hex_low_ge)

lemma encode_rune_feed: "10 \<in> set (encode_rune r) \<Longrightarrow> r = 10"
  by (auto simp: encode_rune_def rune_error_def Let_def split: if_splits)

text \<open>No newline comes out of it, as none is printable.\<close>

lemma quoted_rune_one_line: "unicode_ok u \<Longrightarrow> 10 \<notin> set (quoted_rune u r)"
proof -
  assume "unicode_ok u"
  then have "\<not> is_print u 10" by (fastforce simp: unicode_ok_def is_space_def)
  then have "is_print u r \<Longrightarrow> 10 \<notin> set (encode_rune r)" using encode_rune_feed by blast
  moreover have "10 \<notin> set (hex_fixed k n)" for k n using hex_fixed_ge by fastforce
  ultimately show ?thesis by (simp add: quoted_rune_def del: hex_fixed.simps)
qed

lemma quoted_bytes_one_line: "unicode_ok u \<Longrightarrow> 10 \<notin> set (quoted_bytes u bs)"
proof (induction u bs rule: quoted_bytes.induct)
  case (2 u a bs)
  have "10 \<notin> set (hex_fixed k n)" for k n using hex_fixed_ge by fastforce
  moreover have "10 \<notin> set (quoted_bytes u (drop (snd (decode_first a bs)) bs))" using 2 by (metis surjective_pairing)
  ultimately show ?case using 2(2) quoted_rune_one_line
    by (auto simp: split_beta simp del: hex_fixed.simps)
qed simp

end
