(* ===== verification/Bt.thy ===== *)
theory Bt
  imports Go_Text Ops
begin

text \<open>
  What zde reads off BlueZ's object tree (\<open>internal/bt/bt.go\<close>): addresses, names as they may be
  shown, the adapter, and the devices under it in the order they are listed. The tree is what
  \<open>GetManagedObjects\<close> answered; a D-Bus variant is what the library's \<open>Store\<close> makes of it for each
  type asked for.
\<close>

section \<open>The bus\<close>

datatype bus_error = Dbus_error string string | Other_error string

record variant =
  as_bool :: "bool option"
  as_string :: "string option"
  as_int16 :: "16 word option"

type_synonym properties = "(string \<times> variant) list"
type_synonym objects = "(string \<times> (string \<times> properties) list) list"

definition adapterIface :: string where "adapterIface = ''org.bluez.Adapter1''"
definition deviceIface :: string where "deviceIface = ''org.bluez.Device1''"

definition boolOf :: "properties \<Rightarrow> string \<Rightarrow> bool" where
  "boolOf props k = (case map_of props k of Some v \<Rightarrow> as_bool v = Some True | None \<Rightarrow> False)"

definition stringOf :: "properties \<Rightarrow> string \<Rightarrow> string" where
  "stringOf props k =
     (case map_of props k of None \<Rightarrow> [] | Some v \<Rightarrow> (case as_string v of None \<Rightarrow> [] | Some s \<Rightarrow> s))"

definition int16Of :: "properties \<Rightarrow> string \<Rightarrow> 16 word" where
  "int16Of props k =
     (case map_of props k of None \<Rightarrow> 0 | Some v \<Rightarrow> (case as_int16 v of None \<Rightarrow> 0 | Some n \<Rightarrow> n))"

definition noService :: "bus_error \<Rightarrow> bool" where
  "noService e =
     (case e of
        Dbus_error n _ \<Rightarrow> n = ''org.freedesktop.DBus.Error.ServiceUnknown''
                        \<or> n = ''org.freedesktop.DBus.Error.NameHasNoOwner''
      | Other_error _ \<Rightarrow> False)"

section \<open>Names and addresses\<close>

definition nameMax :: nat where "nameMax = 64"

text \<open>The loop of \<open>printable\<close>: \<open>n\<close> runes were seen and were printable; the answer says what to return.\<close>

fun printable_loop :: "unicode \<Rightarrow> string \<Rightarrow> rune list \<Rightarrow> nat \<Rightarrow> string" where
  "printable_loop u s [] n = s"
| "printable_loop u s (r # rs) n =
     (if \<not> is_print u r then []
      else if nameMax < n + 1 then string_of_runes (take nameMax (runes_of s))
      else printable_loop u s rs (n + 1))"

definition printable :: "unicode \<Rightarrow> string \<Rightarrow> string" where
  "printable u s = (if s = [] \<or> \<not> utf8 s then [] else printable_loop u s (runes_of s) 0)"

definition isHex :: "char \<Rightarrow> bool" where
  "isHex c \<longleftrightarrow> CHR ''0'' \<le> c \<and> c \<le> CHR ''9'' \<or> CHR ''A'' \<le> c \<and> c \<le> CHR ''F''"

definition hex_pair :: "string \<Rightarrow> bool" where
  "hex_pair p \<longleftrightarrow> length p = 2 \<and> isHex (p ! 0) \<and> isHex (p ! 1)"

definition normalAddr :: "(rune \<Rightarrow> rune) \<Rightarrow> string \<Rightarrow> string option" where
  "normalAddr up s =
     (let s = upper_trimmed up s; parts = split_on (CHR '':'') s
      in if length parts \<noteq> 6 then None else if list_all hex_pair parts then Some s else None)"

definition addrOf :: "(rune \<Rightarrow> rune) \<Rightarrow> string \<Rightarrow> string" where
  "addrOf up path =
     (let final = last (split_on (CHR ''/'') path)
      in if \<not> HasPrefix final ''dev_'' then []
         else (case normalAddr up (map (\<lambda>c. if c = CHR ''_'' then CHR '':'' else c) (drop 4 final)) of
                 None \<Rightarrow> [] | Some addr \<Rightarrow> addr))"

section \<open>The adapter and the devices\<close>

record adapter =
  ad_Present :: bool
  ad_Powered :: bool
  ad_Discovering :: bool
  ad_Address :: string
  ad_Name :: string
  ad_Why :: string

record device =
  dv_Address :: string
  dv_Name :: string
  dv_Paired :: bool
  dv_Trusted :: bool
  dv_Connected :: bool
  dv_RSSI :: "16 word"

definition no_adapter :: "string \<Rightarrow> adapter" where
  "no_adapter why = \<lparr>ad_Present = False, ad_Powered = False, ad_Discovering = False, ad_Address = [], ad_Name = [], ad_Why = why\<rparr>"

text \<open>What one read found: the adapter and its path, the devices, and by address their paths and themselves.\<close>

record bt_snapshot =
  sn_adapter :: adapter
  sn_path :: string
  sn_list :: "device list"
  sn_devices :: "(string \<times> string) list"
  sn_byAddr :: "(string \<times> device) list"

definition Absent :: "string \<Rightarrow> bt_snapshot" where
  "Absent why = \<lparr>sn_adapter = no_adapter why, sn_path = [], sn_list = [], sn_devices = [], sn_byAddr = []\<rparr>"

fun find_adapter :: "unicode \<Rightarrow> objects \<Rightarrow> string list \<Rightarrow> bt_snapshot option" where
  "find_adapter u objs [] = None"
| "find_adapter u objs (p # ps) =
     (case map_of (aget [] objs p) adapterIface of
        None \<Rightarrow> find_adapter u objs ps
      | Some props \<Rightarrow>
          Some \<lparr>sn_adapter = \<lparr>ad_Present = True, ad_Powered = boolOf props ''Powered'',
                   ad_Discovering = boolOf props ''Discovering'', ad_Address = stringOf props ''Address'',
                   ad_Name = printable u (stringOf props ''Alias''), ad_Why = []\<rparr>,
                 sn_path = p, sn_list = [], sn_devices = [], sn_byAddr = []\<rparr>)"

definition device_of :: "unicode \<Rightarrow> properties \<Rightarrow> string \<Rightarrow> device" where
  "device_of u props addr = \<lparr>dv_Address = addr, dv_Name = printable u (stringOf props ''Alias''),
     dv_Paired = boolOf props ''Paired'', dv_Trusted = boolOf props ''Trusted'',
     dv_Connected = boolOf props ''Connected'', dv_RSSI = int16Of props ''RSSI''\<rparr>"

definition add_device ::
  "unicode \<Rightarrow> (rune \<Rightarrow> rune) \<Rightarrow> objects \<Rightarrow> string \<Rightarrow> bt_snapshot \<Rightarrow> bt_snapshot" where
  "add_device u up objs p snap =
     (case map_of (aget [] objs p) deviceIface of
        None \<Rightarrow> snap
      | Some props \<Rightarrow>
          if \<not> HasPrefix p (sn_path snap @ ''/'') then snap
          else (case normalAddr up (stringOf props ''Address'') of
                  None \<Rightarrow> snap
                | Some addr \<Rightarrow>
                    snap\<lparr>sn_list := sn_list snap @ [device_of u props addr],
                         sn_devices := AList.update addr p (sn_devices snap),
                         sn_byAddr := AList.update addr (device_of u props addr) (sn_byAddr snap)\<rparr>))"

text \<open>
  The comparison of \<open>sortDevices\<close>: connected before not, paired before not, named before nameless,
  and then by name and by address.
\<close>

definition device_less :: "device \<Rightarrow> device \<Rightarrow> bool" where
  "device_less a b =
     (if dv_Connected a \<noteq> dv_Connected b then dv_Connected a
      else if dv_Paired a \<noteq> dv_Paired b then dv_Paired a
      else if (dv_Name a \<noteq> []) \<noteq> (dv_Name b \<noteq> []) then dv_Name a \<noteq> []
      else if dv_Name a \<noteq> dv_Name b then dv_Name a < dv_Name b
      else dv_Address a < dv_Address b)"

definition sortDevices :: "device list \<Rightarrow> device list" where
  "sortDevices ds = sort_by device_less ds"

definition read_tree ::
  "unicode \<Rightarrow> (rune \<Rightarrow> rune) \<Rightarrow> bus_error + objects \<Rightarrow> bus_error + bt_snapshot" where
  "read_tree u up answer =
     (case answer of
        Inl e \<Rightarrow> if noService e then Inr (Absent ''bluetoothd is not on the system bus'') else Inl e
      | Inr objs \<Rightarrow>
          (let paths = sort_strings (map fst objs)
           in case find_adapter u objs paths of
                None \<Rightarrow> Inr (Absent ''bluetoothd is running and has no adapter: no radio, or rfkill has it'')
              | Some snap \<Rightarrow>
                  (let snap = fold (add_device u up objs) paths snap
                   in Inr (snap\<lparr>sn_list := sortDevices (sn_list snap)\<rparr>))))"

section \<open>Names fit to be shown\<close>

definition row_name :: "unicode \<Rightarrow> string \<Rightarrow> bool" where
  "row_name u s \<longleftrightarrow> length (runes_of s) \<le> nameMax \<and> list_all (is_print u) (runes_of s)"

lemma printable_loop_ok:
  assumes "runes_of s = xs @ rs" and "n = length xs" and "n \<le> nameMax" and "list_all (is_print u) xs"
  shows "row_name u (printable_loop u s rs n)"
  using assms
proof (induction u s rs n arbitrary: xs rule: printable_loop.induct)
  case (1 u s n)
  then show ?case by (simp add: row_name_def)
next
  case (2 u s r rs n)
  show ?case
  proof (cases "is_print u r \<and> n + 1 \<le> nameMax")
    case True
    then show ?thesis using 2 by (force intro: "2.IH" [of "xs @ [r]"])
  next
    case False
    have "take nameMax (runes_of s) = xs" if "nameMax < n + 1" using that 2 by simp
    moreover have "list_all valid_rune xs" using 2(2) by (metis list_all_append runes_of_valid)
    ultimately show ?thesis using False 2 by (auto simp: row_name_def runes_of_ascii ascii_def)
  qed
qed

lemma printable_row: "row_name u (printable u s)"
  using printable_loop_ok [of s "[]"] by (auto simp: printable_def row_name_def runes_of_ascii ascii_def)

text \<open>An address that was taken is six hex pairs, and is its own spelling.\<close>

definition address :: "string \<Rightarrow> bool" where
  "address s \<longleftrightarrow> length (split_on (CHR '':'') s) = 6 \<and> list_all hex_pair (split_on (CHR '':'') s)"

lemma normalAddr_address: "normalAddr up s = Some a \<Longrightarrow> address a"
  by (auto simp: normalAddr_def address_def Let_def split: if_splits)

section \<open>The list\<close>

interpretation by_device: comparator device_less
proof
  fix a b c :: device
  show "device_less a b \<Longrightarrow> \<not> device_less b a" by (auto simp: device_less_def split: if_splits)
  show "\<not> device_less a b \<Longrightarrow> \<not> device_less b c \<Longrightarrow> \<not> device_less a c"
    by (auto simp: device_less_def split: if_splits)
qed

definition listed :: "unicode \<Rightarrow> bt_snapshot \<Rightarrow> bool" where
  "listed u snap \<longleftrightarrow> (\<forall>d \<in> set (sn_list snap). address (dv_Address d) \<and> row_name u (dv_Name d)
     \<and> (\<exists>p. map_of (sn_devices snap) (dv_Address d) = Some p \<and> HasPrefix p (sn_path snap @ ''/'')))
   \<and> row_name u (ad_Name (sn_adapter snap))"

lemma find_adapter_listed: "find_adapter u objs ps = Some snap \<Longrightarrow> listed u snap"
  by (induction ps) (auto simp: listed_def printable_row split: option.splits)

lemma add_device_listed: "listed u snap \<Longrightarrow> listed u (add_device u up objs p snap)"
  using normalAddr_address
  by (auto simp: listed_def add_device_def device_of_def printable_row update_conv' split: option.splits)


section \<open>A witness\<close>

definition truth :: variant where "truth = \<lparr>as_bool = Some True, as_string = None, as_int16 = None\<rparr>"
definition text_is :: "string \<Rightarrow> variant" where "text_is s = \<lparr>as_bool = None, as_string = Some s, as_int16 = None\<rparr>"

definition one_device :: objects where
  "one_device = [(''/a'', [(adapterIface, [(''Powered'', truth)])]),
     (''/a/d'', [(deviceIface, [(''Address'', text_is ''11:22:33:44:55:66''), (''Paired'', truth)])])]"

lemma small_address: "normalAddr id ''11:22:33:44:55:66'' = Some ''11:22:33:44:55:66''"
proof -
  have "upper_trimmed id ''11:22:33:44:55:66'' = ''11:22:33:44:55:66''"
    by (rule upper_plain) (simp_all add: ascii_def is_space_def)
  then show ?thesis by (simp add: normalAddr_def hex_pair_def isHex_def)
qed

lemma small_tree:
  "\<exists>snap d. read_tree ascii_unicode id (Inr one_device) = Inr snap \<and> ad_Present (sn_adapter snap)
    \<and> map_of (sn_devices snap) ''11:22:33:44:55:66'' = Some ''/a/d''
    \<and> map_of (sn_byAddr snap) ''11:22:33:44:55:66'' = Some d \<and> dv_Paired d"
proof -
  have "sort_strings (map fst one_device) = [''/a'', ''/a/d'']" by (simp add: one_device_def sort_strings_def sort_by_def)
  then show ?thesis
    by (simp add: read_tree_def one_device_def add_device_def small_address adapterIface_def deviceIface_def aget_def
        stringOf_def boolOf_def int16Of_def text_is_def truth_def HasPrefix_def device_of_def printable_def Let_def)
qed


end
