(* ===== verification/Bt_Agent.thy ===== *)
theory Bt_Agent
  imports Bt
begin

text \<open>
  The pairing agent (\<open>internal/bt/agent.go\<close>): one question at a time, the answers that name it, its
  expiry, and the goroutines that wait on it. A question is an object with an identity, since its
  timer and its goroutine end it only if it is still the one standing; so questions live in a
  store, and the slot, the timers and the goroutines hold places in it. Time is a number, given
  to the operations that read the clock.
\<close>

section \<open>Questions\<close>

definition AgentPath :: string where "AgentPath = ''/org/zde/bluetooth/agent''"
definition Capability :: string where "Capability = ''DisplayYesNo''"
definition KindConfirm :: string where "KindConfirm = ''confirm''"
definition KindAuthorize :: string where "KindAuthorize = ''authorize''"
definition KindService :: string where "KindService = ''service''"
definition KindDisplay :: string where "KindDisplay = ''display''"

text \<open>In seconds.\<close>

definition AnswerWait :: int where "AnswerWait = 45"

record request =
  rq_ID :: string
  rq_Device :: string
  rq_Name :: string
  rq_Kind :: string
  rq_Passkey :: string
  rq_Entered :: int
  rq_UUID :: string
  rq_Service :: string

definition no_request :: request where
  "no_request = \<lparr>rq_ID = [], rq_Device = [], rq_Name = [], rq_Kind = [], rq_Passkey = [], rq_Entered = 0,
     rq_UUID = [], rq_Service = []\<rparr>"

text \<open>
  \<open>qn_answered\<close> is the channel: \<open>None\<close> for a question that has none, and otherwise what its one place
  holds. \<open>qn_expiry\<close> is when the timer fires, if it has not fired or been stopped.
\<close>

record question =
  qn_req :: request
  qn_answered :: "bool option option"
  qn_expiry :: "int option"

record agent =
  ag_wait :: int
  ag_q :: "nat option"
  ag_seq :: "64 word"
  ag_store :: "question list"

definition NewAgent :: agent where
  "NewAgent = \<lparr>ag_wait = AnswerWait, ag_q = None, ag_seq = 0, ag_store = []\<rparr>"

definition Pending :: "agent \<Rightarrow> request option" where
  "Pending a = (case ag_q a of None \<Rightarrow> None | Some q \<Rightarrow> Some (qn_req (ag_store a ! q)))"

section \<open>Answering\<close>

datatype answer_error =
  Nothing_is_waiting | Another_question string string string | No_yes_or_no string | Already_answered

definition set_question :: "nat \<Rightarrow> (question \<Rightarrow> question) \<Rightarrow> agent \<Rightarrow> agent" where
  "set_question q f a = a\<lparr>ag_store := (ag_store a)[q := f (ag_store a ! q)]\<rparr>"

definition Answer :: "string \<Rightarrow> bool \<Rightarrow> agent \<Rightarrow> answer_error option \<times> agent" where
  "Answer i yes a =
     (case ag_q a of
        None \<Rightarrow> (Some Nothing_is_waiting, a)
      | Some q \<Rightarrow>
          (let r = qn_req (ag_store a ! q)
           in if i \<noteq> rq_ID r then (Some (Another_question i (rq_ID r) (rq_Device r)), a)
              else (case qn_answered (ag_store a ! q) of
                      None \<Rightarrow> (Some (No_yes_or_no (rq_Device r)), a)
                    | Some (Some _) \<Rightarrow> (Some Already_answered, a)
                    | Some None \<Rightarrow> (None, set_question q (qn_answered_update (\<lambda>_. Some (Some yes))) a))))"

section \<open>The one slot\<close>

definition sameShown :: "request \<Rightarrow> agent \<Rightarrow> bool" where
  "sameShown req a =
     (case Pending a of
        None \<Rightarrow> False
      | Some r \<Rightarrow> rq_Kind req = KindDisplay \<and> rq_Kind r = KindDisplay \<and> rq_Device r = rq_Device req
          \<and> rq_Passkey r = rq_Passkey req)"

text \<open>\<open>Inl\<close> is the refusal, naming the device of the question that stands.\<close>

definition open_question :: "int \<Rightarrow> request \<Rightarrow> bool \<Rightarrow> agent \<Rightarrow> (string + nat) \<times> agent" where
  "open_question now req answerable a =
     (case ag_q a of
        Some q \<Rightarrow>
          if \<not> sameShown req a then (Inl (rq_Device (qn_req (ag_store a ! q))), a)
          else (Inr q, set_question q (\<lambda>x. x\<lparr>qn_req := req\<lparr>rq_ID := rq_ID (qn_req x)\<rparr>,
                         qn_expiry := Some (now + ag_wait a)\<rparr>) a)
      | None \<Rightarrow>
          (let n = ag_seq a + 1; q = length (ag_store a)
           in (Inr q, a\<lparr>ag_seq := n, ag_q := Some q,
                 ag_store := ag_store a @ [\<lparr>qn_req = req\<lparr>rq_ID := itoa (unat n)\<rparr>,
                    qn_answered = (if answerable then Some None else None), qn_expiry = Some (now + ag_wait a)\<rparr>]\<rparr>)))"

definition stop_and_empty :: "nat \<Rightarrow> agent \<Rightarrow> agent" where
  "stop_and_empty q a = (set_question q (qn_expiry_update (\<lambda>_. None)) a)\<lparr>ag_q := None\<rparr>"

definition close_question :: "nat \<Rightarrow> agent \<Rightarrow> agent" where
  "close_question q a = (if ag_q a \<noteq> Some q then a else stop_and_empty q a)"

definition Clear :: "agent \<Rightarrow> agent" where
  "Clear a = (case ag_q a of None \<Rightarrow> a | Some q \<Rightarrow> stop_and_empty q a)"

definition ClearShown :: "string \<Rightarrow> agent \<Rightarrow> agent" where
  "ClearShown dev a =
     (case ag_q a of
        None \<Rightarrow> a
      | Some q \<Rightarrow>
          if rq_Kind (qn_req (ag_store a ! q)) \<noteq> KindDisplay \<or> rq_Device (qn_req (ag_store a ! q)) \<noteq> dev then a
          else stop_and_empty q a)"

section \<open>What the methods ask\<close>

text \<open>\<open>services\<close>, by the sixteen bits that vary.\<close>

definition services :: "(string \<times> string) list" where
  "services =
    [(''1108'', ''a headset''), (''110a'', ''an audio source''), (''110b'', ''an audio sink (headphones)''),
     (''110c'', ''a remote control target''), (''110e'', ''a remote control''), (''111e'', ''hands free calling''),
     (''1124'', ''a keyboard or mouse (it could type into anything you have open)''),
     (''1105'', ''sending files to this machine''), (''112f'', ''your phone book''), (''1132'', ''your messages''),
     (''112d'', ''your SIM''), (''1116'', ''a network connection through this machine'')]"

definition serviceName :: "unicode \<Rightarrow> string \<Rightarrow> string" where
  "serviceName u uuid =
     (let t = lower_trimmed u uuid
      in if length t \<noteq> 36 \<or> \<not> HasSuffix t ''-0000-1000-8000-00805f9b34fb'' then []
         else aget [] services (take 4 (drop 4 t)))"

definition confirm_request :: "(rune \<Rightarrow> rune) \<Rightarrow> string \<Rightarrow> 32 word \<Rightarrow> request" where
  "confirm_request up dev passkey = no_request\<lparr>rq_Device := addrOf up dev, rq_Kind := KindConfirm,
     rq_Passkey := zero_padded 6 (unat passkey)\<rparr>"

definition authorize_request :: "(rune \<Rightarrow> rune) \<Rightarrow> string \<Rightarrow> request" where
  "authorize_request up dev = no_request\<lparr>rq_Device := addrOf up dev, rq_Kind := KindAuthorize\<rparr>"

definition service_request :: "unicode \<Rightarrow> (rune \<Rightarrow> rune) \<Rightarrow> string \<Rightarrow> string \<Rightarrow> request" where
  "service_request u up dev uuid = no_request\<lparr>rq_Device := addrOf up dev, rq_Kind := KindService,
     rq_UUID := printable u uuid, rq_Service := serviceName u uuid\<rparr>"

definition passkey_request :: "(rune \<Rightarrow> rune) \<Rightarrow> string \<Rightarrow> 32 word \<Rightarrow> 16 word \<Rightarrow> request" where
  "passkey_request up dev passkey entered = no_request\<lparr>rq_Device := addrOf up dev, rq_Kind := KindDisplay,
     rq_Passkey := zero_padded 6 (unat passkey), rq_Entered := uint entered\<rparr>"

definition pin_request :: "unicode \<Rightarrow> (rune \<Rightarrow> rune) \<Rightarrow> string \<Rightarrow> string \<Rightarrow> request" where
  "pin_request u up dev pin = no_request\<lparr>rq_Device := addrOf up dev, rq_Kind := KindDisplay,
     rq_Passkey := printable u pin\<rparr>"

section \<open>The agent on the bus\<close>

text \<open>What a method of the agent answers to the daemon of BlueZ.\<close>

datatype bus_answer = Agreed | Rejected rejection
and rejection = Another_waits string | Refused_here | Nobody_answered | Cannot_type

text \<open>
  \<open>ask\<close> is a goroutine that waits: it is started with a question opened, and is resumed by whichever
  case of its \<open>select\<close> is ready. \<open>wt_until\<close> is when its own timer is.
\<close>

record waiter =
  wt_q :: nat
  wt_until :: int

record bluetooth =
  bt_agent :: agent
  bt_waiting :: "waiter list"

definition ask_question :: "int \<Rightarrow> request \<Rightarrow> bluetooth \<Rightarrow> rejection option \<times> bluetooth" where
  "ask_question now req s =
     (case open_question now req True (bt_agent s) of
        (Inl dev, a) \<Rightarrow> (Some (Another_waits dev), s\<lparr>bt_agent := a\<rparr>)
      | (Inr q, a) \<Rightarrow> (None, s\<lparr>bt_agent := a, bt_waiting := bt_waiting s @ [\<lparr>wt_q = q, wt_until = now + ag_wait a\<rparr>]\<rparr>))"

definition show_question :: "int \<Rightarrow> request \<Rightarrow> bluetooth \<Rightarrow> bus_answer \<times> bluetooth" where
  "show_question now req s =
     (case open_question now req False (bt_agent s) of
        (Inl dev, a) \<Rightarrow> (Rejected (Another_waits dev), s\<lparr>bt_agent := a\<rparr>)
      | (Inr q, a) \<Rightarrow> (Agreed, s\<lparr>bt_agent := a\<rparr>))"

text \<open>The rest of \<open>ask\<close>, and its deferred close.\<close>

definition resume_answered :: "waiter \<Rightarrow> bluetooth \<Rightarrow> (bus_answer \<times> bluetooth) option" where
  "resume_answered w s =
     (case qn_answered (ag_store (bt_agent s) ! wt_q w) of
        Some (Some yes) \<Rightarrow>
          Some (if yes then Agreed else Rejected Refused_here,
            s\<lparr>bt_agent := close_question (wt_q w)
                 (set_question (wt_q w) (qn_answered_update (\<lambda>_. Some None)) (bt_agent s)),
              bt_waiting := remove1 w (bt_waiting s)\<rparr>)
      | _ \<Rightarrow> None)"

definition resume_late :: "int \<Rightarrow> waiter \<Rightarrow> bluetooth \<Rightarrow> (bus_answer \<times> bluetooth) option" where
  "resume_late now w s =
     (if now < wt_until w then None
      else Some (Rejected Nobody_answered,
            s\<lparr>bt_agent := close_question (wt_q w) (bt_agent s), bt_waiting := remove1 w (bt_waiting s)\<rparr>))"

text \<open>The timer of a question fires.\<close>

definition expire_question :: "int \<Rightarrow> nat \<Rightarrow> agent \<Rightarrow> agent option" where
  "expire_question now q a =
     (if q < length (ag_store a) then
        (case qn_expiry (ag_store a ! q) of
           Some t \<Rightarrow> if now < t then None
                     else Some (close_question q (set_question q (qn_expiry_update (\<lambda>_. None)) a))
         | None \<Rightarrow> None)
      else None)"

text \<open>The methods BlueZ calls, and what of them answers at once.\<close>

datatype bluez_call =
  Release | Cancel | RequestConfirmation string "32 word" | RequestAuthorization string
| AuthorizeService string string | DisplayPasskey string "32 word" "16 word" | DisplayPinCode string string
| RequestPinCode string | RequestPasskey string

definition asking :: "int \<Rightarrow> request \<Rightarrow> bluetooth \<Rightarrow> bus_answer option \<times> bluetooth" where
  "asking now req s = (case ask_question now req s of (r, s) \<Rightarrow> (map_option Rejected r, s))"

definition showing :: "int \<Rightarrow> request \<Rightarrow> bluetooth \<Rightarrow> bus_answer option \<times> bluetooth" where
  "showing now req s = (case show_question now req s of (r, s) \<Rightarrow> (Some r, s))"

fun called :: "unicode \<Rightarrow> (rune \<Rightarrow> rune) \<Rightarrow> int \<Rightarrow> bluez_call \<Rightarrow> bluetooth \<Rightarrow> bus_answer option \<times> bluetooth" where
  "called u up now Release s = (Some Agreed, s\<lparr>bt_agent := Clear (bt_agent s)\<rparr>)"
| "called u up now Cancel s = (Some Agreed, s\<lparr>bt_agent := Clear (bt_agent s)\<rparr>)"
| "called u up now (RequestConfirmation dev passkey) s = asking now (confirm_request up dev passkey) s"
| "called u up now (RequestAuthorization dev) s = asking now (authorize_request up dev) s"
| "called u up now (AuthorizeService dev uuid) s = asking now (service_request u up dev uuid) s"
| "called u up now (DisplayPasskey dev passkey entered) s = showing now (passkey_request up dev passkey entered) s"
| "called u up now (DisplayPinCode dev pin) s = showing now (pin_request u up dev pin) s"
| "called u up now (RequestPinCode dev) s = (Some (Rejected Cannot_type), s)"
| "called u up now (RequestPasskey dev) s = (Some (Rejected Cannot_type), s)"

section \<open>Every order things can happen in\<close>

text \<open>
  A session is the clock, what has happened, and the agent with its goroutines. What is noted is
  every answer a person gave that was taken, and every pairing that was let through.
\<close>

datatype happening = Said string bool | Let_in nat

type_synonym bt_session = "int \<times> happening list \<times> bluetooth"

definition noted :: "waiter \<Rightarrow> bus_answer \<Rightarrow> happening list" where
  "noted w r = (if r = Agreed then [Let_in (wt_q w)] else [])"

inductive bt_step :: "unicode \<Rightarrow> (rune \<Rightarrow> rune) \<Rightarrow> bt_session \<Rightarrow> bt_session \<Rightarrow> bool" for u up where
  time: "now \<le> later \<Longrightarrow> bt_step u up (now, l, s) (later, l, s)"
| bluez: "called u up now c s = (r, s') \<Longrightarrow> bt_step u up (now, l, s) (now, l, s')"
| person: "Answer i yes (bt_agent s) = (e, a) \<Longrightarrow>
    bt_step u up (now, l, s) (now, l @ (if e = None then [Said i yes] else []), s\<lparr>bt_agent := a\<rparr>)"
| decided: "w \<in> set (bt_waiting s) \<Longrightarrow> resume_answered w s = Some (r, s') \<Longrightarrow>
    bt_step u up (now, l, s) (now, l @ noted w r, s')"
| late: "w \<in> set (bt_waiting s) \<Longrightarrow> resume_late now w s = Some (r, s') \<Longrightarrow>
    bt_step u up (now, l, s) (now, l @ noted w r, s')"
| timer: "expire_question now q (bt_agent s) = Some a \<Longrightarrow> bt_step u up (now, l, s) (now, l, s\<lparr>bt_agent := a\<rparr>)"
| attempt_over: "bt_step u up (now, l, s) (now, l, s\<lparr>bt_agent := ClearShown dev (bt_agent s)\<rparr>)"

inductive bt_reached :: "unicode \<Rightarrow> (rune \<Rightarrow> rune) \<Rightarrow> bt_session \<Rightarrow> bool" for u up where
  start: "bt_reached u up (now, [], \<lparr>bt_agent = NewAgent, bt_waiting = []\<rparr>)"
| next_step: "bt_reached u up x \<Longrightarrow> bt_step u up x y \<Longrightarrow> bt_reached u up y"

section \<open>What stays true\<close>

definition id_at :: "nat \<Rightarrow> string" where "id_at i = itoa (unat (of_nat (Suc i) :: 64 word))"

definition store_ok :: "agent \<Rightarrow> bool" where
  "store_ok a \<longleftrightarrow> ag_seq a = of_nat (length (ag_store a))
     \<and> (\<forall>i < length (ag_store a). rq_ID (qn_req (ag_store a ! i)) = id_at i)"

definition slot_ok :: "int \<Rightarrow> agent \<Rightarrow> bool" where
  "slot_ok now a \<longleftrightarrow> ag_wait a = AnswerWait
     \<and> (\<forall>q. ag_q a = Some q \<longrightarrow> q < length (ag_store a)
          \<and> (\<exists>t. qn_expiry (ag_store a ! q) = Some t \<and> t \<le> now + AnswerWait))"

definition answers_ok :: "happening list \<Rightarrow> agent \<Rightarrow> bool" where
  "answers_ok l a \<longleftrightarrow> (\<forall>i < length (ag_store a). \<forall>yes. qn_answered (ag_store a ! i) = Some (Some yes) \<longrightarrow> Said (id_at i) yes \<in> set l)"

definition log_ok :: "nat \<Rightarrow> happening list \<Rightarrow> bool" where
  "log_ok n l \<longleftrightarrow> (\<forall>l1 q l2. l = l1 @ Let_in q # l2 \<longrightarrow>
     q < n \<and> Said (id_at q) True \<in> set l1 \<and> Let_in q \<notin> set l2)"

definition waiters_ok :: "int \<Rightarrow> happening list \<Rightarrow> bluetooth \<Rightarrow> bool" where
  "waiters_ok now l s \<longleftrightarrow> distinct (map wt_q (bt_waiting s))
     \<and> (\<forall>w \<in> set (bt_waiting s). wt_q w < length (ag_store (bt_agent s)) \<and> wt_until w \<le> now + AnswerWait
          \<and> Let_in (wt_q w) \<notin> set l)"

definition agent_ok :: "int \<Rightarrow> happening list \<Rightarrow> agent \<Rightarrow> bool" where
  "agent_ok now l a \<longleftrightarrow> store_ok a \<and> slot_ok now a \<and> answers_ok l a"

definition bt_ok :: "bt_session \<Rightarrow> bool" where
  "bt_ok x = (case x of (now, l, s) \<Rightarrow>
     agent_ok now l (bt_agent s) \<and> log_ok (length (ag_store (bt_agent s))) l \<and> waiters_ok now l s)"

lemma set_question_simps [simp]:
  "ag_wait (set_question q f a) = ag_wait a" "ag_q (set_question q f a) = ag_q a" "ag_seq (set_question q f a) = ag_seq a"
  "length (ag_store (set_question q f a)) = length (ag_store a)"
  "i < length (ag_store a) \<Longrightarrow> ag_store (set_question q f a) ! i = (if i = q then f (ag_store a ! i) else ag_store a ! i)"
  by (auto simp: set_question_def nth_list_update)

lemma agent_ok_set:
  assumes "agent_ok now l a" and "\<And>x. rq_ID (qn_req (f x)) = rq_ID (qn_req x)"
    and "\<And>x t. ag_q a = Some q \<Longrightarrow> qn_expiry x = Some t \<Longrightarrow> t \<le> now + AnswerWait
           \<Longrightarrow> \<exists>t'. qn_expiry (f x) = Some t' \<and> t' \<le> now + AnswerWait"
    and "\<And>yes. q < length (ag_store a) \<Longrightarrow> qn_answered (f (ag_store a ! q)) = Some (Some yes)
           \<Longrightarrow> qn_answered (ag_store a ! q) = Some (Some yes) \<or> Said (id_at q) yes \<in> set l"
  shows "agent_ok now l (set_question q f a)"
proof -
  have "store_ok (set_question q f a)" using assms(1,2) by (auto simp: agent_ok_def store_ok_def)
  moreover have "slot_ok now (set_question q f a)" using assms(1,3) by (auto simp: agent_ok_def slot_ok_def)
  moreover have "answers_ok l (set_question q f a)"
    using assms(1,4) by (simp add: agent_ok_def answers_ok_def) blast
  ultimately show ?thesis by (simp add: agent_ok_def)
qed

lemma agent_ok_empty: "agent_ok now l a \<Longrightarrow> agent_ok now l (stop_and_empty q a)"
  unfolding agent_ok_def store_ok_def slot_ok_def answers_ok_def stop_and_empty_def by auto

lemma stop_and_empty_simps [simp]:
  "length (ag_store (stop_and_empty q a)) = length (ag_store a)" "ag_q (stop_and_empty q a) = None"
  by (simp_all add: stop_and_empty_def)

lemma agent_ok_close: "agent_ok now l a \<Longrightarrow> agent_ok now l (close_question q a)"
  by (simp add: close_question_def agent_ok_empty)

lemma close_length [simp]: "length (ag_store (close_question q a)) = length (ag_store a)"
  by (simp add: close_question_def)

lemma agent_ok_Clear: "agent_ok now l a \<Longrightarrow> agent_ok now l (Clear a)"
  and agent_ok_ClearShown: "agent_ok now l a \<Longrightarrow> agent_ok now l (ClearShown dev a)"
  by (auto simp: Clear_def ClearShown_def agent_ok_empty split: option.split)

lemma Clear_length [simp]: "length (ag_store (Clear a)) = length (ag_store a)"
  "length (ag_store (ClearShown dev a)) = length (ag_store a)"
  by (auto simp: Clear_def ClearShown_def split: option.split)

lemma agent_ok_more: "agent_ok now l a \<Longrightarrow> agent_ok now (l @ l') a"
  by (auto simp: agent_ok_def answers_ok_def)

lemma agent_ok_later: "agent_ok now l a \<Longrightarrow> now \<le> later \<Longrightarrow> agent_ok later l a"
  by (fastforce simp: agent_ok_def slot_ok_def)

lemma open_ok:
  assumes "agent_ok now l a" and "open_question now req answerable a = (r, a')"
  shows "agent_ok now l a' \<and> length (ag_store a) \<le> length (ag_store a')
    \<and> (\<forall>q. ag_q a = None \<longrightarrow> r = Inr q \<longrightarrow> q = length (ag_store a) \<and> length (ag_store a') = Suc q)"
proof (cases "ag_q a")
  case None
  let ?n = "length (ag_store a)"
  have w: "ag_wait a = AnswerWait" using assms(1) by (simp add: agent_ok_def slot_ok_def)
  have seq: "ag_seq a + 1 = of_nat (Suc ?n)" using assms(1) by (simp add: agent_ok_def store_ok_def)
  have a': "r = Inr ?n" "ag_q a' = Some ?n" "ag_seq a' = of_nat (Suc ?n)" "ag_wait a' = AnswerWait"
    "ag_store a' = ag_store a @ [\<lparr>qn_req = req\<lparr>rq_ID := id_at ?n\<rparr>,
       qn_answered = (if answerable then Some None else None), qn_expiry = Some (now + AnswerWait)\<rparr>]"
    using assms(2) None seq w by (auto simp: open_question_def Let_def id_at_def)
  have "store_ok a'" "slot_ok now a'" "answers_ok l a'"
    using assms(1) a' by (auto simp: agent_ok_def store_ok_def slot_ok_def answers_ok_def nth_append less_Suc_eq)
  then show ?thesis using a' by (simp add: agent_ok_def)
next
  case (Some q)
  let ?f = "\<lambda>x. x\<lparr>qn_req := req\<lparr>rq_ID := rq_ID (qn_req x)\<rparr>, qn_expiry := Some (now + ag_wait a)\<rparr>"
  have "ag_wait a = AnswerWait" using assms(1) by (simp add: agent_ok_def slot_ok_def)
  then have "agent_ok now l (set_question q ?f a)" by (intro agent_ok_set assms(1)) simp_all
  moreover have "a' = a \<or> a' = set_question q ?f a" using assms(2) Some by (auto simp: open_question_def split: if_splits)
  ultimately show ?thesis using assms(1) Some by auto
qed

lemma log_ok_more: "log_ok n l \<Longrightarrow> n \<le> m \<Longrightarrow> log_ok m l"
  by (fastforce simp: log_ok_def)

lemma log_ok_in: "log_ok n l \<Longrightarrow> Let_in q \<in> set l \<Longrightarrow> q < n"
  by (auto simp: log_ok_def dest!: split_list)

lemma log_ok_snoc:
  assumes "log_ok n l" and "\<And>q. x = Let_in q \<Longrightarrow> q < n \<and> Said (id_at q) True \<in> set l \<and> Let_in q \<notin> set l"
  shows "log_ok n (l @ [x])"
  unfolding log_ok_def
proof (intro allI impI)
  fix l1 q l2 assume eq: "l @ [x] = l1 @ Let_in q # l2"
  show "q < n \<and> Said (id_at q) True \<in> set l1 \<and> Let_in q \<notin> set l2"
  proof (cases l2 rule: rev_cases)
    case Nil
    then show ?thesis using eq assms(2) by auto
  next
    case (snoc ys y)
    then have "l = l1 @ Let_in q # ys" "y = x" using eq by auto
    then show ?thesis using assms snoc by (auto simp: log_ok_def)
  qed
qed

lemma answer_ok:
  assumes "agent_ok now l a" and "Answer i yes a = (e, a')"
  shows "agent_ok now (l @ (if e = None then [Said i yes] else [])) a' \<and> length (ag_store a') = length (ag_store a)"
proof (cases "e = None")
  case False
  then have "a' = a" using assms(2) by (auto simp: Answer_def Let_def split: option.splits if_splits)
  then show ?thesis using assms(1) by (auto intro: agent_ok_more)
next
  case True
  then obtain q where q: "ag_q a = Some q" "i = rq_ID (qn_req (ag_store a ! q))"
    and a': "a' = set_question q (qn_answered_update (\<lambda>_. Some (Some yes))) a"
    using assms(2) by (auto simp: Answer_def Let_def split: option.splits if_splits)
  have "i = id_at q" using assms(1) q by (auto simp: agent_ok_def store_ok_def slot_ok_def)
  then have "agent_ok now (l @ [Said i yes]) a'"
    unfolding a' by (intro agent_ok_set agent_ok_more assms(1)) simp_all
  then show ?thesis using True a' by simp
qed

lemma asking_ok:
  assumes "bt_ok (now, l, s)" and kind: "rq_Kind req \<noteq> KindDisplay" and "asking now req s = (r', s')"
  shows "bt_ok (now, l, s')"
proof -
  obtain r a where opened: "open_question now req True (bt_agent s) = (r, a)" by (metis surj_pair)
  have ok: "agent_ok now l (bt_agent s)" "log_ok (length (ag_store (bt_agent s))) l" "waiters_ok now l s"
    using assms(1) by (auto simp: bt_ok_def)
  note oo = open_ok [OF ok(1) opened]
  show ?thesis
proof (cases r)
  case (Inl dev)
  then have "s' = s\<lparr>bt_agent := a\<rparr>" using assms(3) opened by (simp add: asking_def ask_question_def)
  then show ?thesis using ok oo by (auto simp: bt_ok_def waiters_ok_def intro: log_ok_more)
next
  case (Inr q)
  then have "ag_q (bt_agent s) = None"
    using opened kind by (auto simp: open_question_def sameShown_def split: option.splits if_splits)
  then have new: "q = length (ag_store (bt_agent s))" "length (ag_store a) = Suc q" "agent_ok now l a"
    using oo Inr by auto
  have s': "s' = s\<lparr>bt_agent := a, bt_waiting := bt_waiting s @ [\<lparr>wt_q = q, wt_until = now + AnswerWait\<rparr>]\<rparr>"
    using assms(3) opened Inr new(3) by (simp add: asking_def ask_question_def agent_ok_def slot_ok_def)
  have "q \<notin> wt_q ` set (bt_waiting s)" using ok(3) new(1) by (auto simp: waiters_ok_def)
  moreover have "Let_in q \<notin> set l" using log_ok_in [OF ok(2)] new(1) by blast
  ultimately have "waiters_ok now l s'"
    using ok(3) new by (auto simp: s' waiters_ok_def)
  then show ?thesis using new log_ok_more [OF ok(2), of "Suc q"] by (simp add: bt_ok_def s')
qed
qed

lemma same_waiters:
  assumes "bt_ok (now, l, s)" and "agent_ok now l a" and "length (ag_store (bt_agent s)) \<le> length (ag_store a)"
  shows "bt_ok (now, l, s\<lparr>bt_agent := a\<rparr>)"
  using assms by (auto simp: bt_ok_def waiters_ok_def intro: log_ok_more)

lemma showing_ok: "bt_ok (now, l, s) \<Longrightarrow> showing now req s = (r, s') \<Longrightarrow> bt_ok (now, l, s')"
  using open_ok [of now l "bt_agent s" req False]
  by (auto simp: showing_def show_question_def bt_ok_def [of "(now, l, s)"] intro!: same_waiters split: prod.splits sum.splits)

lemma confirm_kind: "rq_Kind (confirm_request up dev passkey) \<noteq> KindDisplay"
  and authorize_kind: "rq_Kind (authorize_request up dev) \<noteq> KindDisplay"
  and service_kind: "rq_Kind (service_request u up dev uuid) \<noteq> KindDisplay"
  by (simp_all add: confirm_request_def authorize_request_def service_request_def KindConfirm_def KindAuthorize_def
      KindService_def KindDisplay_def)

lemma called_ok:
  assumes "bt_ok (now, l, s)" and "called u up now c s = (r, s')"
  shows "bt_ok (now, l, s')"
proof -
  have "agent_ok now l (bt_agent s)" using assms(1) by (simp add: bt_ok_def)
  then show ?thesis
    using assms by (cases c) (auto intro: same_waiters agent_ok_Clear showing_ok
      dest: asking_ok [OF _ confirm_kind] asking_ok [OF _ authorize_kind] asking_ok [OF _ service_kind])
qed

lemma other_waiters:
  "waiters_ok now l s \<Longrightarrow> w \<in> set (bt_waiting s) \<Longrightarrow> x \<in> set (remove1 w (bt_waiting s))
    \<Longrightarrow> x \<in> set (bt_waiting s) \<and> wt_q x \<noteq> wt_q w"
  by (auto simp: waiters_ok_def distinct_map set_remove1_eq dest: inj_onD)

lemma resumed_ok:
  assumes "bt_ok (now, l, s)" and "w \<in> set (bt_waiting s)" and "agent_ok now l a"
    and "length (ag_store a) = length (ag_store (bt_agent s))" and "r = Agreed \<longrightarrow> Said (id_at (wt_q w)) True \<in> set l"
  shows "bt_ok (now, l @ noted w r, s\<lparr>bt_agent := a, bt_waiting := remove1 w (bt_waiting s)\<rparr>)"
proof -
  have ok: "log_ok (length (ag_store a)) l" "waiters_ok now l s" using assms(1,4) by (auto simp: bt_ok_def)
  have "wt_q w < length (ag_store a)" "Let_in (wt_q w) \<notin> set l" using ok(2) assms(2,4) by (auto simp: waiters_ok_def)
  then have "log_ok (length (ag_store a)) (l @ noted w r)"
    using assms(5) log_ok_snoc [OF ok(1), of "Let_in (wt_q w)"] ok(1) by (auto simp: noted_def)
  moreover have "waiters_ok now (l @ noted w r) (s\<lparr>bt_agent := a, bt_waiting := remove1 w (bt_waiting s)\<rparr>)"
  proof -
    have "distinct (map wt_q (remove1 w (bt_waiting s)))"
      using ok(2) set_remove1_subset [of w "bt_waiting s"] unfolding waiters_ok_def distinct_map
      by (meson distinct_remove1 inj_on_subset)
    moreover have "Let_in (wt_q x) \<notin> set (l @ noted w r) \<and> wt_q x < length (ag_store a) \<and> wt_until x \<le> now + AnswerWait"
      if "x \<in> set (remove1 w (bt_waiting s))" for x
      using ok(2) other_waiters [OF ok(2) assms(2) that] assms(4) by (auto simp: waiters_ok_def noted_def)
    ultimately show ?thesis by (simp add: waiters_ok_def)
  qed
  ultimately show ?thesis using assms(3) by (simp add: bt_ok_def agent_ok_more)
qed

lemma step_ok:
  assumes "bt_step u up x y" and "bt_ok x"
  shows "bt_ok y"
  using assms
proof (induction rule: bt_step.induct)
  case (time now later l s)
  then have "agent_ok later l (bt_agent s)" by (auto simp: bt_ok_def intro: agent_ok_later)
  moreover have "waiters_ok later l s" using time by (fastforce simp: bt_ok_def waiters_ok_def)
  ultimately show ?case using time(2) by (simp add: bt_ok_def)
next
  case (bluez now c s r s' l)
  then show ?case by (rule called_ok [rotated])
next
  case (person i yes s e a now l)
  then have ok: "agent_ok now l (bt_agent s)" "log_ok (length (ag_store (bt_agent s))) l" "waiters_ok now l s"
    by (auto simp: bt_ok_def)
  then show ?case
    using answer_ok [OF ok(1) person(1)] log_ok_snoc [OF ok(2), of "Said i yes"]
    by (auto simp: bt_ok_def waiters_ok_def)
next
  case (decided w s r s' now l)
  obtain yes where yes: "qn_answered (ag_store (bt_agent s) ! wt_q w) = Some (Some yes)"
    and s': "s' = s\<lparr>bt_agent := close_question (wt_q w) (set_question (wt_q w) (qn_answered_update (\<lambda>_. Some None)) (bt_agent s)),
      bt_waiting := remove1 w (bt_waiting s)\<rparr>" and r: "r = Agreed \<longrightarrow> yes"
    using decided(2) by (auto simp: resume_answered_def split: option.splits if_splits)
  have ok: "agent_ok now l (bt_agent s)" "wt_q w < length (ag_store (bt_agent s))"
    using decided(1,3) by (auto simp: bt_ok_def waiters_ok_def)
  then have "Said (id_at (wt_q w)) yes \<in> set l" using yes by (auto simp: agent_ok_def answers_ok_def)
  then show ?case
    unfolding s' using r ok(1) by (intro resumed_ok [OF decided(3,1)] agent_ok_close agent_ok_set) auto
next
  case (late w s now r s' l)
  then have "r \<noteq> Agreed" and s': "s' = s\<lparr>bt_agent := close_question (wt_q w) (bt_agent s), bt_waiting := remove1 w (bt_waiting s)\<rparr>"
    by (auto simp: resume_late_def split: if_splits)
  moreover have "agent_ok now l (bt_agent s)" using late(3) by (simp add: bt_ok_def)
  ultimately show ?case unfolding s' by (intro resumed_ok [OF late(3,1)] agent_ok_close) simp_all
next
  case (timer now q s a l)
  then have ok: "agent_ok now l (bt_agent s)" by (simp add: bt_ok_def)
  have a: "a = close_question q (set_question q (qn_expiry_update (\<lambda>_. None)) (bt_agent s))"
    using timer(1) by (auto simp: expire_question_def split: if_splits option.splits)
  have "agent_ok now l a"
  proof (cases "ag_q (bt_agent s) = Some q")
    case True
    then have "q < length (ag_store (bt_agent s))" using ok by (simp add: agent_ok_def slot_ok_def)
    then have "a = stop_and_empty q (bt_agent s)"
      using True by (simp add: a close_question_def stop_and_empty_def set_question_def)
    then show ?thesis using ok by (simp add: agent_ok_empty)
  next
    case False
    then show ?thesis unfolding a using ok by (intro agent_ok_close agent_ok_set) simp_all
  qed
  then show ?case using timer(2) a by (intro same_waiters) simp_all
next
  case (attempt_over now l s dev)
  then have "agent_ok now l (bt_agent s)" by (simp add: bt_ok_def)
  then show ?case by (intro same_waiters attempt_over agent_ok_ClearShown) simp_all
qed

lemma reached_ok: "bt_reached u up x \<Longrightarrow> bt_ok x"
proof (induction rule: bt_reached.induct)
  case (start now)
  then show ?case
    by (simp add: bt_ok_def agent_ok_def store_ok_def slot_ok_def answers_ok_def log_ok_def waiters_ok_def NewAgent_def)
qed (rule step_ok)

lemma id_at_inj:
  assumes "i < n" and "j < n" and "n < 2 ^ 64" and "id_at i = id_at j"
  shows "i = j"
proof -
  have "unat (of_nat (Suc k) :: 64 word) = Suc k" if "k < n" for k
    using that assms(3) by (simp add: unat_of_nat take_bit_nat_eq_self del: of_nat_Suc)
  then show ?thesis using assms itoa_inj [of "Suc i" "Suc j"] by (simp add: id_at_def)
qed

section \<open>What is promised\<close>


text \<open>C26: 
  A question nobody answers is refused, and a passkey nobody takes down goes by itself: the
  question that stands has a timer that fires within the forty-five seconds and leaves the slot
  empty, and every goroutine that waits is resumed within them, with a refusal.
\<close>

theorem questions_do_not_stand:
  assumes "bt_reached u up (now, l, s)"
  shows "(\<forall>q. ag_q (bt_agent s) = Some q \<longrightarrow>
        (\<exists>a. expire_question (now + AnswerWait) q (bt_agent s) = Some a \<and> ag_q a = None))
    \<and> (\<forall>w \<in> set (bt_waiting s). \<exists>s'. resume_late (now + AnswerWait) w s = Some (Rejected Nobody_answered, s')
         \<and> w \<notin> set (bt_waiting s') \<and> ag_q (bt_agent s') \<noteq> Some (wt_q w))"
proof -
  have ok: "slot_ok now (bt_agent s)" "waiters_ok now l s"
    using reached_ok [OF assms] by (auto simp: bt_ok_def agent_ok_def)
  have "\<exists>a. expire_question (now + AnswerWait) q (bt_agent s) = Some a \<and> ag_q a = None" if "ag_q (bt_agent s) = Some q" for q
    using that ok(1) by (auto simp: slot_ok_def expire_question_def close_question_def)
  moreover have "w \<notin> set (remove1 w (bt_waiting s))" if "w \<in> set (bt_waiting s)" for w
    using other_waiters [OF ok(2) that] by blast
  ultimately show ?thesis
    using ok(2) by (auto simp: waiters_ok_def resume_late_def close_question_def)
qed

section \<open>Witnesses\<close>

text \<open>A telephone asks, the person says yes to question 1, and the pairing is let through.\<close>

definition one_asked :: bt_session where
  "one_asked = (0, [], \<lparr>bt_agent = \<lparr>ag_wait = AnswerWait, ag_q = Some 0, ag_seq = 1,
     ag_store = [\<lparr>qn_req = no_request\<lparr>rq_ID := ''1'', rq_Kind := KindAuthorize\<rparr>, qn_answered = Some None,
                  qn_expiry = Some AnswerWait\<rparr>]\<rparr>,
     bt_waiting = [\<lparr>wt_q = 0, wt_until = AnswerWait\<rparr>]\<rparr>)"

lemma one_asked_reached: "bt_reached ascii_unicode id one_asked"
proof -
  have "addrOf id [] = []" by (simp add: addrOf_def HasPrefix_def Let_def)
  moreover have "itoa 1 = ''1''" by (simp add: itoa.simps digit_def)
  ultimately have "called ascii_unicode id 0 (RequestAuthorization []) \<lparr>bt_agent = NewAgent, bt_waiting = []\<rparr> = (None, snd (snd one_asked))"
    by (simp add: asking_def ask_question_def open_question_def authorize_request_def NewAgent_def one_asked_def no_request_def Let_def)
  from next_step [OF start bluez [OF this, of "[]"]] show ?thesis by (simp add: one_asked_def)
qed

definition one_paired :: bt_session where
  "one_paired = (0, [Said ''1'' True, Let_in 0], \<lparr>bt_agent = \<lparr>ag_wait = AnswerWait, ag_q = None, ag_seq = 1,
     ag_store = [\<lparr>qn_req = no_request\<lparr>rq_ID := ''1'', rq_Kind := KindAuthorize\<rparr>, qn_answered = Some None,
                  qn_expiry = None\<rparr>]\<rparr>,
     bt_waiting = []\<rparr>)"

lemma one_paired_reached: "bt_reached ascii_unicode id one_paired"
proof -
  let ?a = "set_question 0 (qn_answered_update (\<lambda>_. Some (Some True))) (bt_agent (snd (snd one_asked)))"
  let ?s = "(snd (snd one_asked))\<lparr>bt_agent := ?a\<rparr>"
  have "Answer ''1'' True (bt_agent (snd (snd one_asked))) = (None, ?a)"
    by (simp add: Answer_def one_asked_def)
  then have "bt_step ascii_unicode id one_asked (0, [Said ''1'' True], ?s)"
    using person [of "''1''" True "snd (snd one_asked)" None ?a ascii_unicode id 0 "[]"] by (simp add: one_asked_def)
  moreover have "resume_answered \<lparr>wt_q = 0, wt_until = AnswerWait\<rparr> ?s = Some (Agreed, snd (snd one_paired))"
    by (simp add: resume_answered_def one_asked_def one_paired_def set_question_def close_question_def stop_and_empty_def)
  then have "bt_step ascii_unicode id (0, [Said ''1'' True], ?s) one_paired"
    using decided [of "\<lparr>wt_q = 0, wt_until = AnswerWait\<rparr>" ?s Agreed "snd (snd one_paired)" ascii_unicode id 0 "[Said ''1'' True]"]
    by (simp add: one_asked_def one_paired_def noted_def)
  ultimately show ?thesis using one_asked_reached next_step by metis
qed


lemma questions_do_not_stand_witness:
  "\<exists>a. expire_question AnswerWait 0 (bt_agent (snd (snd one_asked))) = Some a \<and> ag_q a = None"
proof -
  have "bt_reached ascii_unicode id (0, [], snd (snd one_asked))" "ag_q (bt_agent (snd (snd one_asked))) = Some 0"
    using one_asked_reached by (simp_all add: one_asked_def)
  then show ?thesis
    using questions_do_not_stand [THEN conjunct1, of ascii_unicode id 0 "[]" "snd (snd one_asked)"] by simp
qed

end
