(* ===== verification/Bt_Client.thy ===== *)
theory Bt_Client
  imports Bt_Agent
begin

text \<open>
  The daemon's end of BlueZ (\<open>internal/bt/bluez.go\<close>): registering the agent, what it tells of the
  adapter and its devices, and the verbs. The system bus is a record of programs on a world of
  its own. A verb that takes long is run by a goroutine: it is a job that has been started and
  whose call is made when it is resumed. How long a call may take is an argument of the call.
\<close>

section \<open>The bus and the state\<close>

record 'w bluez =
  bz_Managed :: "('w, bus_error + objects) op"
  bz_Call :: "int \<Rightarrow> string \<Rightarrow> string \<Rightarrow> string list \<Rightarrow> ('w, bus_error option) op"
  bz_Set :: "string \<Rightarrow> string \<Rightarrow> string \<Rightarrow> bool \<Rightarrow> ('w, bus_error option) op"
  bz_Alive :: "('w, bool) op"

text \<open>In seconds: \<open>askFor\<close>, and \<open>waitFor\<close> for a call that waits for a person.\<close>

definition askFor :: int where "askFor = 2"
definition waitFor :: int where "waitFor = AnswerWait + 30"
definition managerPath :: string where "managerPath = ''/org/bluez''"
definition agentManagerIface :: string where "agentManagerIface = ''org.bluez.AgentManager1''"

record agent_state =
  as_Registered :: bool
  as_Default :: bool
  as_Why :: "bus_error option"

text \<open>A verb in progress: what it is called, the call it makes, and the device whose passkey goes down with it.\<close>

record job =
  jb_what :: string
  jb_path :: string
  jb_method :: string
  jb_args :: "string list"
  jb_clears :: "string option"

record 'w bt_client =
  cl_agent :: agent
  cl_doing :: string
  cl_failed :: "(string \<times> bus_error) option"
  cl_state :: agent_state
  cl_jobs :: "job list"
  cl_world :: 'w

type_synonym ('w, 'a) verb = "('w bt_client, 'a) op"

datatype bt_complaint =
  Bus_failed bus_error | Not_an_address string | No_adapter string | No_device string | Already_paired string
| Powered_off | Already_doing string | Nothing_to_trust string

definition bus :: "('w, 'a) op \<Rightarrow> ('w, 'a) verb" where
  "bus m = inside cl_world (\<lambda>w s. s\<lparr>cl_world := w\<rparr>) m"

section \<open>Registering\<close>

definition alreadyRegistered :: "bus_error \<Rightarrow> bool" where
  "alreadyRegistered e = (case e of Dbus_error n _ \<Rightarrow> n = ''org.bluez.Error.AlreadyExists'' | Other_error _ \<Rightarrow> False)"

definition register :: "'w bluez \<Rightarrow> ('w, bus_error option) verb" where
  "register b = do {
     err \<leftarrow> bus (bz_Call b askFor managerPath (agentManagerIface @ ''.RegisterAgent'') [AgentPath, Capability]);
     if (case err of None \<Rightarrow> False | Some e \<Rightarrow> \<not> alreadyRegistered e)
     then do {
       _ \<leftarrow> change (\<lambda>s. s\<lparr>cl_state := \<lparr>as_Registered = False, as_Default = False, as_Why = err\<rparr>\<rparr>);
       give err
     }
     else do {
       def \<leftarrow> bus (bz_Call b askFor managerPath (agentManagerIface @ ''.RequestDefaultAgent'') [AgentPath]);
       _ \<leftarrow> change (\<lambda>s. s\<lparr>cl_state := \<lparr>as_Registered = True, as_Default = (def = None), as_Why = def\<rparr>\<rparr>);
       give None
     }
   }"

section \<open>What the machine has\<close>

record bt_state =
  st_Adapter :: adapter
  st_Agent :: agent_state
  st_Devices :: "device list"
  st_Pending :: "request option"
  st_Doing :: string
  st_Failed :: "(string \<times> bus_error) option"

definition bt_read :: "unicode \<Rightarrow> (rune \<Rightarrow> rune) \<Rightarrow> 'w bluez \<Rightarrow> ('w, bus_error + bt_snapshot) verb" where
  "bt_read u up b = do { r \<leftarrow> bus (bz_Managed b); give (read_tree u up r) }"

definition with_name :: "bt_snapshot \<Rightarrow> request \<Rightarrow> request" where
  "with_name snap req =
     (case map_of (sn_byAddr snap) (rq_Device req) of None \<Rightarrow> req | Some d \<Rightarrow> req\<lparr>rq_Name := dv_Name d\<rparr>)"

definition unregistered :: agent_state where
  "unregistered = \<lparr>as_Registered = False, as_Default = False, as_Why = None\<rparr>"

definition bt_State :: "unicode \<Rightarrow> (rune \<Rightarrow> rune) \<Rightarrow> 'w bluez \<Rightarrow> ('w, bus_error + bt_state) verb" where
  "bt_State u up b = do {
     r \<leftarrow> bt_read u up b;
     case r of
       Inl e \<Rightarrow> do {
         alive \<leftarrow> bus (bz_Alive b);
         give (if \<not> alive
               then Inr \<lparr>st_Adapter = no_adapter ''the system bus connection has gone: the next question opens a new one'',
                      st_Agent = unregistered, st_Devices = [], st_Pending = None, st_Doing = [], st_Failed = None\<rparr>
               else Inl e)
       }
     | Inr snap \<Rightarrow>
         look (\<lambda>s. Inr \<lparr>st_Adapter = sn_adapter snap, st_Agent = cl_state s, st_Devices = sn_list snap,
                 st_Pending = map_option (with_name snap) (Pending (cl_agent s)), st_Doing = cl_doing s, st_Failed = cl_failed s\<rparr>)
   }"

definition ready :: "unicode \<Rightarrow> (rune \<Rightarrow> rune) \<Rightarrow> 'w bluez \<Rightarrow> ('w, bt_complaint + bt_snapshot) verb" where
  "ready u up b =
     attempt (bt_read u up b) (\<lambda>e. Inl (Bus_failed e)) (\<lambda>snap.
       give (if \<not> ad_Present (sn_adapter snap) then Inl (No_adapter (ad_Why (sn_adapter snap))) else Inr snap))"

definition find_device ::
  "unicode \<Rightarrow> (rune \<Rightarrow> rune) \<Rightarrow> 'w bluez \<Rightarrow> string \<Rightarrow> ('w, bt_complaint + bt_snapshot \<times> string \<times> device) verb" where
  "find_device u up b asked =
     (case normalAddr up asked of
        None \<Rightarrow> give (Inl (Not_an_address asked))
      | Some addr \<Rightarrow>
          attempt (ready u up b) Inl (\<lambda>snap.
            give (case (map_of (sn_devices snap) addr, map_of (sn_byAddr snap) addr) of
                    (Some path, Some d) \<Rightarrow> Inr (snap, path, d)
                  | _ \<Rightarrow> Inl (No_device addr))))"

section \<open>The verbs\<close>

text \<open>\<open>start\<close>: one at a time, the goroutine as a job.\<close>

definition start_job :: "job \<Rightarrow> ('w, bt_complaint option) verb" where
  "start_job j = do {
     busy \<leftarrow> look cl_doing;
     if busy \<noteq> [] then give (Some (Already_doing busy))
     else do {
       _ \<leftarrow> change (\<lambda>s. s\<lparr>cl_doing := jb_what j, cl_failed := None, cl_jobs := cl_jobs s @ [j]\<rparr>);
       give None
     }
   }"

text \<open>The goroutine's body, once the job is taken off the list; \<open>ClearShown\<close> is deferred by the call.\<close>

definition run_job :: "'w bluez \<Rightarrow> job \<Rightarrow> ('w, unit) verb" where
  "run_job b j = do {
     err \<leftarrow> bus (bz_Call b waitFor (jb_path j) (jb_method j) (jb_args j));
     _ \<leftarrow> (case jb_clears j of None \<Rightarrow> give ()
          | Some dev \<Rightarrow> change (\<lambda>s. s\<lparr>cl_agent := ClearShown dev (cl_agent s)\<rparr>));
     change (\<lambda>s. s\<lparr>cl_doing := [], cl_failed := (case err of None \<Rightarrow> cl_failed s | Some e \<Rightarrow> Some (jb_what j, e))\<rparr>)
   }"

definition job_ends :: "'w bluez \<Rightarrow> job \<Rightarrow> ('w, unit) verb" where
  "job_ends b j = do { _ \<leftarrow> change (\<lambda>s. s\<lparr>cl_jobs := remove1 j (cl_jobs s)\<rparr>); run_job b j }"

definition Power :: "unicode \<Rightarrow> (rune \<Rightarrow> rune) \<Rightarrow> 'w bluez \<Rightarrow> bool \<Rightarrow> ('w, bt_complaint option) verb" where
  "Power u up b on =
     attempt (ready u up b) Some (\<lambda>snap.
       do { r \<leftarrow> bus (bz_Set b (sn_path snap) adapterIface ''Powered'' on); give (map_option Bus_failed r) })"

definition Discover :: "unicode \<Rightarrow> (rune \<Rightarrow> rune) \<Rightarrow> 'w bluez \<Rightarrow> bool \<Rightarrow> ('w, bt_complaint option) verb" where
  "Discover u up b on =
     attempt (ready u up b) Some (\<lambda>snap.
       if \<not> ad_Powered (sn_adapter snap) then give (Some Powered_off)
       else do {
         r \<leftarrow> bus (bz_Call b askFor (sn_path snap) (adapterIface @ (if on then ''.StartDiscovery'' else ''.StopDiscovery'')) []);
         give (map_option Bus_failed r)
       })"

definition Pair :: "unicode \<Rightarrow> (rune \<Rightarrow> rune) \<Rightarrow> 'w bluez \<Rightarrow> string \<Rightarrow> ('w, bt_complaint option) verb" where
  "Pair u up b addr =
     attempt (find_device u up b addr) Some (\<lambda>(_, path, dev).
       if dv_Paired dev then give (Some (Already_paired (dv_Address dev)))
       else do {
         _ \<leftarrow> register b;
         start_job \<lparr>jb_what = ''pairing '' @ dv_Address dev, jb_path = path, jb_method = deviceIface @ ''.Pair'',
           jb_args = [], jb_clears = Some (dv_Address dev)\<rparr>
       })"

definition Connect :: "unicode \<Rightarrow> (rune \<Rightarrow> rune) \<Rightarrow> 'w bluez \<Rightarrow> string \<Rightarrow> ('w, bt_complaint option) verb" where
  "Connect u up b addr =
     attempt (find_device u up b addr) Some (\<lambda>(_, path, dev).
       start_job \<lparr>jb_what = ''connecting '' @ dv_Address dev, jb_path = path, jb_method = deviceIface @ ''.Connect'',
         jb_args = [], jb_clears = None\<rparr>)"

definition Disconnect :: "unicode \<Rightarrow> (rune \<Rightarrow> rune) \<Rightarrow> 'w bluez \<Rightarrow> string \<Rightarrow> ('w, bt_complaint option) verb" where
  "Disconnect u up b addr =
     attempt (find_device u up b addr) Some (\<lambda>(_, path, dev).
       start_job \<lparr>jb_what = ''disconnecting '' @ dv_Address dev, jb_path = path, jb_method = deviceIface @ ''.Disconnect'',
         jb_args = [], jb_clears = None\<rparr>)"

definition Forget_device :: "unicode \<Rightarrow> (rune \<Rightarrow> rune) \<Rightarrow> 'w bluez \<Rightarrow> string \<Rightarrow> ('w, bt_complaint option) verb" where
  "Forget_device u up b addr =
     attempt (find_device u up b addr) Some (\<lambda>(snap, path, dev).
       start_job \<lparr>jb_what = ''forgetting '' @ dv_Address dev, jb_path = sn_path snap, jb_method = adapterIface @ ''.RemoveDevice'',
         jb_args = [path], jb_clears = None\<rparr>)"

definition Trust :: "unicode \<Rightarrow> (rune \<Rightarrow> rune) \<Rightarrow> 'w bluez \<Rightarrow> string \<Rightarrow> bool \<Rightarrow> ('w, bt_complaint option) verb" where
  "Trust u up b addr yes =
     attempt (find_device u up b addr) Some (\<lambda>(_, path, dev).
       if yes \<and> \<not> dv_Paired dev then give (Some (Nothing_to_trust (dv_Address dev)))
       else do { r \<leftarrow> bus (bz_Set b path deviceIface ''Trusted'' yes); give (map_option Bus_failed r) })"

section \<open>What the verbs may do\<close>

datatype request_verb =
  VState | VRegister | VPower bool | VDiscover bool | VPair string | VConnect string | VDisconnect string | VForget string
| VTrust string bool | VEnds job | VAnswer string bool

definition quiet :: "('w, 'a) verb \<Rightarrow> ('w, unit) verb" where "quiet v = do { _ \<leftarrow> v; give () }"

definition Answer_verb :: "string \<Rightarrow> bool \<Rightarrow> ('w, answer_error option) verb" where
  "Answer_verb i yes = step_op (\<lambda>s. case Answer i yes (cl_agent s) of (e, a) \<Rightarrow> (e, s\<lparr>cl_agent := a\<rparr>))"

fun do_verb :: "unicode \<Rightarrow> (rune \<Rightarrow> rune) \<Rightarrow> 'w bluez \<Rightarrow> request_verb \<Rightarrow> ('w, unit) verb" where
  "do_verb u up b VState = quiet (bt_State u up b)"
| "do_verb u up b VRegister = quiet (register b)"
| "do_verb u up b (VPower on) = quiet (Power u up b on)"
| "do_verb u up b (VDiscover on) = quiet (Discover u up b on)"
| "do_verb u up b (VPair addr) = quiet (Pair u up b addr)"
| "do_verb u up b (VConnect addr) = quiet (Connect u up b addr)"
| "do_verb u up b (VDisconnect addr) = quiet (Disconnect u up b addr)"
| "do_verb u up b (VForget addr) = quiet (Forget_device u up b addr)"
| "do_verb u up b (VTrust addr yes) = quiet (Trust u up b addr yes)"
| "do_verb u up b (VEnds j) = quiet (job_ends b j)"
| "do_verb u up b (VAnswer i yes) = quiet (Answer_verb i yes)"

text \<open>A bus that is watched: it remembers which devices were set to be trusted, or not.\<close>

definition trust_of :: "string \<Rightarrow> string \<Rightarrow> string \<Rightarrow> bool \<Rightarrow> (string \<times> bool) list" where
  "trust_of path iface prop value = (if iface = deviceIface \<and> prop = ''Trusted'' then [(path, value)] else [])"

definition beside_log :: "('w, 'a) op \<Rightarrow> ('w \<times> (string \<times> bool) list, 'a) op" where
  "beside_log m = inside fst (\<lambda>w (_, l). (w, l)) m"

definition watched :: "'w bluez \<Rightarrow> ('w \<times> (string \<times> bool) list) bluez" where
  "watched b = \<lparr>bz_Managed = beside_log (bz_Managed b),
     bz_Call = (\<lambda>within path method args. beside_log (bz_Call b within path method args)),
     bz_Set = (\<lambda>path iface prop value. do {
        _ \<leftarrow> change (\<lambda>(w, l). (w, l @ trust_of path iface prop value));
        beside_log (bz_Set b path iface prop value) }),
     bz_Alive = beside_log (bz_Alive b)\<rparr>"

definition trusting :: "('w \<times> (string \<times> bool) list) bt_client \<Rightarrow> (string \<times> bool) list" where
  "trusting s = snd (cl_world s)"

text \<open>One job at a time, and \<open>doing\<close> is what it is called.\<close>

definition jobs_ok :: "'w bt_client \<Rightarrow> bool" where
  "jobs_ok s \<longleftrightarrow> (case cl_jobs s of [] \<Rightarrow> cl_doing s = [] | [j] \<Rightarrow> cl_doing s = jb_what j \<and> jb_what j \<noteq> [] | _ \<Rightarrow> False)"

lemma run_bus [simp]: "run (bus m) s = (case run m (cl_world s) of (x, w) \<Rightarrow> (x, s\<lparr>cl_world := w\<rparr>))"
  by (simp add: bus_def)

lemma run_beside [simp]: "run (beside_log m) (w, l) = (case run m w of (x, w') \<Rightarrow> (x, (w', l)))"
  by (simp add: beside_log_def)

definition verbal :: "('w bt_client \<Rightarrow> bool) \<Rightarrow> bool" where
  "verbal P \<longleftrightarrow> (\<forall>s w a st. P (s\<lparr>cl_world := w\<rparr>) = P s \<and> P (s\<lparr>cl_agent := a\<rparr>) = P s \<and> P (s\<lparr>cl_state := st\<rparr>) = P s)"

lemma verbal_jobs: "verbal jobs_ok"
  by (simp add: verbal_def jobs_ok_def split: list.split)

lemma jobs_ok_updates [simp]:
  "jobs_ok (s\<lparr>cl_world := w\<rparr>) = jobs_ok s" "jobs_ok (s\<lparr>cl_agent := a\<rparr>) = jobs_ok s" "jobs_ok (s\<lparr>cl_state := st\<rparr>) = jobs_ok s"
  by (simp_all add: jobs_ok_def split: list.split)

lemma keeps_bus: "verbal P \<Longrightarrow> preserves P (bus m)"
  by (simp add: ensures_def verbal_def split: prod.split)

lemma keeps_quiet [keeping]: "preserves P v \<Longrightarrow> preserves P (quiet v)"
  by (auto simp: quiet_def intro!: keeping)

lemma keeps_start: "jb_what j \<noteq> [] \<Longrightarrow> preserves jobs_ok (start_job j)"
  by (auto simp: start_job_def ensures_def jobs_ok_def split: list.splits)

lemma keeps_ends: "run (job_ends b j) s = (x, s') \<Longrightarrow> jobs_ok s \<Longrightarrow> j \<in> set (cl_jobs s) \<Longrightarrow> jobs_ok s'"
  by (auto simp: job_ends_def run_job_def jobs_ok_def split: list.splits prod.splits option.splits)

lemmas verb_defs = bt_State_def bt_read_def register_def ready_def find_device_def Power_def Discover_def Pair_def
  Connect_def Disconnect_def Forget_device_def Trust_def

lemma verbs_keep_jobs:
  assumes "jobs_ok s" and "run (do_verb u up b v) s = (x, s')" and "\<And>j. v = VEnds j \<Longrightarrow> j \<in> set (cl_jobs s)"
  shows "jobs_ok s'"
proof (cases "\<exists>j. v = VEnds j")
  case True
  then obtain j where v: "v = VEnds j" by blast
  obtain y t where "run (job_ends b j) s = (y, t)" by (metis surj_pair)
  then show ?thesis using keeps_ends [of b j s y t] assms v by (simp add: quiet_def)
next
  case False
  then have "preserves jobs_ok (do_verb u up b v)"
    by (cases v) (auto simp: verb_defs Answer_verb_def
        intro!: keeping keeps_bus keeps_start keeps_change keeps_step verbal_jobs split: prod.split)
  then show ?thesis using assms(1,2) by (rule ensuresD)
qed

abbreviation trust_so_far :: "(string \<times> bool) list \<Rightarrow> ('w \<times> (string \<times> bool) list) bt_client \<Rightarrow> bool" where
  "trust_so_far t s \<equiv> trusting s = t"

lemma keeps_beside_log: "preserves (trust_so_far t) (bus (beside_log m))"
  by (auto simp: ensures_def trusting_def beside_log_def split_beta)

lemma watched_simps [simp]:
  "bz_Managed (watched b) = beside_log (bz_Managed b)"
  "bz_Call (watched b) within path method args = beside_log (bz_Call b within path method args)"
  "bz_Alive (watched b) = beside_log (bz_Alive b)"
  by (simp_all add: watched_def)

lemma set_watched: "run (bus (bz_Set (watched b) path iface prop value)) s = (x, s')
    \<Longrightarrow> trusting s' = trusting s @ trust_of path iface prop value"
  by (cases "cl_world s") (auto simp: watched_def trusting_def beside_log_def split: prod.splits)

lemma keeps_power: "preserves (trust_so_far t) (bus (bz_Set (watched b) path adapterIface ''Powered'' on))"
  by (rule ensuresI) (drule set_watched, simp add: trust_of_def)

lemma trusting_updates [simp]:
  "trusting (s\<lparr>cl_agent := a\<rparr>) = trusting s" "trusting (s\<lparr>cl_state := st\<rparr>) = trusting s"
  "trusting (s\<lparr>cl_jobs := js\<rparr>) = trusting s" "trusting (s\<lparr>cl_doing := d\<rparr>) = trusting s" "trusting (s\<lparr>cl_failed := f\<rparr>) = trusting s"
  by (simp_all add: trusting_def)

lemmas trust_keeping = keeping keeps_beside_log keeps_power keeps_change keeps_step

lemma keeps_trust_start: "preserves (trust_so_far t) (start_job j)"
  by (auto simp: start_job_def intro!: trust_keeping)

lemma keeps_trust_find: "preserves (trust_so_far t) (find_device u up (watched b) addr)"
  by (auto simp: find_device_def ready_def bt_read_def intro!: trust_keeping)

text \<open>A tree the bus may answer with.\<close>

definition seen :: "unicode \<Rightarrow> (rune \<Rightarrow> rune) \<Rightarrow> 'w bluez \<Rightarrow> bt_snapshot \<Rightarrow> bool" where
  "seen u up b snap \<longleftrightarrow> (\<exists>w. read_tree u up (fst (run (bz_Managed b) w)) = Inr snap)"

lemma find_device_seen:
  assumes "run (find_device u up (watched b) asked) s = (Inr (snap, path, d), s')"
  shows "\<exists>addr. normalAddr up asked = Some addr \<and> seen u up b snap
    \<and> map_of (sn_devices snap) addr = Some path \<and> map_of (sn_byAddr snap) addr = Some d"
proof -
  obtain addr where addr: "normalAddr up asked = Some addr"
    using assms by (auto simp: find_device_def split: option.splits)
  obtain w l where "cl_world s = (w, l)" by (metis surj_pair)
  then have "read_tree u up (fst (run (bz_Managed b) w)) = Inr snap
    \<and> map_of (sn_devices snap) addr = Some path \<and> map_of (sn_byAddr snap) addr = Some d"
    using assms addr
    by (auto simp: find_device_def ready_def bt_read_def beside_log_def split: prod.splits sum.splits option.splits if_splits)
  then show ?thesis using addr unfolding seen_def by blast
qed

text \<open>C12: 
  Pairing does not trust, and nothing else does unasked. Whatever is asked of the client, and
  however the bus answers, no property of a device that says it is trusted is written; but when
  the person asked for that in so many words: then it is one write, at the path BlueZ answered
  for the address asked for, and a device is only trusted that BlueZ says is paired.
\<close>

theorem trust_is_a_decision:
  assumes "run (do_verb u up (watched b) v) s = (x, s')"
  shows "trusting s' = trusting s
    \<or> (\<exists>asked yes addr path d snap. v = VTrust asked yes \<and> trusting s' = trusting s @ [(path, yes)]
        \<and> normalAddr up asked = Some addr \<and> seen u up b snap \<and> map_of (sn_devices snap) addr = Some path
        \<and> map_of (sn_byAddr snap) addr = Some d \<and> (yes \<longrightarrow> dv_Paired d))"
proof (cases "\<exists>asked yes. v = VTrust asked yes")
  case False
  then have "preserves (trust_so_far (trusting s)) (do_verb u up (watched b) v)"
    by (cases v) (auto simp: bt_State_def bt_read_def register_def ready_def Power_def Discover_def Pair_def Connect_def
        Disconnect_def Forget_device_def Answer_verb_def job_ends_def run_job_def
        intro!: trust_keeping keeps_trust_start keeps_trust_find split: prod.split)
  then show ?thesis using assms ensuresD by (metis (mono_tags, lifting))
next
  case True
  then obtain asked yes where v: "v = VTrust asked yes" by blast
  obtain r s1 where find: "run (find_device u up (watched b) asked) s = (r, s1)" by (metis surj_pair)
  then have t1: "trusting s1 = trusting s" using ensuresD [OF keeps_trust_find] by (metis (mono_tags, lifting))
  show ?thesis
  proof (cases "\<exists>snap path d. r = Inr (snap, path, d) \<and> (yes \<longrightarrow> dv_Paired d)")
    case True
    then obtain snap path d where r: "r = Inr (snap, path, d)" "yes \<longrightarrow> dv_Paired d" by blast
    obtain y s2 where "run (bus (bz_Set (watched b) path deviceIface ''Trusted'' yes)) s1 = (y, s2)" by (metis surj_pair)
    moreover from this have "trusting s2 = trusting s @ [(path, yes)]" using set_watched t1 by (fastforce simp: trust_of_def)
    ultimately have "trusting s' = trusting s @ [(path, yes)]"
      using assms v find r by (auto simp: quiet_def Trust_def)
    then show ?thesis using find_device_seen [OF find [unfolded r(1)]] r(2) v by blast
  next
    case False
    then have "s' = s1" using assms v find by (auto simp: quiet_def Trust_def split: sum.splits)
    then show ?thesis using t1 by simp
  qed
qed

section \<open>A witness\<close>

definition small_bus :: "unit bluez" where
  "small_bus = \<lparr>bz_Managed = give (Inr one_device), bz_Call = (\<lambda>_ _ _ _. give None), bz_Set = (\<lambda>_ _ _ _. give None), bz_Alive = give True\<rparr>"

definition idle_client :: "'w \<Rightarrow> 'w bt_client" where
  "idle_client w = \<lparr>cl_agent = NewAgent, cl_doing = [], cl_failed = None, cl_state = unregistered, cl_jobs = [], cl_world = w\<rparr>"

lemma trust_is_a_decision_witness:
  "\<exists>snap d. trusting (snd (run (do_verb ascii_unicode id (watched small_bus) (VTrust ''11:22:33:44:55:66'' True)) (idle_client ((), []))))
     = [(''/a/d'', True)] \<and> seen ascii_unicode id small_bus snap
     \<and> map_of (sn_byAddr snap) ''11:22:33:44:55:66'' = Some d \<and> dv_Paired d"
proof -
  let ?r = "run (do_verb ascii_unicode id (watched small_bus) (VTrust ''11:22:33:44:55:66'' True)) (idle_client ((), []))"
  have "trusting (snd ?r) = [(''/a/d'', True)]"
    using small_tree small_address
    by (auto simp: quiet_def Trust_def find_device_def ready_def bt_read_def small_bus_def idle_client_def watched_def
        beside_log_def trusting_def trust_of_def)
  moreover have "trusting (idle_client ((), [])) = []" by (simp add: trusting_def idle_client_def)
  moreover note trust_is_a_decision [OF surjective_pairing [of ?r]]
  ultimately show ?thesis using small_address by auto
qed

end
