(* ===== verification/Keymap_Registry.thy ===== *)
theory Keymap_Registry
  imports Go_Text
begin

text \<open>
  The action map (\<open>internal/keymap/registry.go\<close>): what each action means for niri, as the source
  lists it, group by group, and the groups in the order of the cheatsheet.
\<close>

datatype argKind = argNone | argName

record entry =
  en_Group :: string
  en_Desc :: string
  en_Native :: string
  en_Spawn :: "string list"
  en_Arg :: argKind
  en_Repeat :: bool
  en_WhenLocked :: bool
  en_Unsuppressible :: bool
  en_written :: bool
  en_performs :: bool

definition argPlaceholder :: string where "argPlaceholder = ''{arg}''"

definition takes_arg :: "entry \<Rightarrow> bool" where "takes_arg e \<longleftrightarrow> en_Arg e \<noteq> argNone"

definition groups :: "string list" where
  "groups = [''desk'', ''monitor'', ''workspace'', ''window'', ''launch'', ''ask'', ''pass'', ''clip'', ''capture'', ''media'',
     ''audio'', ''net'', ''modes'', ''system'']"

text \<open>A row with the fields the source leaves out at their zero values.\<close>

abbreviation native_row :: "string \<Rightarrow> string \<Rightarrow> string \<Rightarrow> entry" where
  "native_row g d n \<equiv> \<lparr>en_Group = g, en_Desc = d, en_Native = n, en_Spawn = [], en_Arg = argNone, en_Repeat = False,
     en_WhenLocked = False, en_Unsuppressible = False, en_written = False, en_performs = False\<rparr>"

abbreviation spawn_row :: "string \<Rightarrow> string \<Rightarrow> string list \<Rightarrow> entry" where
  "spawn_row g d argv \<equiv> \<lparr>en_Group = g, en_Desc = d, en_Native = [], en_Spawn = argv, en_Arg = argNone, en_Repeat = False,
     en_WhenLocked = False, en_Unsuppressible = False, en_written = False, en_performs = False\<rparr>"

definition registry_desk :: "(string \<times> entry) list" where
  "registry_desk =
   [
    (''desk.switcher'', (spawn_row ''desk'' ''open the desk switcher'' [''zde'', ''desk'', ''switcher''])\<lparr>en_written := True\<rparr>),
    (''desk.next'', (spawn_row ''desk'' ''switch to the next desk'' [''zde'', ''desk'', ''next''])\<lparr>en_written := True\<rparr>),
    (''desk.prev'', (spawn_row ''desk'' ''switch to the previous desk'' [''zde'', ''desk'', ''prev''])\<lparr>en_written := True\<rparr>),
    (''desk.last'', (spawn_row ''desk'' ''toggle to the last-active desk'' [''zde'', ''desk'', ''last''])\<lparr>en_written := True\<rparr>),
    (''nav.down'', (spawn_row ''desk'' ''focus the window below, else rotate to the next desk'' [''zde'', ''nav'', ''down''])\<lparr>en_written := True\<rparr>),
    (''nav.up'', (spawn_row ''desk'' ''focus the window above, else rotate to the previous desk'' [''zde'', ''nav'', ''up''])\<lparr>en_written := True\<rparr>),
    (''desk.move-window-next'', (spawn_row ''desk'' ''move the window to the next desk'' [''zde'', ''desk'', ''move-window'', ''next''])\<lparr>en_written := True\<rparr>),
    (''desk.move-window-prev'', (spawn_row ''desk'' ''move the window to the previous desk'' [''zde'', ''desk'', ''move-window'', ''prev''])\<lparr>en_written := True\<rparr>),
    (''desk.move-window-to'', (spawn_row ''desk'' ''pick a desk, and send the focused window there'' [''zde'', ''desk'', ''move-window-to''])\<lparr>en_written := True\<rparr>),
    (''desk.move-workspace-to'', (spawn_row ''desk'' ''pick a desk, and hand it this whole workspace (how the regulars are made)'' [''zde'', ''desk'', ''move-workspace-to''])\<lparr>en_written := True\<rparr>),
    (''desk.queue-jump'', (spawn_row ''desk'' ''jump to the queue's top item'' [''zde'', ''desk'', ''queue-jump''])\<lparr>en_written := True\<rparr>),
    (''desk.regulars'', (spawn_row ''desk'' ''go to the regulars (shared singletons: comms, music, personal browser)'' [''zde'', ''desk'', ''regulars''])\<lparr>en_written := True\<rparr>),
    (''desk.panic'', (spawn_row ''desk'' ''panic: the decoy desk, mute, silence - and the same key comes back'' [''zde'', ''desk'', ''panic''])\<lparr>en_Unsuppressible := True, en_written := True\<rparr>),
    (''desk.block'', (spawn_row ''desk'' ''block: hard lock, no notifications or capture leak'' [''zde'', ''desk'', ''block''])\<lparr>en_Unsuppressible := True\<rparr>),
    (''desk.zen'', (spawn_row ''desk'' ''toggle zen: no bar, no borders, no gaps'' [''zde'', ''desk'', ''zen''])\<lparr>en_written := True\<rparr>),
    (''desk.pause'', spawn_row ''desk'' ''pause this desk's apps, freeing what they hold'' [''zde'', ''desk'', ''pause''])]"

definition registry_monitor :: "(string \<times> entry) list" where
  "registry_monitor =
   [
    (''monitor.focus left'', (native_row ''monitor'' ''focus the monitor to the left'' ''focus-monitor-left'')\<lparr>en_performs := True\<rparr>),
    (''monitor.focus right'', (native_row ''monitor'' ''focus the monitor to the right'' ''focus-monitor-right'')\<lparr>en_performs := True\<rparr>),
    (''monitor.move-window left'', (native_row ''monitor'' ''move the window one monitor left'' ''move-window-to-monitor-left'')\<lparr>en_performs := True\<rparr>),
    (''monitor.move-window right'', (native_row ''monitor'' ''move the window one monitor right'' ''move-window-to-monitor-right'')\<lparr>en_performs := True\<rparr>)]"

definition registry_window :: "(string \<times> entry) list" where
  "registry_window =
   [
    (''window.focus left'', (native_row ''window'' ''focus the column to the left'' ''focus-column-left'')\<lparr>en_Repeat := True, en_performs := True\<rparr>),
    (''window.focus right'', (native_row ''window'' ''focus the column to the right'' ''focus-column-right'')\<lparr>en_Repeat := True, en_performs := True\<rparr>),
    (''window.move left'', (native_row ''window'' ''move the column left'' ''move-column-left'')\<lparr>en_Repeat := True, en_performs := True\<rparr>),
    (''window.move right'', (native_row ''window'' ''move the column right'' ''move-column-right'')\<lparr>en_Repeat := True, en_performs := True\<rparr>),
    (''window.narrower'', (native_row ''window'' ''make the column narrower'' ''set-column-width \"-10%\"'')\<lparr>en_Repeat := True\<rparr>),
    (''window.wider'', (native_row ''window'' ''make the column wider'' ''set-column-width \"+10%\"'')\<lparr>en_Repeat := True\<rparr>),
    (''window.shorter'', (native_row ''window'' ''make the window shorter'' ''set-window-height \"-10%\"'')\<lparr>en_Repeat := True\<rparr>),
    (''window.taller'', (native_row ''window'' ''make the window taller'' ''set-window-height \"+10%\"'')\<lparr>en_Repeat := True\<rparr>),
    (''window.fullscreen'', (native_row ''window'' ''fullscreen'' ''fullscreen-window'')\<lparr>en_performs := True\<rparr>),
    (''window.float'', (native_row ''window'' ''toggle floating'' ''toggle-window-floating'')\<lparr>en_performs := True\<rparr>),
    (''window.close'', (native_row ''window'' ''close the window'' ''close-window'')\<lparr>en_performs := True\<rparr>),
    (''window.consume'', (native_row ''window'' ''consume: pull the next window into this column (in)'' ''consume-window-into-column'')\<lparr>en_performs := True\<rparr>),
    (''window.expel'', (native_row ''window'' ''expel: push the window out of its column (out)'' ''expel-window-from-column'')\<lparr>en_performs := True\<rparr>),
    (''window.jump-to'', (spawn_row ''window'' ''jump to any open window by name'' [''zde'', ''window'', ''jump-to''])\<lparr>en_written := True\<rparr>)]"

definition registry_workspace :: "(string \<times> entry) list" where
  "registry_workspace =
   [
    (''workspace.next'', (spawn_row ''workspace'' ''one along this desk's band, stopping at its end'' [''zde'', ''workspace'', ''next''])\<lparr>en_written := True\<rparr>),
    (''workspace.prev'', (spawn_row ''workspace'' ''one back along this desk's band, stopping at its end'' [''zde'', ''workspace'', ''prev''])\<lparr>en_written := True\<rparr>),
    (''workspace.overview'', (native_row ''workspace'' ''toggle the overview (zoom out to all workspaces)'' ''toggle-overview'')\<lparr>en_performs := True\<rparr>)]"

definition registry_launch :: "(string \<times> entry) list" where
  "registry_launch =
   [
    (''launcher.open'', (spawn_row ''launch'' ''zlg, the app launcher'' [''zlg''])\<lparr>en_written := True\<rparr>),
    (''palette.open'', (spawn_row ''launch'' ''search and run any action by name'' [''zde'', ''palette''])\<lparr>en_written := True\<rparr>),
    (''app.launch'', (spawn_row ''launch'' ''launch'' [''zde'', ''app'', ''launch''])\<lparr>en_Arg := argName, en_written := True\<rparr>),
    (''app.launch-at'', (spawn_row ''launch'' ''prompt for a location, then launch'' [''zde'', ''app'', ''launch-at''])\<lparr>en_Arg := argName\<rparr>)]"

definition registry_ask :: "(string \<times> entry) list" where
  "registry_ask =
   [
    (''ask.oneshot'', (spawn_row ''ask'' ''one-shot question popup'' [''zde'', ''ask'', ''oneshot''])\<lparr>en_written := True\<rparr>),
    (''ask.panel'', (spawn_row ''ask'' ''the ask panel'' [''zde'', ''ask'', ''panel''])\<lparr>en_written := True\<rparr>)]"

definition registry_pass :: "(string \<times> entry) list" where
  "registry_pass =
   [
    (''pass.open'', spawn_row ''pass'' ''open zde-pass (types a secret into the focused field, never via the clipboard)'' [''zde'', ''pass''])]"

definition registry_clip :: "(string \<times> entry) list" where
  "registry_clip =
   [
    (''clip.history'', (spawn_row ''clip'' ''what was copied recently, and Enter puts one back'' [''zde'', ''clip'', ''history''])\<lparr>en_written := True\<rparr>)]"

definition registry_capture :: "(string \<times> entry) list" where
  "registry_capture =
   [
    (''capture.shot-region'', native_row ''capture'' ''screenshot a region (niri's picker)'' ''screenshot''),
    (''capture.shot-window'', native_row ''capture'' ''screenshot the focused window'' ''screenshot-window''),
    (''capture.shot-full'', native_row ''capture'' ''screenshot the whole output'' ''screenshot-screen'')]"

definition registry_media :: "(string \<times> entry) list" where
  "registry_media =
   [
    (''media.play-pause'', (spawn_row ''media'' ''play/pause the media target'' [''zde'', ''media'', ''play-pause''])\<lparr>en_WhenLocked := True\<rparr>),
    (''media.next'', (spawn_row ''media'' ''next track on the media target'' [''zde'', ''media'', ''next''])\<lparr>en_WhenLocked := True\<rparr>),
    (''media.prev'', (spawn_row ''media'' ''previous track on the media target'' [''zde'', ''media'', ''prev''])\<lparr>en_WhenLocked := True\<rparr>),
    (''media.panel'', spawn_row ''media'' ''the music control panel'' [''zde'', ''media'', ''panel'']),
    (''media.like'', spawn_row ''media'' ''like the current track'' [''zde'', ''media'', ''like'']),
    (''media.target'', spawn_row ''media'' ''the media target picker (pin a player, or auto-route)'' [''zde'', ''media'', ''target''])]"

definition registry_audio :: "(string \<times> entry) list" where
  "registry_audio =
   [
    (''audio.vol-up'', (spawn_row ''audio'' ''volume up'' [''wpctl'', ''set-volume'', ''@DEFAULT_AUDIO_SINK@'', ''5%+''])\<lparr>en_Repeat := True, en_WhenLocked := True, en_written := True\<rparr>),
    (''audio.vol-down'', (spawn_row ''audio'' ''volume down'' [''wpctl'', ''set-volume'', ''@DEFAULT_AUDIO_SINK@'', ''5%-''])\<lparr>en_Repeat := True, en_WhenLocked := True, en_written := True\<rparr>),
    (''audio.mute'', (spawn_row ''audio'' ''mute the output'' [''wpctl'', ''set-mute'', ''@DEFAULT_AUDIO_SINK@'', ''toggle''])\<lparr>en_WhenLocked := True, en_written := True\<rparr>),
    (''audio.mic-mute'', (spawn_row ''audio'' ''mute the mic'' [''wpctl'', ''set-mute'', ''@DEFAULT_AUDIO_SOURCE@'', ''toggle''])\<lparr>en_WhenLocked := True, en_written := True\<rparr>)]"

definition registry_net :: "(string \<times> entry) list" where
  "registry_net =
   [
    (''net.observe'', spawn_row ''net'' ''the network observer widget (per-app connections; cut from here)'' [''zde'', ''net'', ''observe'']),
    (''net.app-cut'', spawn_row ''net'' ''cut the focused app's network'' [''zde'', ''net'', ''app-cut'']),
    (''net.kill'', (spawn_row ''net'' ''cut every link NetworkManager holds, and put it back (the radios stay on)'' [''zde'', ''net'', ''kill''])\<lparr>en_written := True\<rparr>)]"

definition registry_modes :: "(string \<times> entry) list" where
  "registry_modes =
   [
    (''modes.menu'', (spawn_row ''modes'' ''open the mode picker (Window / Kb-mouse / One-hand / Passthrough)'' [''zde'', ''mode'', ''menu''])\<lparr>en_Unsuppressible := True\<rparr>),
    (''modes.window'', (spawn_row ''modes'' ''enter Window mode'' [''zde'', ''mode'', ''window''])\<lparr>en_Unsuppressible := True\<rparr>),
    (''modes.kb-mouse'', (spawn_row ''modes'' ''enter Keyboard-mouse mode'' [''zde'', ''mode'', ''kb-mouse''])\<lparr>en_Unsuppressible := True\<rparr>),
    (''modes.one-hand'', (spawn_row ''modes'' ''enter One-hand mode'' [''zde'', ''mode'', ''one-hand''])\<lparr>en_Unsuppressible := True\<rparr>),
    (''modes.passthrough'', (spawn_row ''modes'' ''enter Passthrough mode'' [''zde'', ''mode'', ''passthrough''])\<lparr>en_Unsuppressible := True\<rparr>)]"

definition registry_system :: "(string \<times> entry) list" where
  "registry_system =
   [
    (''system.lock'', (spawn_row ''system'' ''lock the screen'' [''zde'', ''system'', ''lock''])\<lparr>en_Unsuppressible := True, en_written := True\<rparr>),
    (''system.lock-preset'', (spawn_row ''system'' ''switch to the preset desk, then lock, so an unlock shows that desk and not your work'' [''zde'', ''system'', ''lock-preset''])\<lparr>en_Unsuppressible := True, en_written := True\<rparr>),
    (''system.quiet'', (spawn_row ''system'' ''toggle quiet (do not disturb)'' [''zde'', ''system'', ''quiet''])\<lparr>en_written := True\<rparr>),
    (''system.shortcut-grab'', (native_row ''system'' ''toggle the focused app's keyboard grab: take zde's keys back from it, or hand them over'' ''toggle-keyboard-shortcuts-inhibit'')\<lparr>en_Unsuppressible := True, en_performs := True\<rparr>),
    (''system.power'', (spawn_row ''system'' ''the power menu: lock, log out, suspend, reboot, power off'' [''zde'', ''system'', ''power''])\<lparr>en_written := True\<rparr>),
    (''system.connections'', (spawn_row ''system'' ''the wifi networks, and the link you are on (no bluetooth yet)'' [''zde'', ''system'', ''connections''])\<lparr>en_written := True\<rparr>),
    (''system.bluetooth'', (spawn_row ''system'' ''bluetooth: what is around, pairing, and what is connected'' [''zde'', ''system'', ''bluetooth''])\<lparr>en_written := True\<rparr>),
    (''system.calendar'', spawn_row ''system'' ''the calendar and clock widget'' [''zde'', ''system'', ''calendar'']),
    (''system.wallpapers'', spawn_row ''system'' ''the wallpapers widget'' [''zde'', ''system'', ''wallpapers'']),
    (''system.help'', (spawn_row ''system'' ''the keymap, in a terminal'' [''zde'', ''app'', ''launch'', ''help''])\<lparr>en_written := True\<rparr>),
    (''system.brightness-up'', (spawn_row ''system'' ''brightness up'' [''brightnessctl'', ''set'', ''5%+''])\<lparr>en_Repeat := True, en_WhenLocked := True, en_written := True\<rparr>),
    (''system.brightness-dn'', (spawn_row ''system'' ''brightness down'' [''brightnessctl'', ''set'', ''5%-''])\<lparr>en_Repeat := True, en_WhenLocked := True, en_written := True\<rparr>),
    (''system.layout-switch'', native_row ''system'' ''switch keyboard layout (language)'' ''switch-layout \"next\"''),
    (''system.notif-center'', (spawn_row ''system'' ''the notification center'' [''zde'', ''system'', ''notif-center''])\<lparr>en_written := True\<rparr>),
    (''system.notif-reach'', (spawn_row ''system'' ''put the keyboard on the newest notification popup'' [''zde'', ''system'', ''notif-reach''])\<lparr>en_written := True\<rparr>),
    (''system.doctor'', (spawn_row ''system'' ''the doctor: every check on one screen'' [''zde'', ''doctor''])\<lparr>en_written := True\<rparr>),
    (''system.report'', (spawn_row ''system'' ''write down what this machine looks like, for a session that will not come up'' [''zde'', ''report''])\<lparr>en_written := True\<rparr>)]"

definition registry :: "(string \<times> entry) list" where
  "registry = concat [registry_desk, registry_monitor, registry_window, registry_workspace, registry_launch, registry_ask, registry_pass, registry_clip, registry_capture, registry_media, registry_audio, registry_net, registry_modes, registry_system]"

end
