(* ===== verification/Keymap.thy ===== *)
theory Keymap
  imports Keymap_Registry Desk_Name
begin

text \<open>
  From the keymap to niri's binds, the cheatsheet and the palette's rows (\<open>internal/keymap\<close>): chords in
  their canonical spelling, what an action means, the texts that are generated and the one that
  is read back, and the actions a person can ask for by name. The YAML decoder is a parameter:
  \<open>Parse\<close> is given what it made of the source.
\<close>

section \<open>Chords\<close>

definition mods :: "string set" where "mods = {''Mod'', ''Ctrl'', ''Shift'', ''Alt''}"
definition modOrder :: "string list" where "modOrder = [''Mod'', ''Ctrl'', ''Alt'', ''Shift'']"

definition keyName :: "string \<Rightarrow> bool" where
  "keyName s \<longleftrightarrow> s \<noteq> [] \<and> list_all (\<lambda>c. alnum c \<or> c = CHR ''_'') s"

definition reserved :: "string set" where "reserved = {''Mod+z'', ''Mod+x''}"

definition hardwareKey :: "string \<Rightarrow> bool" where
  "hardwareKey k \<longleftrightarrow> k = ''Print'' \<or> HasPrefix k ''XF86''"

record chord =
  ch_mods :: "string list"
  ch_key :: string

definition chord_String :: "chord \<Rightarrow> string" where
  "chord_String c = join_with (CHR ''+'') (ch_mods c @ [ch_key c])"

datatype chord_error =
  Empty_key | Not_a_key string | Upper_case string | Unknown_modifier string | Modifier_repeated string | Not_through_Mod | Reserved_chord

fun held_loop :: "string list \<Rightarrow> string list \<Rightarrow> chord_error + string list" where
  "held_loop [] held = Inr held"
| "held_loop (m # ms) held =
     (if m \<notin> mods then Inl (Unknown_modifier m)
      else if m \<in> set held then Inl (Modifier_repeated m)
      else held_loop ms (m # held))"

definition parseChord :: "string \<Rightarrow> chord_error + chord" where
  "parseChord s =
     (let parts = split_on (CHR ''+'') s; key = last parts
      in if key = [] then Inl Empty_key
         else if \<not> keyName key then Inl (Not_a_key key)
         else if length key = 1 \<and> upper (hd key) then Inl (Upper_case key)
         else (case held_loop (butlast parts) [] of
                 Inl e \<Rightarrow> Inl e
               | Inr held \<Rightarrow>
                   if ''Mod'' \<notin> set held \<and> \<not> hardwareKey key then Inl Not_through_Mod
                   else (let c = \<lparr>ch_mods = filter (\<lambda>m. m \<in> set held) modOrder, ch_key = key\<rparr>
                         in if chord_String c \<in> reserved then Inl Reserved_chord else Inr c)))"

section \<open>What an action means\<close>

text \<open>\<open>nameArg\<close>: a lower case letter or a digit, then those and dashes.\<close>

definition nameArg :: "string \<Rightarrow> bool" where
  "nameArg s \<longleftrightarrow> s \<noteq> [] \<and> lower_num (hd s) \<and> list_all (\<lambda>c. lower_num c \<or> c = CHR ''-'') s"

definition checkArg :: "entry \<Rightarrow> string \<Rightarrow> bool" where
  "checkArg e arg \<longleftrightarrow> \<not> (en_Arg e = argName \<and> \<not> nameArg arg)"

definition behind :: "string \<Rightarrow> (entry \<times> string) option" where
  "behind action =
     (case (case map_of registry action of Some e \<Rightarrow> if takes_arg e then None else Some e | None \<Rightarrow> None) of
        Some e \<Rightarrow> Some (e, [])
      | None \<Rightarrow>
          (case Cut (CHR '' '') action of (i, arg, found) \<Rightarrow>
             if \<not> found then None
             else (case map_of registry i of
                     None \<Rightarrow> None
                   | Some e \<Rightarrow> if \<not> takes_arg e \<or> \<not> checkArg e arg then None else Some (e, arg))))"

record bind =
  bd_Action :: string
  bd_Key :: string
  bd_Arg :: string
  bd_Entry :: entry

datatype keymap_error =
  Bad_yaml string | No_binds | Bad_chord nat string chord_error | Unknown_action nat string | Takes_no_argument nat string string
| Bad_argument nat string string | Bound_twice nat string string string

text \<open>The entry the refusals of \<open>resolve\<close> are about was looked up; \<open>i\<close> numbers the bind.\<close>

definition resolve :: "nat \<Rightarrow> string \<times> string \<Rightarrow> keymap_error + bind" where
  "resolve i src =
     (case src of (action, key) \<Rightarrow>
       (case parseChord key of
          Inl e \<Rightarrow> Inl (Bad_chord i action e)
        | Inr c \<Rightarrow>
            (case behind action of
               Some (e, arg) \<Rightarrow> Inr \<lparr>bd_Action = action, bd_Key = chord_String c, bd_Arg = arg, bd_Entry = e\<rparr>
             | None \<Rightarrow>
                 (case Cut (CHR '' '') action of (n, arg, found) \<Rightarrow>
                    if \<not> found then Inl (Unknown_action i action)
                    else (case map_of registry n of
                            None \<Rightarrow> Inl (Unknown_action i action)
                          | Some e \<Rightarrow> if \<not> takes_arg e then Inl (Takes_no_argument i n arg)
                                      else Inl (Bad_argument i action arg))))))"

fun parse_binds :: "nat \<Rightarrow> (string \<times> string) list \<Rightarrow> (string \<times> string) list \<Rightarrow> bind list \<Rightarrow> keymap_error + bind list" where
  "parse_binds i [] seen out = Inr out"
| "parse_binds i (b # bs) seen out =
     (case resolve i b of
        Inl e \<Rightarrow> Inl e
      | Inr bd \<Rightarrow>
          (case map_of seen (bd_Key bd) of
             Some prev \<Rightarrow> Inl (Bound_twice i (bd_Key bd) prev (bd_Action bd))
           | None \<Rightarrow> parse_binds (i + 1) bs ((bd_Key bd, bd_Action bd) # seen) (out @ [bd])))"

definition Parse :: "string + (string \<times> string) list \<Rightarrow> keymap_error + bind list" where
  "Parse decoded =
     (case decoded of
        Inl e \<Rightarrow> Inl (Bad_yaml e)
      | Inr src \<Rightarrow> if src = [] then Inl No_binds else parse_binds 1 src [] [])"

section \<open>The generated texts\<close>

definition newline :: char where "newline = char_of (10 :: nat)"
definition tab :: char where "tab = char_of (9 :: nat)"

definition header :: string where
  "header = ''Generated by zde-keymap. Do not edit: the source is the keymap (common/keymap/keymap.yaml) and the registry beside it.''"

definition props :: "bind \<Rightarrow> string" where
  "props b = (if \<not> en_Repeat (bd_Entry b) then '' repeat=false'' else [])
     @ (if en_WhenLocked (bd_Entry b) then '' allow-when-locked=true'' else [])
     @ (if en_Unsuppressible (bd_Entry b) then '' allow-inhibiting=false'' else [])"

definition node :: "unicode \<Rightarrow> bind \<Rightarrow> string" where
  "node u b =
     (let e = bd_Entry b
      in if en_Native e \<noteq> []
         then (if bd_Arg b \<noteq> [] then replace_first argPlaceholder (bd_Arg b) (en_Native e) else en_Native e)
         else (let argv = en_Spawn e @ (if bd_Arg b \<noteq> [] then [bd_Arg b] else [])
               in ''spawn '' @ join_with (CHR '' '') (map (Quote u) argv)))"

definition kdl_line :: "unicode \<Rightarrow> bind \<Rightarrow> string" where
  "kdl_line u b = ''    '' @ bd_Key b @ props b @ '' { '' @ node u b @ ''; }''"

definition EmitKDL :: "unicode \<Rightarrow> bind list \<Rightarrow> string" where
  "EmitKDL u km = ''// '' @ header @ [newline] @ ''binds {'' @ [newline]
     @ concat (map (\<lambda>b. kdl_line u b @ [newline]) km) @ ''}'' @ [newline]"

definition desc_of :: "bind \<Rightarrow> string" where
  "desc_of b = en_Desc (bd_Entry b) @ (if bd_Arg b \<noteq> [] then CHR '' '' # bd_Arg b else [])"

definition of_group :: "bind list \<Rightarrow> string \<Rightarrow> bind list" where
  "of_group km g = filter (\<lambda>b. en_Group (bd_Entry b) = g) km"

definition sheet_row :: "bind \<Rightarrow> string" where
  "sheet_row b = ''| `'' @ bd_Key b @ ''` | `'' @ bd_Action b @ ''` | '' @ desc_of b @ '' |'' @ [newline]"

definition EmitCheatsheet :: "bind list \<Rightarrow> string" where
  "EmitCheatsheet km = ''# zde keymap - Normal mode'' @ [newline, newline] @ header @ [newline]
     @ concat (map (\<lambda>g. if of_group km g = [] then []
         else [newline] @ ''## '' @ g @ [newline, newline] @ ''| Key | Action | Does |'' @ [newline] @ ''|---|---|---|'' @ [newline]
              @ concat (map sheet_row (of_group km g))) groups)"

text \<open>A section is preceded by an empty line unless nothing was written yet.\<close>

definition text_line :: "bind \<Rightarrow> string" where
  "text_line b = ''  '' @ bd_Key b @ [tab] @ bd_Action b @ [tab] @ desc_of b"

definition add_section :: "bind list \<Rightarrow> string \<Rightarrow> string \<Rightarrow> string" where
  "add_section km g out =
     (if of_group km g = [] then out
      else out @ (if out \<noteq> [] then [newline] else []) @ g @ [newline]
             @ concat (map (\<lambda>b. text_line b @ [newline]) (of_group km g)))"

definition EmitText :: "bind list \<Rightarrow> string" where
  "EmitText km = fold (add_section km) groups []"

record listed_row =
  ls_key :: string
  ls_action :: string
  ls_desc :: string

definition parse_line :: "string \<Rightarrow> listed_row list" where
  "parse_line line =
     (if \<not> HasPrefix line ''  '' then []
      else (let parts = split_on tab (drop 2 line)
            in if length parts \<noteq> 3 then []
               else [\<lparr>ls_key = parts ! 0, ls_action = parts ! 1, ls_desc = parts ! 2\<rparr>]))"

definition parseText :: "string \<Rightarrow> listed_row list" where
  "parseText data = concat (map parse_line (split_on newline data))"

section \<open>The palette's rows\<close>

record action =
  ac_Name :: string
  ac_Group :: string
  ac_Desc :: string
  ac_Key :: string
  ac_Native :: string
  ac_Spawn :: "string list"
  ac_Performs :: bool
  ac_Live :: bool

definition action_row :: "string \<Rightarrow> entry \<Rightarrow> string \<Rightarrow> string \<Rightarrow> action" where
  "action_row name e arg desc =
     (let a = \<lparr>ac_Name = name, ac_Group = en_Group e, ac_Desc = desc, ac_Key = [], ac_Native = en_Native e,
                ac_Spawn = en_Spawn e, ac_Performs = en_performs e, ac_Live = en_written e \<or> en_Native e \<noteq> []\<rparr>
      in if arg = [] then a
         else if en_Native e \<noteq> [] then a\<lparr>ac_Native := replace_first argPlaceholder arg (en_Native e)\<rparr>
         else a\<lparr>ac_Spawn := en_Spawn e @ [arg]\<rparr>)"

text \<open>The loop over the cheatsheet: the first key of each action, and the rows with an argument.\<close>

fun listed_loop ::
  "listed_row list \<Rightarrow> (string \<times> string) list \<Rightarrow> action list \<Rightarrow> string list \<Rightarrow> (string \<times> string) list \<times> action list" where
  "listed_loop [] keyOf out seen = (keyOf, out)"
| "listed_loop (l # ls) keyOf out seen =
     (let keyOf = (if map_of keyOf (ls_action l) = None then AList.update (ls_action l) (ls_key l) keyOf else keyOf)
      in case behind (ls_action l) of
           None \<Rightarrow> listed_loop ls keyOf out seen
         | Some (e, arg) \<Rightarrow>
             if arg = [] \<or> ls_action l \<in> set seen then listed_loop ls keyOf out seen
             else listed_loop ls keyOf (out @ [action_row (ls_action l) e arg (ls_desc l)]) (ls_action l # seen))"

definition group_order :: "string \<Rightarrow> nat" where
  "group_order g = (if g \<in> set groups then length (takeWhile (\<lambda>h. h \<noteq> g) groups) else 0)"

definition action_less :: "action \<Rightarrow> action \<Rightarrow> bool" where
  "action_less a b =
     (if ac_Group a \<noteq> ac_Group b then group_order (ac_Group a) < group_order (ac_Group b) else ac_Name a < ac_Name b)"

text \<open>\<open>entries\<close> is the registry in the order the map is iterated, which Go leaves open.\<close>

definition Actions :: "(string \<times> entry) list \<Rightarrow> string \<Rightarrow> action list" where
  "Actions ents cheatsheet =
     (case listed_loop (parseText cheatsheet) [] [] [] of (keyOf, out) \<Rightarrow>
        map (\<lambda>a. a\<lparr>ac_Key := aget [] keyOf (ac_Name a)\<rparr>)
          (sort_by action_less (out @ map (\<lambda>(i, e). action_row i e [] (en_Desc e)) (filter (\<lambda>(i, e). \<not> takes_arg e) ents))))"

section \<open>The registry\<close>

text \<open>What the invariants of the registry are, which the source holds by a test.\<close>

definition one_line :: "string \<Rightarrow> bool" where "one_line s \<longleftrightarrow> newline \<notin> set s \<and> tab \<notin> set s"

definition safe_char :: "char \<Rightarrow> bool" where
  "safe_char c \<longleftrightarrow> 32 \<le> (of_char c :: nat) \<and> (of_char c :: nat) < 127 \<and> c \<noteq> CHR 0x22 \<and> c \<noteq> CHR 0x5C"

definition row_ok :: "string \<times> entry \<Rightarrow> bool" where
  "row_ok row = (case row of (i, e) \<Rightarrow>
     (en_Native e = []) \<noteq> (en_Spawn e = []) \<and> en_Group e \<in> set groups \<and> i \<noteq> []
   \<and> one_line i \<and> one_line (en_Desc e) \<and> newline \<notin> set (en_Native e)
   \<and> list_all (list_all safe_char) (en_Spawn e)
   \<and> (takes_arg e \<longrightarrow> en_Native e = [] \<and> CHR '' '' \<notin> set i))"

lemma registry_ok: "list_all row_ok registry \<and> distinct (map fst registry)"
  by code_simp

section \<open>One spelling for each chord\<close>

lemma held_loop_iff:
  "held_loop ms held = Inr h \<longleftrightarrow> set ms \<subseteq> mods \<and> distinct ms \<and> set ms \<inter> set held = {} \<and> h = rev ms @ held"
  by (induction ms held rule: held_loop.induct) auto

text \<open>What a chord is that is accepted, apart from how it was spelt.\<close>

definition chord_ok :: "chord \<Rightarrow> bool" where
  "chord_ok c \<longleftrightarrow> keyName (ch_key c) \<and> \<not> (length (ch_key c) = 1 \<and> upper (hd (ch_key c)))
     \<and> ch_mods c = filter (\<lambda>m. m \<in> set (ch_mods c)) modOrder
     \<and> (''Mod'' \<in> set (ch_mods c) \<or> hardwareKey (ch_key c)) \<and> chord_String c \<notin> reserved"

lemma keyName_no_plus: "keyName k \<Longrightarrow> CHR ''+'' \<notin> set k"
  by (auto simp: keyName_def list_all_iff alnum_def alpha_def lower_def upper_def is_digit_def)

lemma parseChord_iff:
  "parseChord s = Inr c \<longleftrightarrow> chord_ok c \<and> last (split_on (CHR ''+'') s) = ch_key c
     \<and> distinct (butlast (split_on (CHR ''+'') s)) \<and> set (butlast (split_on (CHR ''+'') s)) = set (ch_mods c)"
    (is "_ \<longleftrightarrow> ?ok \<and> ?key \<and> ?once \<and> ?same")
proof
  assume a: "parseChord s = Inr c"
  then obtain held where h: "held_loop (butlast (split_on (CHR ''+'') s)) [] = Inr held"
    and c: "c = \<lparr>ch_mods = filter (\<lambda>m. m \<in> set held) modOrder, ch_key = last (split_on (CHR ''+'') s)\<rparr>"
    by (auto simp: parseChord_def Let_def split: sum.splits if_splits)
  have m: "set held = set (butlast (split_on (CHR ''+'') s))" "set held \<subseteq> mods" "distinct (butlast (split_on (CHR ''+'') s))"
    using h by (auto simp: held_loop_iff)
  have "set modOrder = mods" by (auto simp: modOrder_def mods_def)
  then have "set (ch_mods c) = set held" using m(2) by (auto simp: c)
  then have "ch_mods c = filter (\<lambda>m. m \<in> set (ch_mods c)) modOrder" by (simp add: c)
  moreover have "keyName (last (split_on (CHR ''+'') s))" "''Mod'' \<in> set held \<or> hardwareKey (last (split_on (CHR ''+'') s))"
    "\<not> (length (last (split_on (CHR ''+'') s)) = 1 \<and> upper (hd (last (split_on (CHR ''+'') s))))" "chord_String c \<notin> reserved"
    using a h by (simp_all add: parseChord_def Let_def split: if_split_asm)
  moreover have "ch_key c = last (split_on (CHR ''+'') s)" by (simp add: c)
  ultimately have ?ok using \<open>set (ch_mods c) = set held\<close> unfolding chord_ok_def by metis
  then show "?ok \<and> ?key \<and> ?once \<and> ?same" using m \<open>set (ch_mods c) = set held\<close> by (simp add: c)
next
  assume r: "?ok \<and> ?key \<and> ?once \<and> ?same"
  have "set modOrder = mods" by (auto simp: modOrder_def mods_def)
  then have "set (ch_mods c) \<subseteq> mods" using r unfolding chord_ok_def by (metis (no_types, lifting) filter_is_subset)
  then have h: "held_loop (butlast (split_on (CHR ''+'') s)) [] = Inr (rev (butlast (split_on (CHR ''+'') s)))"
    using r by (simp add: held_loop_iff)
  have "filter (\<lambda>m. m \<in> set (ch_mods c)) modOrder = ch_mods c" using r unfolding chord_ok_def by metis
  then show "parseChord s = Inr c"
    using r h by (cases c) (auto simp: chord_ok_def parseChord_def Let_def keyName_def)
qed

lemma mods_no_plus: "m \<in> set (ch_mods c) \<Longrightarrow> chord_ok c \<Longrightarrow> CHR ''+'' \<notin> set m"
proof -
  assume m: "m \<in> set (ch_mods c)" and "chord_ok c"
  then have "m \<in> set modOrder" unfolding chord_ok_def by (metis (no_types, lifting) filter_is_subset subsetD)
  then show ?thesis by (auto simp: modOrder_def)
qed

lemma split_chord: "chord_ok c \<Longrightarrow> split_on (CHR ''+'') (chord_String c) = ch_mods c @ [ch_key c]"
  unfolding chord_String_def
  by (rule split_join) (auto simp: mods_no_plus chord_ok_def dest: keyName_no_plus)

lemma chord_mods_distinct: "chord_ok c \<Longrightarrow> distinct (ch_mods c)"
proof -
  assume "chord_ok c"
  then have "ch_mods c = filter (\<lambda>m. m \<in> set (ch_mods c)) modOrder" unfolding chord_ok_def by blast
  moreover have "distinct modOrder" by (simp add: modOrder_def)
  ultimately show ?thesis by (metis distinct_filter)
qed

text \<open>
  A chord has one spelling. What is accepted is read as a chord whose spelling is accepted and
  read as that chord again; and two spellings are read as one chord exactly if they name the
  same key under the same modifiers. It goes through Mod, or its key is there for one purpose, and
  it is none of the two that are brushed by a resting hand.
\<close>

theorem chords_have_one_spelling:
  assumes "parseChord s = Inr c"
  shows "parseChord (chord_String c) = Inr c
    \<and> (\<forall>t d. parseChord t = Inr d \<longrightarrow> (chord_String d = chord_String c \<longleftrightarrow>
         last (split_on (CHR ''+'') t) = last (split_on (CHR ''+'') s)
         \<and> set (butlast (split_on (CHR ''+'') t)) = set (butlast (split_on (CHR ''+'') s))))
    \<and> (''Mod'' \<in> set (ch_mods c) \<or> hardwareKey (ch_key c)) \<and> chord_String c \<notin> {''Mod+z'', ''Mod+x''}"
proof -
  have c: "chord_ok c" using assms parseChord_iff by blast
  have again: "parseChord (chord_String c) = Inr c"
    using c by (simp add: parseChord_iff split_chord chord_mods_distinct)
  have "chord_String d = chord_String c \<longleftrightarrow> last (split_on (CHR ''+'') t) = last (split_on (CHR ''+'') s)
      \<and> set (butlast (split_on (CHR ''+'') t)) = set (butlast (split_on (CHR ''+'') s))" if t: "parseChord t = Inr d" for t d
  proof -
    have d: "chord_ok d" using t parseChord_iff by blast
    have "ch_mods d = filter (\<lambda>m. m \<in> set (ch_mods d)) modOrder" "ch_mods c = filter (\<lambda>m. m \<in> set (ch_mods c)) modOrder"
      using c d unfolding chord_ok_def by blast+
    then have "set (ch_mods d) = set (ch_mods c) \<Longrightarrow> ch_mods d = ch_mods c" by metis
    moreover have "chord_String d = chord_String c \<longleftrightarrow> ch_mods d @ [ch_key d] = ch_mods c @ [ch_key c]"
      using split_chord [OF c] split_chord [OF d] chord_String_def by metis
    ultimately show ?thesis using t assms by (auto simp: parseChord_iff)
  qed
  then show ?thesis using again c by (simp add: chord_ok_def reserved_def)
qed

lemma chords_have_one_spelling_witness:
  "parseChord ''Shift+Mod+q'' = Inr \<lparr>ch_mods = [''Mod'', ''Shift''], ch_key = ''q''\<rparr>
   \<and> parseChord ''Mod+Shift+q'' = Inr \<lparr>ch_mods = [''Mod'', ''Shift''], ch_key = ''q''\<rparr>"
proof -
  have "parseChord ''Shift+Mod+q'' = Inr \<lparr>ch_mods = [''Mod'', ''Shift''], ch_key = ''q''\<rparr>" by code_simp
  from this chords_have_one_spelling [THEN conjunct1, OF this] show ?thesis by (simp add: chord_String_def)
qed

section \<open>What is parsed\<close>

text \<open>What a source bind resolves to, without the number it is refused under.\<close>

definition resolves :: "string \<times> string \<Rightarrow> bind \<Rightarrow> bool" where
  "resolves src b \<longleftrightarrow> bd_Action b = fst src
     \<and> (\<exists>c. parseChord (snd src) = Inr c \<and> bd_Key b = chord_String c)
     \<and> behind (bd_Action b) = Some (bd_Entry b, bd_Arg b)"

lemma resolve_iff: "resolve i src = Inr b \<longleftrightarrow> resolves src b"
  by (cases b) (auto simp: resolve_def resolves_def split: prod.splits sum.splits option.splits if_splits)

lemma parse_binds_iff:
  "parse_binds i src seen out = Inr km \<longleftrightarrow> (\<exists>bs. km = out @ bs \<and> list_all2 resolves src bs
     \<and> distinct (map bd_Key bs) \<and> bd_Key ` set bs \<inter> fst ` set seen = {})"
proof (induction i src seen out rule: parse_binds.induct)
  case (2 i src srcs seen out)
  show ?case
  proof (cases "resolve i src")
    case (Inl e)
    then have "\<not> resolves src b" for b by (metis resolve_iff sum.distinct(1))
    then show ?thesis using Inl by (auto simp: list_all2_Cons1)
  next
    case (Inr b)
    have u: "resolves src b' \<longleftrightarrow> b' = b" for b' using Inr by (metis resolve_iff sum.inject(2))
    show ?thesis
    proof (cases "map_of seen (bd_Key b)")
      case None
      have eq: "parse_binds i (src # srcs) seen out = parse_binds (i + 1) srcs ((bd_Key b, bd_Action b) # seen) (out @ [b])"
        by (simp add: Inr None)
      have "bd_Key b \<notin> fst ` set seen" using None by (simp add: map_of_eq_None_iff)
      then show ?thesis
        unfolding eq "2.IH" [OF Inr None] using u by (auto simp: list_all2_Cons1)
    next
      case (Some prev)
      then have "bd_Key b \<in> fst ` set seen" by (metis map_of_eq_None_iff option.distinct(1))
      moreover have "parse_binds i (src # srcs) seen out \<noteq> Inr km" by (simp add: Inr Some)
      ultimately show ?thesis using u by (auto simp: list_all2_Cons1)
    qed
  qed
qed auto

text \<open>
  A keymap is accepted exactly if it binds something, every chord is one, every action is
  one that can be run, and no two chords are the same chord however they are spelt; and it has
  one bind for each line of the source, in its order, with the action as it was written.
\<close>

theorem keymap_exact:
  "Parse (Inr src) = Inr km \<longleftrightarrow> src \<noteq> [] \<and> list_all2 resolves src km \<and> distinct (map bd_Key km)"
  by (auto simp: Parse_def parse_binds_iff)

section \<open>The cheatsheet survives being read back\<close>

lemma newline_char: "newline = CHR 0x0A" and tab_char: "tab = CHR 0x09"
  by code_simp+

lemma registry_row: "map_of registry i = Some e \<Longrightarrow> row_ok (i, e)"
  using registry_ok by (auto simp: list_all_iff dest: map_of_SomeD)

lemma no_control [simp]:
  "\<not> lower_num newline" "\<not> lower_num tab" "\<not> alnum newline" "\<not> alnum tab"
  "newline \<noteq> CHR '' ''" "tab \<noteq> CHR '' ''" "newline \<noteq> CHR ''-''" "tab \<noteq> CHR ''-''" "newline \<noteq> CHR ''_''" "tab \<noteq> CHR ''_''"
  "newline \<noteq> CHR ''+''" "tab \<noteq> CHR ''+''" "newline \<noteq> tab"
  by code_simp+

lemmas no_control_sym [simp] = no_control(5-13) [symmetric]

lemma nameArg_one_line: "nameArg a \<Longrightarrow> one_line a"
  by (auto simp: nameArg_def one_line_def list_all_iff)

lemma one_line_append [simp]: "one_line (a @ b) \<longleftrightarrow> one_line a \<and> one_line b"
  "one_line (c # b) \<longleftrightarrow> c \<noteq> newline \<and> c \<noteq> tab \<and> one_line b" "one_line []"
  by (auto simp: one_line_def)

text \<open>What \<open>behind\<close> answers with.\<close>

lemma behind_cases:
  assumes "behind a = Some (e, arg)"
  shows "\<exists>i. row_ok (i, e) \<and> map_of registry i = Some e
    \<and> (arg = [] \<and> a = i \<and> \<not> takes_arg e \<or> nameArg arg \<and> takes_arg e \<and> a = i @ CHR '' '' # arg \<and> CHR '' '' \<notin> set i)"
proof (cases "\<exists>e. map_of registry a = Some e \<and> \<not> takes_arg e")
  case True
  then show ?thesis using assms registry_row [of a] by (auto simp: behind_def)
next
  case False
  then obtain i where "Cut (CHR '' '') a = (i, arg, True)" "map_of registry i = Some e" "takes_arg e" "checkArg e arg"
    using assms by (auto simp: behind_def split: option.splits prod.splits if_splits)
  moreover from this have "nameArg arg" by (cases "en_Arg e") (auto simp: checkArg_def takes_arg_def)
  ultimately show ?thesis using registry_row Cut_parts by blast
qed

definition sheet_ok :: "bind \<Rightarrow> bool" where
  "sheet_ok b \<longleftrightarrow> one_line (bd_Key b) \<and> one_line (bd_Action b) \<and> one_line (desc_of b) \<and> en_Group (bd_Entry b) \<in> set groups"

lemma chord_one_line: "parseChord s = Inr c \<Longrightarrow> one_line (chord_String c)"
proof -
  assume "parseChord s = Inr c"
  then have c: "chord_ok c" using parseChord_iff by blast
  have "one_line (ch_key c)"
    using c by (auto simp: chord_ok_def keyName_def one_line_def list_all_iff)
  moreover have "list_all one_line modOrder" by code_simp
  then have "list_all one_line (ch_mods c)" using c unfolding chord_ok_def list_all_iff by (metis (no_types, lifting) filter_is_subset subsetD)
  moreover have "one_line (join_with (CHR ''+'') (ms @ [k]))" if "list_all one_line ms" "one_line k" for ms k
    using that
  proof (induction ms)
    case (Cons m ms)
    then show ?case by (cases "ms @ [k]") auto
  qed simp
  ultimately show ?thesis by (simp add: chord_String_def)
qed

lemma resolves_sheet_ok:
  assumes "resolves src b"
  shows "sheet_ok b"
proof -
  have "one_line (bd_Key b)" using assms chord_one_line by (auto simp: resolves_def)
  moreover have "one_line (bd_Action b) \<and> one_line (desc_of b) \<and> en_Group (bd_Entry b) \<in> set groups"
    using assms behind_cases [of "bd_Action b" "bd_Entry b" "bd_Arg b"] nameArg_one_line
    by (auto simp: resolves_def desc_of_def row_ok_def)
  ultimately show ?thesis by (simp add: sheet_ok_def)
qed

text \<open>The lines of a text made of lines.\<close>

definition row_of :: "bind \<Rightarrow> listed_row" where
  "row_of b = \<lparr>ls_key = bd_Key b, ls_action = bd_Action b, ls_desc = desc_of b\<rparr>"

lemma parse_text_line: "sheet_ok b \<Longrightarrow> parse_line (text_line b) = [row_of b]"
  by (simp add: parse_line_def text_line_def HasPrefix_def sheet_ok_def one_line_def split_on_append_sep split_on_no_sep row_of_def)

lemma text_line_one: "sheet_ok b \<Longrightarrow> newline \<notin> set (text_line b)"
  by (auto simp: text_line_def sheet_ok_def one_line_def)

lemma parseText_Nil [simp]: "parseText [] = []"
  by (simp add: parseText_def parse_line_def HasPrefix_def)

lemma parseText_append: "parseText (a @ newline # b) = parseText a @ parseText b"
  by (simp add: parseText_def split_on_append)

lemma parseText_lines:
  "list_all sheet_ok bs \<Longrightarrow> parseText (concat (map (\<lambda>b. text_line b @ [newline]) bs)) = map row_of bs"
proof (induction bs)
  case Nil
  show ?case by (simp add: parseText_def parse_line_def HasPrefix_def)
next
  case (Cons b bs)
  have "parseText (text_line b) = [row_of b]"
    using Cons.prems by (simp add: parseText_def text_line_one split_on_no_sep parse_text_line)
  then show ?case using Cons parseText_append [of "text_line b"] by simp
qed

lemma parseText_add_section:
  assumes "list_all sheet_ok km" and "g \<in> set groups" and "out = [] \<or> last out = newline"
  shows "parseText (add_section km g out) = parseText out @ map row_of (of_group km g)
    \<and> (add_section km g out = [] \<or> last (add_section km g out) = newline)"
proof (cases "of_group km g = []")
  case True
  then show ?thesis using assms(3) by (simp add: add_section_def)
next
  case False
  let ?lines = "concat (map (\<lambda>b. text_line b @ [newline]) (of_group km g))"
  have g: "parseText g = []"
  proof -
    have "list_all (\<lambda>g. parseText g = []) groups" by code_simp
    then show ?thesis using assms(2) by (simp add: list_all_iff)
  qed
  have lines: "parseText ?lines = map row_of (of_group km g)"
    using assms(1) by (intro parseText_lines) (auto simp: of_group_def list_all_iff)
  have "last ?lines = newline \<and> ?lines \<noteq> []"
    using False by (cases "of_group km g" rule: rev_cases) auto
  moreover have "parseText (add_section km g out) = parseText out @ map row_of (of_group km g)"
    using False g lines by (auto simp: add_section_def parseText_append [of g] parseText_append [of out])
  ultimately show ?thesis using False by (auto simp: add_section_def)
qed

lemma parseText_sections:
  "list_all sheet_ok km \<Longrightarrow> set gs \<subseteq> set groups \<Longrightarrow> out = [] \<or> last out = newline
    \<Longrightarrow> parseText (fold (add_section km) gs out) = parseText out @ concat (map (\<lambda>g. map row_of (of_group km g)) gs)"
  by (induction gs arbitrary: out) (auto simp: parseText_add_section)

lemma mset_groups:
  assumes "distinct gs"
  shows "mset (concat (map (\<lambda>g. filter (\<lambda>b. f b = g) xs) gs)) = mset (filter (\<lambda>b. f b \<in> set gs) xs)"
  using assms
proof (induction gs)
  case (Cons g gs)
  have "mset (filter (\<lambda>b. f b = g) xs) + mset (filter (\<lambda>b. f b \<in> set gs) xs) = mset (filter (\<lambda>b. f b \<in> set (g # gs)) xs)"
    using Cons.prems by (induction xs) auto
  then show ?case using Cons by simp
qed simp

lemma parsed_sheet_ok: "Parse (Inr src) = Inr km \<Longrightarrow> list_all sheet_ok km"
proof -
  assume "Parse (Inr src) = Inr km"
  then have "list_all2 resolves src km" by (auto simp: Parse_def parse_binds_iff split: if_splits)
  then show "list_all sheet_ok km" by (induction rule: list_all2_induct) (simp_all add: resolves_sheet_ok)
qed

lemma cheatsheet_rows:
  "Parse (Inr src) = Inr km \<Longrightarrow> parseText (EmitText km) = concat (map (\<lambda>g. map row_of (of_group km g)) groups)"
  unfolding EmitText_def by (subst parseText_sections) (simp_all add: parsed_sheet_ok)

lemma cheatsheet_rows_mset:
  assumes "Parse (Inr src) = Inr km"
  shows "mset (parseText (EmitText km)) = mset (map row_of km)"
proof -
  have "distinct groups" by code_simp
  moreover have "filter (\<lambda>b. en_Group (bd_Entry b) \<in> set groups) km = km"
    using parsed_sheet_ok [OF assms] by (auto simp: filter_id_conv list_all_iff sheet_ok_def)
  ultimately have "mset (concat (map (of_group km) groups)) = mset km"
    using mset_groups [of groups "\<lambda>b. en_Group (bd_Entry b)" km] by (simp add: of_group_def [abs_def])
  then have "mset (map row_of (concat (map (of_group km) groups))) = mset (map row_of km)" by (metis mset_map)
  then show ?thesis using cheatsheet_rows [OF assms] by (simp add: map_concat comp_def)
qed

text \<open>
  What \<open>zde keys\<close> prints is read back as what was written. Reading the generated cheatsheet of a
  keymap that parses gives one row for each bind, with its key, its action and what it does, the
  binds of each group together in the order of the groups, each group in the keymap's order:
  none is lost, and none comes back as another or as two.
\<close>

theorem cheatsheet_survives:
  assumes "Parse (Inr src) = Inr km"
  shows "parseText (EmitText km) = concat (map (\<lambda>g. map row_of (of_group km g)) groups)
    \<and> mset (parseText (EmitText km)) = mset (map row_of km)"
  using cheatsheet_rows [OF assms] cheatsheet_rows_mset [OF assms] by blast

text \<open>A keymap of two binds.\<close>

definition two_binds :: "(string \<times> string) list" where
  "two_binds = [(''desk.next'', ''Mod+j''), (''app.launch terminal'', ''Mod+t'')]"

lemma two_binds_parse:
  "\<exists>km. Parse (Inr two_binds) = Inr km \<and> map bd_Key km = [''Mod+j'', ''Mod+t''] \<and> map bd_Arg km = [[], ''terminal'']"
proof -
  have "case Parse (Inr two_binds) of Inl _ \<Rightarrow> False
     | Inr km \<Rightarrow> map bd_Key km = [''Mod+j'', ''Mod+t''] \<and> map bd_Arg km = [[], ''terminal'']"
    by code_simp
  then show ?thesis by (auto split: sum.splits)
qed

lemma cheatsheet_survives_witness:
  "\<exists>km. Parse (Inr two_binds) = Inr km \<and> length km = 2 \<and> mset (parseText (EmitText km)) = mset (map row_of km)"
proof -
  obtain km where km: "Parse (Inr two_binds) = Inr km" "map bd_Key km = [''Mod+j'', ''Mod+t'']" using two_binds_parse by meson
  have "length (map bd_Key km) = 2" unfolding km(2) by simp
  then have "length km = 2" by simp
  then show ?thesis using cheatsheet_survives [THEN conjunct2, OF km(1)] km(1) by blast
qed

section \<open>The config niri reads\<close>

lemma safe_chars [simp]: "safe_char c \<Longrightarrow> c \<noteq> newline"
  by (auto simp: safe_char_def newline_def)

lemma quoted_plain: "unicode_ok u \<Longrightarrow> list_all safe_char s \<Longrightarrow> quoted_bytes u (map of_char s) = map of_char s"
proof (induction s)
  case (Cons c s)
  let ?r = "of_char c :: nat"
  have r: "32 \<le> ?r" "?r < 127" using Cons.prems(2) by (auto simp: safe_char_def)
  have "?r \<noteq> of_char (CHR 0x22)" "?r \<noteq> of_char (CHR 0x5C)"
    using Cons.prems(2) unfolding of_char_eq_iff by (auto simp: safe_char_def)
  then have "?r \<noteq> 34" "?r \<noteq> 92" by simp_all
  then have "quoted_rune u ?r = [?r]"
    using r Cons.prems(1) by (simp add: quoted_rune_def unicode_ok_def encode_rune_def valid_rune_def)
  then show ?case using Cons r by (simp add: decode_first_def)
qed simp

lemma Quote_plain:
  assumes "unicode_ok u" and "list_all safe_char s"
  shows "Quote u s = CHR 0x22 # s @ [CHR 0x22]"
proof -
  have "char_of (34 :: nat) = CHR 0x22" by code_simp
  then show ?thesis using assms by (simp add: Quote_def quoted_plain comp_def)
qed

lemma nameArg_safe: "nameArg a \<Longrightarrow> list_all safe_char a"
proof -
  have "safe_char c" if "lower_num c \<or> c = CHR ''-''" for c
    using that by (auto simp: safe_char_def lower_num_def lower_def is_digit_def less_eq_char_def)
  then show "nameArg a \<Longrightarrow> list_all safe_char a" by (auto simp: nameArg_def list_all_iff)
qed

definition words_of :: "bind \<Rightarrow> string list" where
  "words_of b = en_Spawn (bd_Entry b) @ (if bd_Arg b \<noteq> [] then [bd_Arg b] else [])"

lemma resolves_node:
  assumes "unicode_ok u" and "resolves src b"
  shows "list_all (list_all safe_char) (words_of b)
    \<and> node u b = (if en_Native (bd_Entry b) \<noteq> [] then en_Native (bd_Entry b)
        else ''spawn '' @ join_with (CHR '' '') (map (\<lambda>a. CHR 0x22 # a @ [CHR 0x22]) (words_of b)))
    \<and> newline \<notin> set (en_Native (bd_Entry b))"
proof -
  obtain i where i: "row_ok (i, bd_Entry b)"
    and arg: "bd_Arg b = [] \<and> \<not> takes_arg (bd_Entry b) \<or> nameArg (bd_Arg b) \<and> takes_arg (bd_Entry b)"
    using assms(2) behind_cases [of "bd_Action b" "bd_Entry b" "bd_Arg b"] by (auto simp: resolves_def)
  have w: "list_all (list_all safe_char) (words_of b)" using i arg nameArg_safe by (auto simp: words_of_def row_ok_def)
  then have eq: "map (Quote u) (words_of b) = map (\<lambda>a. CHR 0x22 # a @ [CHR 0x22]) (words_of b)"
    using Quote_plain [OF assms(1)] by (auto simp: list_all_iff)
  have "en_Native (bd_Entry b) = [] \<Longrightarrow> node u b = ''spawn '' @ join_with (CHR '' '') (map (Quote u) (words_of b))"
    by (simp add: node_def words_of_def Let_def)
  moreover have "en_Native (bd_Entry b) \<noteq> [] \<Longrightarrow> node u b = en_Native (bd_Entry b)"
    using i arg by (auto simp: node_def row_ok_def Let_def)
  moreover have "newline \<notin> set (en_Native (bd_Entry b))" using i by (simp add: row_ok_def)
  ultimately show ?thesis using w unfolding eq by metis
qed

lemma join_no_newline: "newline \<notin> set (join_with (CHR '' '') ws) \<longleftrightarrow> list_all (\<lambda>w. newline \<notin> set w) ws"
  by (induction "CHR '' ''" ws rule: join_with.induct) auto

lemma kdl_line_one:
  assumes "unicode_ok u" and "resolves src b"
  shows "newline \<notin> set (kdl_line u b)"
proof -
  have "newline \<notin> set (bd_Key b)" using resolves_sheet_ok [OF assms(2)] by (simp add: sheet_ok_def one_line_def)
  moreover have "newline \<notin> set (props b)" by (simp add: props_def newline_char)
  moreover have "newline \<notin> set (node u b)"
  proof -
    have "newline \<notin> set w" if "w \<in> set (words_of b)" for w
    proof -
      have "list_all safe_char w" using that resolves_node [OF assms] by (auto simp: list_all_iff)
      then show ?thesis using safe_chars by (fastforce simp: list_all_iff)
    qed
    moreover have "newline \<noteq> CHR 0x22" by (simp add: newline_char)
    ultimately have "newline \<notin> set (join_with (CHR '' '') (map (\<lambda>a. CHR 0x22 # a @ [CHR 0x22]) (words_of b)))"
      unfolding join_no_newline by (auto simp: list_all_iff)
    moreover have "newline \<notin> set ''spawn ''" by (simp add: newline_char)
    ultimately show ?thesis using resolves_node [OF assms] by (metis UnE set_append)
  qed
  ultimately show ?thesis by (simp add: kdl_line_def newline_char)
qed

text \<open>C25: 
  The generated config is structural. For every keymap that parses its lines are the comment, the
  head, one line for each bind in the keymap's order, and the brace that closes it; and what a
  line runs is either niri's own action as the registry spells it, or the words of the action
  and its argument, each between quotes and holding neither a quote nor a backslash nor a control
  character, so that KDL reads from each of them the word it is.
\<close>

theorem config_is_structural:
  assumes "unicode_ok u" and "Parse (Inr src) = Inr km"
  shows "split_on newline (EmitKDL u km) = [''// '' @ header, ''binds {''] @ map (kdl_line u) km @ [''}'', []]
    \<and> (\<forall>b \<in> set km. list_all (list_all safe_char) (words_of b)
        \<and> node u b = (if en_Native (bd_Entry b) \<noteq> [] then en_Native (bd_Entry b)
            else ''spawn '' @ join_with (CHR '' '') (map (\<lambda>a. CHR 0x22 # a @ [CHR 0x22]) (words_of b))))"
proof -
  have "list_all2 resolves src km" using assms(2) by (auto simp: Parse_def parse_binds_iff split: if_splits)
  then have r: "\<forall>b \<in> set km. \<exists>s. resolves s b"
    by (induction rule: list_all2_induct) auto
  then have "list_all (\<lambda>l. newline \<notin> set l) (map (kdl_line u) km)"
    using kdl_line_one [OF assms(1)] by (auto simp: list_all_iff)
  then have "split_on newline (concat (map (\<lambda>b. kdl_line u b @ [newline]) km) @ ''}'' @ [newline])
      = map (kdl_line u) km @ [''}'', []]"
    using split_lines [of newline "map (kdl_line u) km" "''}'' @ [newline]"] split_on_append_sep [of newline "''}''" "[]"]
    by (simp add: comp_def newline_char)
  moreover have "newline \<notin> set (''// '' @ header)" "newline \<notin> set ''binds {''" by code_simp+
  ultimately have "split_on newline (EmitKDL u km) = [''// '' @ header, ''binds {''] @ map (kdl_line u) km @ [''}'', []]"
    using split_on_append_sep [of newline "''// '' @ header"] split_on_append_sep [of newline "''binds {''"]
    by (simp add: EmitKDL_def)
  then show ?thesis using r resolves_node [OF assms(1)] by blast
qed

lemma config_is_structural_witness:
  "\<exists>km. Parse (Inr two_binds) = Inr km \<and> length (split_on newline (EmitKDL ascii_unicode km)) = 6"
proof -
  obtain km where "Parse (Inr two_binds) = Inr km" "map bd_Key km = [''Mod+j'', ''Mod+t'']" using two_binds_parse by meson
  moreover from this have "length km = 2" using length_map [of bd_Key km] by simp
  moreover note config_is_structural [THEN conjunct1, OF ascii_unicode_ok, of two_binds km]
  ultimately have "length (split_on newline (EmitKDL ascii_unicode km)) = 6" by simp
  then show ?thesis using \<open>Parse (Inr two_binds) = Inr km\<close> by blast
qed

section \<open>What the palette lists\<close>

definition row_from :: "action \<Rightarrow> bool" where
  "row_from a \<longleftrightarrow> (\<exists>e arg d. behind (ac_Name a) = Some (e, arg) \<and> arg \<noteq> [] \<and> a = action_row (ac_Name a) e arg d)"

definition carries :: "string \<Rightarrow> bool" where
  "carries k \<longleftrightarrow> (\<exists>e arg. behind k = Some (e, arg) \<and> arg \<noteq> [])"

lemma action_row_simps [simp]:
  "ac_Name (action_row n e arg d) = n" "ac_Group (action_row n e arg d) = en_Group e"
  by (simp_all add: action_row_def Let_def)

lemma listed_loop_cases:
  "listed_loop (l # ls) keyOf out seen = (keyOf', out') \<Longrightarrow> \<exists>out1 seen1.
     listed_loop ls (if map_of keyOf (ls_action l) = None then AList.update (ls_action l) (ls_key l) keyOf else keyOf) out1 seen1
       = (keyOf', out')
   \<and> (if carries (ls_action l) \<and> ls_action l \<notin> set seen
        then (\<exists>r. out1 = out @ [r] \<and> ac_Name r = ls_action l \<and> row_from r) \<and> seen1 = ls_action l # seen
        else out1 = out \<and> seen1 = seen)"
  by (force simp: Let_def carries_def row_from_def split: option.splits if_splits)

lemma listed_loop_keys:
  "listed_loop ls keyOf out seen = (keyOf', out') \<Longrightarrow>
    map_of keyOf' k = (case map_of keyOf k of Some v \<Rightarrow> Some v | None \<Rightarrow> map_option ls_key (find (\<lambda>l. ls_action l = k) ls))"
proof (induction ls arbitrary: keyOf out seen)
  case (Cons l ls)
  then obtain out1 seen1 where
    "listed_loop ls (if map_of keyOf (ls_action l) = None then AList.update (ls_action l) (ls_key l) keyOf else keyOf) out1 seen1
       = (keyOf', out')" using listed_loop_cases by blast
  note IH = Cons.IH [OF this]
  show ?case
  proof (cases "map_of keyOf (ls_action l)")
    case None
    then show ?thesis using IH by (cases "ls_action l = k") (simp_all add: update_conv' split: option.split)
  next
    case (Some v)
    then show ?thesis using IH by (cases "ls_action l = k") (simp_all split: option.split)
  qed
qed (simp split: option.split)

lemma listed_loop_rows:
  "listed_loop ls keyOf out seen = (keyOf', out') \<Longrightarrow> \<exists>rows. out' = out @ rows \<and> distinct (map ac_Name rows)
    \<and> ac_Name ` set rows = {k \<in> ls_action ` set ls. carries k} - set seen \<and> (\<forall>a \<in> set rows. row_from a)"
proof (induction ls arbitrary: keyOf out seen)
  case (Cons l ls)
  let ?k = "if map_of keyOf (ls_action l) = None then AList.update (ls_action l) (ls_key l) keyOf else keyOf"
  from listed_loop_cases [OF Cons.prems] obtain out1 seen1 where loop: "listed_loop ls ?k out1 seen1 = (keyOf', out')"
    and kind: "if carries (ls_action l) \<and> ls_action l \<notin> set seen
        then (\<exists>r. out1 = out @ [r] \<and> ac_Name r = ls_action l \<and> row_from r) \<and> seen1 = ls_action l # seen
        else out1 = out \<and> seen1 = seen" by (elim exE conjE) (rule that)
  from Cons.IH [OF loop] obtain rows where rows: "out' = out1 @ rows" "distinct (map ac_Name rows)"
    "ac_Name ` set rows = {k \<in> ls_action ` set ls. carries k} - set seen1" "\<forall>a \<in> set rows. row_from a" by blast
  show ?case
  proof (cases "carries (ls_action l) \<and> ls_action l \<notin> set seen")
    case True
    then obtain r where "out1 = out @ [r]" "ac_Name r = ls_action l" "row_from r" "seen1 = ls_action l # seen"
      using kind by auto
    then show ?thesis using rows True by (intro exI [of _ "r # rows"]) auto
  next
    case False
    then show ?thesis using rows kind by (intro exI [of _ rows]) auto
  qed
qed simp

lemma find_in_append: "find P (xs @ ys) = (case find P xs of None \<Rightarrow> find P ys | Some x \<Rightarrow> Some x)"
  by (induction xs) auto

lemma find_none: "(\<And>x. x \<in> set xs \<Longrightarrow> \<not> P x) \<Longrightarrow> find P xs = None"
  by (induction xs) auto

lemma find_in_group:
  assumes "\<And>b. b \<in> set km \<Longrightarrow> P b \<Longrightarrow> f b = g0" and "g0 \<in> set gs"
  shows "find P (concat (map (\<lambda>g. filter (\<lambda>b. f b = g) km) gs)) = find P km"
  using assms(2)
proof (induction gs)
  case (Cons g gs)
  show ?case
  proof (cases "g = g0")
    case True
    have "find P (filter (\<lambda>b. f b = g0) km) = find P km" using assms(1) by (induction km) auto
    moreover have "find P (concat (map (\<lambda>g. filter (\<lambda>b. f b = g) km) gs)) = None" if "find P km = None"
      using that by (intro find_none) (auto simp: find_None_iff)
    ultimately show ?thesis using True by (auto simp: find_in_append split: option.split)
  next
    case False
    then have "find P (filter (\<lambda>b. f b = g) km) = None" using assms(1) by (intro find_none) auto
    then show ?thesis using Cons False by (auto simp: find_in_append)
  qed
qed simp

lemma sort_by_cong_on:
  "(\<And>a b. a \<in> set xs \<Longrightarrow> b \<in> set xs \<Longrightarrow> lt a b = lt' a b) \<Longrightarrow> sort_by lt xs = sort_by lt' xs"
proof (induction xs)
  case (Cons x xs)
  have "insort_by lt x ys = insort_by lt' x ys" if "set ys \<subseteq> set xs" for ys
    using that Cons.prems by (induction ys) auto
  then show ?case using Cons by simp
qed simp

definition action_key :: "action \<Rightarrow> nat \<times> string" where
  "action_key a = (group_order (ac_Group a), ac_Name a)"

interpretation by_action: comparator "\<lambda>a b. action_key a < action_key b"
  by (rule comparator_key)

lemma group_order_inj: "g \<in> set groups \<Longrightarrow> h \<in> set groups \<Longrightarrow> group_order g = group_order h \<longleftrightarrow> g = h"
proof -
  have "list_all (\<lambda>g. list_all (\<lambda>h. group_order g = group_order h \<longleftrightarrow> g = h) groups) groups" by code_simp
  then show "g \<in> set groups \<Longrightarrow> h \<in> set groups \<Longrightarrow> group_order g = group_order h \<longleftrightarrow> g = h"
    by (simp add: list_all_iff)
qed

lemma action_less_key:
  "ac_Group a \<in> set groups \<Longrightarrow> ac_Group b \<in> set groups \<Longrightarrow> action_less a b \<longleftrightarrow> action_key a < action_key b"
  using group_order_inj [of "ac_Group a" "ac_Group b"] by (auto simp: action_less_def action_key_def)

lemma row_from_group: "row_from a \<Longrightarrow> ac_Group a \<in> set groups"
proof -
  assume "row_from a"
  then obtain e arg d where b: "behind (ac_Name a) = Some (e, arg)" and a: "a = action_row (ac_Name a) e arg d"
    by (auto simp: row_from_def)
  have "en_Group e \<in> set groups" using behind_cases [OF b] by (auto simp: row_ok_def)
  then show ?thesis by (subst a) simp
qed

definition plain_rows :: "(string \<times> entry) list \<Rightarrow> action list" where
  "plain_rows ents = map (\<lambda>(i, e). action_row i e [] (en_Desc e)) (filter (\<lambda>(i, e). \<not> takes_arg e) ents)"

lemma plain_rows_facts:
  assumes "mset ents = mset registry"
  shows "distinct (map ac_Name (plain_rows ents))
    \<and> ac_Name ` set (plain_rows ents) = {i. \<exists>e. map_of registry i = Some e \<and> \<not> takes_arg e}
    \<and> (\<forall>a \<in> set (plain_rows ents). ac_Group a \<in> set groups)"
proof -
  have set: "set ents = set registry" and d: "distinct (map fst registry)"
    using assms registry_ok mset_eq_setD by blast+
  then have "distinct (map fst ents)" using assms by (metis distinct_map mset_eq_imp_distinct_iff mset_map)
  then have "distinct (map fst (filter (\<lambda>(i, e). \<not> takes_arg e) ents))" by (rule distinct_map_filter)
  moreover have "map ac_Name (plain_rows ents) = map fst (filter (\<lambda>(i, e). \<not> takes_arg e) ents)"
    by (simp add: plain_rows_def split_beta comp_def)
  ultimately have "distinct (map ac_Name (plain_rows ents))" by simp
  moreover have "ac_Name ` set (plain_rows ents) = {i. \<exists>e. (i, e) \<in> set registry \<and> \<not> takes_arg e}"
    by (force simp: plain_rows_def set)
  then have "ac_Name ` set (plain_rows ents) = {i. \<exists>e. map_of registry i = Some e \<and> \<not> takes_arg e}"
    using d by (auto simp: map_of_eq_Some_iff)
  moreover have "\<forall>a \<in> set (plain_rows ents). ac_Group a \<in> set groups"
    using registry_ok by (auto simp: plain_rows_def set list_all_iff row_ok_def)
  ultimately show ?thesis by blast
qed

lemma parsed_behind:
  assumes "Parse (Inr src) = Inr km" and "b \<in> set km"
  shows "behind (bd_Action b) = Some (bd_Entry b, bd_Arg b)"
proof -
  have "list_all2 resolves src km" using assms(1) by (auto simp: Parse_def parse_binds_iff split: if_splits)
  then have "\<forall>b \<in> set km. behind (bd_Action b) = Some (bd_Entry b, bd_Arg b)"
    by (induction rule: list_all2_induct) (auto simp: resolves_def)
  then show ?thesis using assms(2) by blast
qed

lemma find_row_of: "find (\<lambda>l. ls_action l = n) (map row_of bs) = map_option row_of (find (\<lambda>b. bd_Action b = n) bs)"
  by (induction bs) (auto simp: row_of_def)

text \<open>The first row of an action in the cheatsheet is the first bind of it in the keymap.\<close>

lemma sheet_find:
  assumes "Parse (Inr src) = Inr km"
  shows "find (\<lambda>l. ls_action l = n) (parseText (EmitText km)) = map_option row_of (find (\<lambda>b. bd_Action b = n) km)"
proof -
  have sheet: "parseText (EmitText km) = map row_of (concat (map (of_group km) groups))"
    using cheatsheet_rows [OF assms] by (simp add: map_concat comp_def)
  show ?thesis
  proof (cases "find (\<lambda>b. bd_Action b = n) km")
    case None
    then have "find (\<lambda>b. bd_Action b = n) (concat (map (of_group km) groups)) = None"
      by (auto simp: find_None_iff of_group_def)
    then show ?thesis using None by (simp add: sheet find_row_of)
  next
    case (Some b)
    then have b: "b \<in> set km" "bd_Action b = n" by (auto simp: find_Some_iff)
    have "find (\<lambda>b. bd_Action b = n) (concat (map (of_group km) groups)) = find (\<lambda>b. bd_Action b = n) km"
      unfolding of_group_def [abs_def]
    proof (rule find_in_group)
      show "en_Group (bd_Entry c) = en_Group (bd_Entry b)" if "c \<in> set km" "bd_Action c = n" for c
        using that b parsed_behind [OF assms that(1)] parsed_behind [OF assms b(1)] by simp
      show "en_Group (bd_Entry b) \<in> set groups"
        using behind_cases [OF parsed_behind [OF assms b(1)]] by (auto simp: row_ok_def)
    qed
    then show ?thesis by (simp add: sheet find_row_of)
  qed
qed

lemma sheet_actions:
  assumes "Parse (Inr src) = Inr km"
  shows "{k \<in> ls_action ` set (parseText (EmitText km)). carries k} = {bd_Action b | b. b \<in> set km \<and> bd_Arg b \<noteq> []}"
proof -
  have "set (parseText (EmitText km)) = row_of ` set km" using cheatsheet_rows_mset [OF assms] by (metis mset_eq_setD set_map)
  then have "ls_action ` set (parseText (EmitText km)) = bd_Action ` set km" by (auto simp: row_of_def image_iff)
  then show ?thesis using parsed_behind [OF assms] by (auto simp: carries_def)
qed

text \<open>C24: 
  The palette lists everything that can be asked for, once. From the cheatsheet of a keymap that
  parses, and in whatever order the registry is iterated, the rows are the actions that take no
  argument and the ones the keymap gives an argument to, each under its own name and none twice;
  beside each is the chord the keymap binds it to first, or none; and they come in the order of
  the action map and then of their names.
\<close>

theorem palette_is_complete:
  assumes "Parse (Inr src) = Inr km" and "mset ents = mset registry" and "rows = Actions ents (EmitText km)"
  shows "distinct (map ac_Name rows)
    \<and> ac_Name ` set rows = {i. \<exists>e. map_of registry i = Some e \<and> \<not> takes_arg e} \<union> {bd_Action b | b. b \<in> set km \<and> bd_Arg b \<noteq> []}
    \<and> (\<forall>a \<in> set rows. ac_Key a = (case find (\<lambda>b. bd_Action b = ac_Name a) km of None \<Rightarrow> [] | Some b \<Rightarrow> bd_Key b))
    \<and> sorted_wrt (\<lambda>a b. \<not> action_key b < action_key a) rows"
proof -
  let ?ls = "parseText (EmitText km)"
  obtain keyOf out where loop: "listed_loop ?ls [] [] [] = (keyOf, out)" by (metis surj_pair)
  let ?all = "out @ plain_rows ents"
  have rows: "rows = map (\<lambda>a. a\<lparr>ac_Key := aget [] keyOf (ac_Name a)\<rparr>) (sort_by action_less ?all)"
    using assms(3) loop by (simp add: Actions_def plain_rows_def)
  from listed_loop_rows [OF loop] have out: "distinct (map ac_Name out)" "\<forall>a \<in> set out. row_from a"
    "ac_Name ` set out = {k \<in> ls_action ` set ?ls. carries k}" by auto
  note plain = plain_rows_facts [OF assms(2)]
  have "\<not> carries i" if "map_of registry i = Some e" "\<not> takes_arg e" for i e
    using that by (auto simp: carries_def behind_def)
  then have "ac_Name ` set out \<inter> ac_Name ` set (plain_rows ents) = {}" using out(3) plain by auto
  then have d: "distinct (map ac_Name ?all)" using out(1) plain by simp
  have "list_all (\<lambda>a. ac_Group a \<in> set groups) ?all" using out(2) plain row_from_group by (auto simp: list_all_iff)
  then have sort: "sort_by action_less ?all = sort_by (\<lambda>a b. action_key a < action_key b) ?all"
    by (intro sort_by_cong_on action_less_key) (auto simp: list_all_iff)
  have names: "map ac_Name rows = map ac_Name (sort_by action_less ?all)" by (simp add: rows comp_def)
  have "distinct (map ac_Name rows)" unfolding names using d by (simp add: distinct_map_sort_by)
  moreover have "ac_Name ` set rows = ac_Name ` set ?all" using names by (metis list.set_map set_sort_by)
  then have "ac_Name ` set rows = {i. \<exists>e. map_of registry i = Some e \<and> \<not> takes_arg e} \<union> {bd_Action b | b. b \<in> set km \<and> bd_Arg b \<noteq> []}"
    using out(3) plain sheet_actions [OF assms(1)] by (simp add: image_Un Un_commute)
  moreover have "ac_Key a = (case find (\<lambda>b. bd_Action b = ac_Name a) km of None \<Rightarrow> [] | Some b \<Rightarrow> bd_Key b)" if "a \<in> set rows" for a
  proof -
    have "ac_Key a = aget [] keyOf (ac_Name a)" using that by (auto simp: rows)
    then show ?thesis
      using listed_loop_keys [OF loop, of "ac_Name a"] sheet_find [OF assms(1)] by (auto simp: aget_def row_of_def split: option.split)
  qed
  moreover have "sorted_wrt (\<lambda>a b. \<not> action_key b < action_key a) rows"
    unfolding rows sort using by_action.sorted_sort_by [of ?all] by (simp add: sorted_wrt_map action_key_def)
  ultimately show ?thesis by blast
qed

lemma palette_is_complete_witness:
  "\<exists>km. Parse (Inr two_binds) = Inr km \<and> distinct (map ac_Name (Actions registry (EmitText km)))
     \<and> ''app.launch terminal'' \<in> ac_Name ` set (Actions registry (EmitText km))"
proof -
  have "case Parse (Inr two_binds) of Inl _ \<Rightarrow> False
     | Inr km \<Rightarrow> list_ex (\<lambda>b. bd_Action b = ''app.launch terminal'' \<and> bd_Arg b \<noteq> []) km"
    by code_simp
  then obtain km where km: "Parse (Inr two_binds) = Inr km"
    "list_ex (\<lambda>b. bd_Action b = ''app.launch terminal'' \<and> bd_Arg b \<noteq> []) km" by (auto split: sum.splits)
  then have "\<exists>b. ''app.launch terminal'' = bd_Action b \<and> b \<in> set km \<and> bd_Arg b \<noteq> []" unfolding list_ex_iff by (metis (full_types))
  then show ?thesis using palette_is_complete [OF km(1) refl refl] km(1) by blast
qed

end
