(* ===== verification/Zded_Conns.thy ===== *)
theory Zded_Conns
  imports Prelude "HOL-Library.Word"
begin

text \<open>
  The daemon's connections (\<open>internal/zded/connections.go\<close>, \<open>listeners.go\<close>, \<open>surface.go\<close>, \<open>claimAsk\<close> of
  \<open>ask_request.go\<close>): which are let in and which one makes room, which listen, and whether a surface
  said it is up. A connection is a number, its identity; what the kernel and the clock say of it is
  in a table. Go iterates its map of connections in an order of its own: here it is the order of
  a list, of which nothing is assumed.
\<close>

section \<open>The state\<close>

definition ConnectionsMax :: nat where "ConnectionsMax = 256"
definition listenersMax :: nat where "listenersMax = 16"
definition asksMax :: nat where "asksMax = 4"

record sink_info =
  sk_pid :: int
  sk_asking :: bool
  sk_asked :: int

record connections =
  cs_conns :: "nat list"
  cs_subs :: "nat list"
  cs_info :: "nat \<Rightarrow> sink_info"
  cs_dropped :: nat
  cs_asks :: int

definition no_connections :: connections where
  "no_connections = \<lparr>cs_conns = [], cs_subs = [], cs_info = (\<lambda>_. \<lparr>sk_pid = 0, sk_asking = False, sk_asked = 0\<rparr>),
     cs_dropped = 0, cs_asks = 0\<rparr>"

definition touch :: "int \<Rightarrow> nat \<Rightarrow> connections \<Rightarrow> connections" where
  "touch now k s = s\<lparr>cs_info := (cs_info s)(k := (cs_info s k)\<lparr>sk_asked := now\<rparr>)\<rparr>"

section \<open>Making room\<close>

text \<open>How many connections the process of one of them holds.\<close>

definition holds :: "connections \<Rightarrow> int \<Rightarrow> nat" where
  "holds s pid = length (filter (\<lambda>c. sk_pid (cs_info s c) = pid) (cs_conns s))"

definition spared :: "nat \<Rightarrow> connections \<Rightarrow> nat \<Rightarrow> bool" where
  "spared k s c \<longleftrightarrow> c = k \<or> c \<in> set (cs_subs s) \<or> sk_asking (cs_info s c)"

text \<open>The loop that chooses; \<open>best\<close> is \<open>out\<close>, \<open>held\<close> and \<open>idle\<close> once there is an \<open>out\<close>.\<close>

fun pick_out :: "nat \<Rightarrow> connections \<Rightarrow> nat list \<Rightarrow> (nat \<times> nat \<times> int) option \<Rightarrow> (nat \<times> nat \<times> int) option" where
  "pick_out k s [] best = best"
| "pick_out k s (c # cs) best =
     (if spared k s c then pick_out k s cs best
      else
        let n = holds s (sk_pid (cs_info s c)); last_asked = sk_asked (cs_info s c)
        in pick_out k s cs
             (case best of
                None \<Rightarrow> Some (c, n, last_asked)
              | Some (out, most, idle) \<Rightarrow>
                  if most < n \<or> n = most \<and> last_asked < idle then Some (c, n, last_asked) else best))"

definition admit :: "int \<Rightarrow> nat \<Rightarrow> connections \<Rightarrow> (nat \<times> nat) option \<times> connections" where
  "admit now k s =
     (let s = touch now k s; s = s\<lparr>cs_conns := List.insert k (cs_conns s)\<rparr>
      in if length (cs_conns s) \<le> ConnectionsMax then (None, s)
         else (let (out, most) = (case pick_out k s (cs_conns s) None of
                                    Some (out, most, _) \<Rightarrow> (out, most)
                                  | None \<Rightarrow> (k, holds s (sk_pid (cs_info s k))))
               in (Some (out, most), s\<lparr>cs_conns := remove1 out (cs_conns s), cs_dropped := cs_dropped s + 1\<rparr>)))"

definition forget_conn :: "nat \<Rightarrow> connections \<Rightarrow> connections" where
  "forget_conn k s = s\<lparr>cs_conns := remove1 k (cs_conns s)\<rparr>"

section \<open>Listening, and asking\<close>

definition listen :: "nat \<Rightarrow> connections \<Rightarrow> bool \<times> connections" where
  "listen k s =
     (if k \<in> set (cs_subs s) then (True, s)
      else if listenersMax \<le> length (cs_subs s) then (False, s)
      else (True, s\<lparr>cs_subs := cs_subs s @ [k]\<rparr>))"

definition unlisten :: "nat \<Rightarrow> connections \<Rightarrow> connections" where
  "unlisten k s = s\<lparr>cs_subs := remove1 k (cs_subs s)\<rparr>"

text \<open>How a line sent to a listener ends; one that failed is no listener any more.\<close>

datatype sending = Sent | Busy | Broken

definition broadcast :: "(nat \<Rightarrow> sending) \<Rightarrow> connections \<Rightarrow> nat \<times> connections" where
  "broadcast send s =
     (length (filter (\<lambda>k. send k = Sent) (cs_subs s)),
      s\<lparr>cs_subs := filter (\<lambda>k. send k \<noteq> Broken) (cs_subs s)\<rparr>)"

definition claimAsk :: "connections \<Rightarrow> bool \<times> connections" where
  "claimAsk s = (if int asksMax \<le> cs_asks s then (False, s) else (True, s\<lparr>cs_asks := cs_asks s + 1\<rparr>))"

definition releaseAsk :: "connections \<Rightarrow> connections" where
  "releaseAsk s = s\<lparr>cs_asks := cs_asks s - 1\<rparr>"

definition set_asking :: "nat \<Rightarrow> bool \<Rightarrow> connections \<Rightarrow> connections" where
  "set_asking k b s = s\<lparr>cs_info := (cs_info s)(k := (cs_info s k)\<lparr>sk_asking := b\<rparr>)\<rparr>"

text \<open>The guards at the end of \<open>askOn\<close>: \<open>starts\<close> says whether the daemon still starts anything.\<close>

datatype asked_how = Answering_another | All_running | Stopping | Asking_now

definition begin_ask :: "bool \<Rightarrow> nat \<Rightarrow> connections \<Rightarrow> asked_how \<times> connections" where
  "begin_ask starts k s =
     (if sk_asking (cs_info s k) then (Answering_another, s)
      else (case claimAsk s of
              (False, s) \<Rightarrow> (All_running, s)
            | (True, s) \<Rightarrow>
                (let s = set_asking k True s
                 in if starts then (Asking_now, s) else (Stopping, releaseAsk (set_asking k False s)))))"

definition end_ask :: "nat \<Rightarrow> connections \<Rightarrow> connections" where
  "end_ask k s = set_asking k False (releaseAsk s)"

section \<open>Who makes room\<close>

text \<open>The choice as a comparison: who holds more, and then who was quiet for longer.\<close>

definition share :: "connections \<Rightarrow> nat \<Rightarrow> nat" where "share s c = holds s (sk_pid (cs_info s c))"
definition last_asked :: "connections \<Rightarrow> nat \<Rightarrow> int" where "last_asked s c = sk_asked (cs_info s c)"

definition before :: "connections \<Rightarrow> nat \<Rightarrow> nat \<Rightarrow> bool" where
  "before s c d \<longleftrightarrow> share s d < share s c \<or> share s c = share s d \<and> last_asked s c < last_asked s d"

definition found :: "connections \<Rightarrow> nat option \<Rightarrow> (nat \<times> nat \<times> int) option" where
  "found s = map_option (\<lambda>c. (c, share s c, last_asked s c))"

lemma pick_out_step:
  "pick_out k s (c # cs) (found s b)
    = pick_out k s cs (found s (if spared k s c then b
        else case b of None \<Rightarrow> Some c | Some d \<Rightarrow> if before s c d then Some c else b))"
  by (cases b) (auto simp: found_def before_def share_def last_asked_def Let_def)

lemma pick_out_facts:
  "\<exists>r. pick_out k s cs (found s b) = found s r
    \<and> (r = None \<longleftrightarrow> b = None \<and> (\<forall>c \<in> set cs. spared k s c))
    \<and> (\<forall>c. r = Some c \<longrightarrow> (b = Some c \<or> c \<in> set cs \<and> \<not> spared k s c)
        \<and> (\<forall>d. b = Some d \<or> d \<in> set cs \<and> \<not> spared k s d \<longrightarrow> \<not> before s d c))"
proof (induction cs arbitrary: b)
  case Nil
  show ?case by (rule exI [of _ b]) (auto simp: before_def)
next
  case (Cons c cs)
  have trans: "\<not> before s x y \<Longrightarrow> \<not> before s y z \<Longrightarrow> \<not> before s x z" for x y z by (auto simp: before_def)
  have anti: "before s x y \<Longrightarrow> \<not> before s y x" for x y by (auto simp: before_def)
  have self: "\<not> before s x x" for x by (simp add: before_def)
  show ?case
  proof (cases "spared k s c")
    case True
    then show ?thesis using Cons.IH [of b] by (auto simp: pick_out_step simp del: pick_out.simps)
  next
    case False
    define b' where "b' = Some (case b of None \<Rightarrow> c | Some d \<Rightarrow> if before s c d then c else d)"
    have b': "pick_out k s (c # cs) (found s b) = pick_out k s cs (found s b')"
      using False by (auto simp: pick_out_step b'_def simp del: pick_out.simps split: option.split)
    have from_b: "b = Some x \<or> x = c" if "b' = Some x" for x using that by (auto simp: b'_def split: option.splits if_splits)
    have beats: "\<not> before s d x" if "b' = Some x" and "b = Some d \<or> d = c" for d x
      using that anti self by (auto simp: b'_def split: option.splits if_splits)
    obtain r where r: "pick_out k s cs (found s b') = found s r" "r \<noteq> None"
      "\<And>x. r = Some x \<Longrightarrow> b' = Some x \<or> x \<in> set cs \<and> \<not> spared k s x"
      "\<And>x d. r = Some x \<Longrightarrow> b' = Some d \<or> d \<in> set cs \<and> \<not> spared k s d \<Longrightarrow> \<not> before s d x"
      using Cons.IH [of b'] by (auto simp: b'_def)
    have "\<not> before s d x" if x: "r = Some x" and d: "b = Some d \<or> d = c" for d x
    proof -
      obtain y where y: "b' = Some y" by (simp add: b'_def)
      show ?thesis using trans [OF beats [OF y d] r(4) [OF x disjI1 [OF y]]] .
    qed
    moreover have "b = Some x \<or> x \<in> set (c # cs) \<and> \<not> spared k s x" if "r = Some x" for x
      using r(3) [OF that] from_b False by auto
    ultimately show ?thesis using b' r(1,2,4) False by (intro exI [of _ r]) auto
  qed
qed

section \<open>The connections over time\<close>

text \<open>
  What happens to the connections, in any order: one arrives, asks anything, listens, is sent to,
  closes; a question is taken up by the connection's own read loop, and its goroutine, when it is
  over, gives the claim back first and only then clears the mark. Between the two the connection
  is in the second component.
\<close>

inductive conn_step :: "connections \<times> nat list \<Rightarrow> connections \<times> nat list \<Rightarrow> bool" where
  arrives: "k \<notin> set (cs_conns s) \<Longrightarrow> \<not> sk_asking (cs_info s k) \<Longrightarrow> conn_step (s, es) (snd (admit now k s), es)"
| speaks: "conn_step (s, es) (touch now k s, es)"
| listens: "conn_step (s, es) (snd (listen k s), es)"
| stops_listening: "conn_step (s, es) (unlisten k s, es)"
| is_told: "conn_step (s, es) (snd (broadcast send s), es)"
| leaves: "conn_step (s, es) (forget_conn k s, es)"
| asks: "conn_step (s, es) (snd (begin_ask starts k s), es)"
| releases: "sk_asking (cs_info s k) \<Longrightarrow> k \<notin> set es \<Longrightarrow> conn_step (s, es) (releaseAsk s, k # es)"
| clears: "k \<in> set es \<Longrightarrow> conn_step (s, es) (set_asking k False s, remove1 k es)"
| is_another: "k \<notin> set (cs_conns s) \<Longrightarrow> \<not> sk_asking (cs_info s k) \<Longrightarrow>
    conn_step (s, es) (s\<lparr>cs_info := (cs_info s)(k := \<lparr>sk_pid = pid, sk_asking = False, sk_asked = 0\<rparr>)\<rparr>, es)"

inductive conn_reached :: "connections \<times> nat list \<Rightarrow> bool" where
  at_start: "conn_reached (no_connections, [])"
| by_step: "conn_reached s \<Longrightarrow> conn_step s s' \<Longrightarrow> conn_reached s'"

text \<open>The bounds, and that a mark is either a claim or a claim just given back.\<close>

definition marked :: "connections \<Rightarrow> nat set" where
  "marked s = {k. sk_asking (cs_info s k)}"

definition conns_ok :: "connections \<times> nat list \<Rightarrow> bool" where
  "conns_ok = (\<lambda>(s, es). distinct (cs_conns s) \<and> length (cs_conns s) \<le> ConnectionsMax
     \<and> distinct (cs_subs s) \<and> length (cs_subs s) \<le> listenersMax
     \<and> finite (marked s) \<and> distinct es \<and> set es \<subseteq> marked s \<and> cs_asks s \<le> int asksMax
     \<and> int (card (marked s)) = cs_asks s + int (length es))"

lemma marked_simps [simp]:
  "marked (touch now k s) = marked s" "marked (s\<lparr>cs_conns := cs\<rparr>) = marked s" "marked (s\<lparr>cs_subs := cs\<rparr>) = marked s"
  "marked (s\<lparr>cs_dropped := n\<rparr>) = marked s" "marked (s\<lparr>cs_asks := i\<rparr>) = marked s"
  "marked (set_asking k b s) = (if b then insert k (marked s) else marked s - {k})"
  by (auto simp: marked_def touch_def set_asking_def)

lemma conn_fields [simp]:
  "cs_conns (touch now k s) = cs_conns s" "cs_subs (touch now k s) = cs_subs s" "cs_asks (touch now k s) = cs_asks s"
  "cs_dropped (touch now k s) = cs_dropped s"
  "cs_conns (set_asking k b s) = cs_conns s" "cs_subs (set_asking k b s) = cs_subs s" "cs_asks (set_asking k b s) = cs_asks s"
  by (simp_all add: touch_def set_asking_def)

text \<open>What \<open>admit\<close> does, said once: nothing goes below the limit, and one goes at it.\<close>

definition joined :: "int \<Rightarrow> nat \<Rightarrow> connections \<Rightarrow> connections" where
  "joined now k s = touch now k s\<lparr>cs_conns := List.insert k (cs_conns s)\<rparr>"

lemma admit_joined:
  "admit now k s =
     (if length (cs_conns (joined now k s)) \<le> ConnectionsMax then (None, joined now k s)
      else (let (out, most) = (case pick_out k (joined now k s) (cs_conns (joined now k s)) None of
                                 Some (out, most, _) \<Rightarrow> (out, most)
                               | None \<Rightarrow> (k, share (joined now k s) k))
            in (Some (out, most), (joined now k s)\<lparr>cs_conns := remove1 out (cs_conns (joined now k s)), cs_dropped := cs_dropped s + 1\<rparr>)))"
  unfolding admit_def joined_def share_def Let_def conn_fields by simp

lemma admit_cases:
  assumes "admit now k s = (r, s')"
  shows "r = None \<and> s' = joined now k s \<and> length (List.insert k (cs_conns s)) \<le> ConnectionsMax
    \<or> (\<exists>c. r = Some (c, share (joined now k s) c) \<and> \<not> length (List.insert k (cs_conns s)) \<le> ConnectionsMax
        \<and> cs_conns s' = remove1 c (List.insert k (cs_conns s)) \<and> cs_subs s' = cs_subs s \<and> cs_asks s' = cs_asks s
        \<and> marked s' = marked s
        \<and> (if \<forall>d \<in> set (cs_conns s). spared k s d then c = k
           else c \<in> set (cs_conns s) \<and> \<not> spared k s c
             \<and> (\<forall>d \<in> set (cs_conns s). \<not> spared k s d \<longrightarrow> \<not> before (joined now k s) d c)))"
proof (cases "length (List.insert k (cs_conns s)) \<le> ConnectionsMax")
  case True
  then show ?thesis using assms by (auto simp: admit_def joined_def Let_def)
next
  case False
  let ?s = "joined now k s"
  obtain w where w: "pick_out k ?s (cs_conns ?s) None = found ?s w"
    "w = None \<longleftrightarrow> (\<forall>c \<in> set (cs_conns ?s). spared k ?s c)"
    "\<forall>c. w = Some c \<longrightarrow> c \<in> set (cs_conns ?s) \<and> \<not> spared k ?s c
       \<and> (\<forall>d \<in> set (cs_conns ?s). \<not> spared k ?s d \<longrightarrow> \<not> before ?s d c)"
    using pick_out_facts [of k ?s "cs_conns ?s" None] by (auto simp: found_def)
  have sp: "spared k ?s c = spared k s c" for c by (auto simp: spared_def joined_def touch_def)
  have k: "spared k s k" by (simp add: spared_def)
  have same: "cs_subs ?s = cs_subs s" "cs_asks ?s = cs_asks s" "marked ?s = marked s" by (simp_all add: joined_def)
  have cs: "cs_conns ?s = List.insert k (cs_conns s)" by (simp add: joined_def)
  show ?thesis
  proof (cases w)
    case None
    then show ?thesis using assms False w sp
      by (auto simp: admit_joined found_def cs same)
  next
    case (Some c)
    then show ?thesis using assms False w sp k
      by (auto simp: admit_joined found_def cs same)
  qed
qed

lemma length_insert_le: "length (List.insert k cs) \<le> Suc (length cs)"
  by (simp add: List.insert_def)

lemma admit_conns_ok:
  assumes "conns_ok (s, es)"
  shows "conns_ok (snd (admit now k s), es)"
proof -
  have same: "cs_subs (joined now k s) = cs_subs s" "cs_asks (joined now k s) = cs_asks s"
    "marked (joined now k s) = marked s" "cs_conns (joined now k s) = List.insert k (cs_conns s)"
    by (simp_all add: joined_def)
  consider "snd (admit now k s) = joined now k s" "length (List.insert k (cs_conns s)) \<le> ConnectionsMax"
    | c where "cs_conns (snd (admit now k s)) = remove1 c (List.insert k (cs_conns s))" "c \<in> set (List.insert k (cs_conns s))"
        "cs_subs (snd (admit now k s)) = cs_subs s" "cs_asks (snd (admit now k s)) = cs_asks s"
        "marked (snd (admit now k s)) = marked s"
    using admit_cases [OF surjective_pairing [of "admit now k s"]] by (auto split: if_splits)
  then show ?thesis
  proof cases
    case 1
    then show ?thesis using assms same by (simp add: conns_ok_def distinct_insert)
  next
    case 2
    then show ?thesis using assms length_insert_le [of k "cs_conns s"]
      by (auto simp: conns_ok_def distinct_insert length_remove1)
  qed
qed

lemma begin_ask_conns_ok:
  assumes "conns_ok (s, es)"
  shows "conns_ok (snd (begin_ask starts k s), es)"
proof (cases "sk_asking (cs_info s k) \<or> int asksMax \<le> cs_asks s")
  case True
  then show ?thesis using assms by (auto simp: begin_ask_def claimAsk_def)
next
  case False
  then have k: "k \<notin> marked s" "k \<notin> set es" using assms by (auto simp: marked_def conns_ok_def)
  have "snd (begin_ask starts k s) = (let s' = set_asking k True (s\<lparr>cs_asks := cs_asks s + 1\<rparr>)
      in if starts then s' else releaseAsk (set_asking k False s'))"
    using False by (simp add: begin_ask_def claimAsk_def Let_def)
  then show ?thesis using assms k False
    by (auto simp: conns_ok_def releaseAsk_def Let_def)
qed

lemma step_conns_ok: "conn_step x y \<Longrightarrow> conns_ok x \<Longrightarrow> conns_ok y"
proof (induction rule: conn_step.induct)
  case (arrives k s es now)
  then show ?case using admit_conns_ok by blast
next
  case (asks s es starts k)
  then show ?case using begin_ask_conns_ok by blast
next
  case (listens s es k)
  then show ?case by (auto simp: conns_ok_def listen_def)
next
  case (is_told s es send)
  then show ?case by (auto simp: conns_ok_def broadcast_def intro: order_trans [OF length_filter_le])
next
  case (leaves s es k)
  then show ?case by (auto simp: conns_ok_def forget_conn_def length_remove1)
next
  case (stops_listening s es k)
  then show ?case by (auto simp: conns_ok_def unlisten_def length_remove1)
next
  case (releases s k es)
  then show ?case by (auto simp: conns_ok_def releaseAsk_def marked_def)
next
  case (clears k es s)
  then have "card (marked s - {k}) = card (marked s) - 1" "k \<in> marked s" "0 < card (marked s)"
    by (auto simp: conns_ok_def card_gt_0_iff)
  moreover have "int (length (remove1 k es)) = int (length es) - 1"
    using clears(1) by (induction es) auto
  ultimately show ?case using clears
    by (auto simp: conns_ok_def dest: notin_set_remove1)
next
  case (is_another k s es pid)
  then have "marked (s\<lparr>cs_info := (cs_info s)(k := \<lparr>sk_pid = pid, sk_asking = False, sk_asked = 0\<rparr>)\<rparr>) = marked s"
    by (auto simp: marked_def)
  then show ?case using is_another by (simp add: conns_ok_def)
qed (simp add: conns_ok_def)

lemma reached_conns_ok: "conn_reached x \<Longrightarrow> conns_ok x"
proof (induction rule: conn_reached.induct)
  case at_start
  show ?case by (simp add: conns_ok_def no_connections_def marked_def)
next
  case (by_step x y)
  then show ?case using step_conns_ok by blast
qed

text \<open>C21: 
  The daemon never holds more than two hundred and fifty-six connections, and a process with few
  pays for none with many. Whatever came before, an arriving connection is let in; below the
  bound nothing makes room for it, and at the bound exactly one does: not a listener and not one that is
  being answered, and of the others none is of a process that holds more, nor, of a process that
  holds as many, was any quiet for longer. It is never the arriving one, as long as fewer than
  two hundred and thirty-six answers are just ending.
\<close>

theorem the_loudest_makes_room:
  assumes "conn_reached (s, es)" and "k \<notin> set (cs_conns s)" and "length es < 236" and "admit now k s = (r, s')"
  shows "distinct (cs_conns s') \<and> length (cs_conns s') \<le> ConnectionsMax \<and> k \<in> set (cs_conns s')
    \<and> (length (cs_conns s) < ConnectionsMax \<longrightarrow> r = None \<and> set (cs_conns s') = insert k (set (cs_conns s)))
    \<and> (length (cs_conns s) = ConnectionsMax \<longrightarrow> (\<exists>c. r = Some (c, share (joined now k s) c)
         \<and> set (cs_conns s') = insert k (set (cs_conns s)) - {c}
         \<and> c \<in> set (cs_conns s) \<and> \<not> spared k s c
         \<and> (\<forall>d \<in> set (cs_conns s). \<not> spared k s d \<longrightarrow> \<not> before (joined now k s) d c)))"
proof -
  have ok: "conns_ok (s, es)" using reached_conns_ok [OF assms(1)] .
  then have ok': "conns_ok (s', es)" using admit_conns_ok [of s es now k] assms(4) by simp
  have ins: "List.insert k (cs_conns s) = k # cs_conns s" using assms(2) by simp
  show ?thesis
  proof (cases "length (cs_conns s) < ConnectionsMax")
    case True
    then have "r = None \<and> s' = joined now k s" using admit_cases [OF assms(4)] ins by auto
    then show ?thesis using ok' True by (auto simp: conns_ok_def joined_def)
  next
    case False
    then have full: "length (cs_conns s) = ConnectionsMax" using ok by (simp add: conns_ok_def)
    have "\<not> set (cs_conns s) \<subseteq> set (cs_subs s) \<union> marked s"
    proof
      assume sub: "set (cs_conns s) \<subseteq> set (cs_subs s) \<union> marked s"
      have "card (set (cs_conns s)) \<le> card (set (cs_subs s) \<union> marked s)"
        using sub ok by (intro card_mono) (auto simp: conns_ok_def)
      also have "\<dots> \<le> card (set (cs_subs s)) + card (marked s)" by (rule card_Un_le)
      finally show False using full ok assms(3) distinct_card [of "cs_conns s"] distinct_card [of "cs_subs s"]
        by (auto simp: conns_ok_def ConnectionsMax_def listenersMax_def asksMax_def)
    qed
    then have some: "(\<forall>d \<in> set (cs_conns s). spared k s d) \<longleftrightarrow> False" using assms(2) by (auto simp: spared_def marked_def)
    then obtain c where c: "r = Some (c, share (joined now k s) c)" "cs_conns s' = remove1 c (k # cs_conns s)"
      "c \<in> set (cs_conns s)" "\<not> spared k s c" "\<forall>d \<in> set (cs_conns s). \<not> spared k s d \<longrightarrow> \<not> before (joined now k s) d c"
      using admit_cases [OF assms(4)] full unfolding ins some by auto
    then have "set (cs_conns s') = insert k (set (cs_conns s)) - {c}" "k \<noteq> c"
      using ok assms(2) by (auto simp: conns_ok_def set_remove1_eq)
    then show ?thesis using c ok' full by (auto simp: conns_ok_def)
  qed
qed

text \<open>Two hundred and fifty-six arrivals fill it.\<close>

definition arrivals :: "nat \<Rightarrow> connections" where
  "arrivals n = fold (\<lambda>k s. snd (admit (int k) k s)) [0..<n] no_connections"

lemma arrivals_fill:
  "n \<le> ConnectionsMax \<Longrightarrow> conn_reached (arrivals n, []) \<and> set (cs_conns (arrivals n)) = {..<n} \<and> length (cs_conns (arrivals n)) = n
    \<and> marked (arrivals n) = {}"
proof (induction n)
  case 0
  show ?case by (auto simp: arrivals_def no_connections_def marked_def intro: conn_reached.at_start [unfolded no_connections_def])
next
  case (Suc n)
  let ?s = "arrivals n"
  have IH: "conn_reached (?s, [])" "set (cs_conns ?s) = {..<n}" "length (cs_conns ?s) = n" "marked ?s = {}"
    using Suc by auto
  then have new: "n \<notin> set (cs_conns ?s)" "\<not> sk_asking (cs_info ?s n)" by (auto simp: marked_def)
  have next_one: "arrivals (Suc n) = snd (admit (int n) n ?s)" by (simp add: arrivals_def)
  then have "arrivals (Suc n) = joined (int n) n ?s"
    using admit_cases [OF surjective_pairing [of "admit (int n) n ?s"]] new Suc(2) IH(3) by auto
  moreover have "conn_reached (arrivals (Suc n), [])"
    unfolding next_one using conn_reached.by_step [OF IH(1) conn_step.arrives [OF new]] .
  ultimately show ?case using IH new by (auto simp: joined_def)
qed

lemma the_loudest_makes_room_witness:
  "\<exists>c < 256. fst (admit 256 256 (arrivals 256)) = Some (c, share (joined 256 256 (arrivals 256)) c)
    \<and> set (cs_conns (snd (admit 256 256 (arrivals 256)))) = {..256} - {c}"
proof -
  have "conn_reached (arrivals 256, [])" and set: "set (cs_conns (arrivals 256)) = {..<256}"
    and full: "length (cs_conns (arrivals 256)) = ConnectionsMax"
    using arrivals_fill [of 256] by (auto simp: ConnectionsMax_def)
  then obtain c where "fst (admit 256 256 (arrivals 256)) = Some (c, share (joined 256 256 (arrivals 256)) c)" "c < 256"
    "set (cs_conns (snd (admit 256 256 (arrivals 256)))) = insert 256 {..<256} - {c}"
    using the_loudest_makes_room [OF _ _ _ surjective_pairing [of "admit 256 256 (arrivals 256)"], of "[]"] by auto
  moreover have "insert 256 {..<256} = {..256 :: nat}" by auto
  ultimately show ?thesis by auto
qed

end
