(* ===== verification/Apps.thy ===== *)
theory Apps
  imports Prelude
begin

text \<open>
  The names a machine gives its programs (\<open>internal/apps/apps.go\<close>) and the small files of settings
  beside them (\<open>readConfig\<close> of \<open>internal/zded/config.go\<close>). What a file is read as (\<open>Plainfile\<close>) and
  what its JSON decodes to are given.
\<close>

type_synonym apps = "(string \<times> string list) list"

datatype file_answer = Missing | Unreadable string | Contents string

text \<open>\<open>Load\<close>: a missing file is a machine where nothing is configured.\<close>

definition Load_apps :: "(string \<Rightarrow> string + apps) \<Rightarrow> file_answer \<Rightarrow> string + apps" where
  "Load_apps parse f =
     (case f of Missing \<Rightarrow> Inr [] | Unreadable e \<Rightarrow> Inl e
      | Contents data \<Rightarrow> (case parse data of Inl e \<Rightarrow> Inl e | Inr a \<Rightarrow> Inr a))"

definition Names_of :: "apps \<Rightarrow> string list" where
  "Names_of a = sort_strings (filter (\<lambda>n. aget [] a n \<noteq> []) (remdups (map fst a)))"

datatype argv_error = Nothing_configured | No_app string "string list"

definition Argv :: "apps \<Rightarrow> string \<Rightarrow> argv_error + string list" where
  "Argv a name =
     (if aget [] a name \<noteq> [] then Inr (aget [] a name)
      else if Names_of a = [] then Inl Nothing_configured
      else Inl (No_app name (Names_of a)))"

text \<open>\<open>readConfig\<close> leaves what it fills as it was when there is no file.\<close>

definition readConfig :: "(string \<Rightarrow> string + 'a) \<Rightarrow> 'a \<Rightarrow> file_answer \<Rightarrow> string + 'a" where
  "readConfig parse zero f =
     (case f of Missing \<Rightarrow> Inr zero | Unreadable e \<Rightarrow> Inl e
      | Contents data \<Rightarrow> (case parse data of Inl e \<Rightarrow> Inl e | Inr v \<Rightarrow> Inr v))"

text \<open>A name is configured exactly if there is something to run for it.\<close>

lemma Argv_configured: "(\<exists>argv. Argv a name = Inr argv) \<longleftrightarrow> name \<in> set (Names_of a)"
proof -
  have "aget [] a name \<noteq> [] \<Longrightarrow> name \<in> fst ` set a"
    by (auto simp: aget_def image_iff split: option.splits dest: map_of_SomeD) (metis fst_conv map_of_SomeD)
  then show ?thesis by (auto simp: Argv_def Names_of_def sort_strings_facts)
qed

end
