(* ===== verification/Doctor.thy ===== *)
theory Doctor
  imports Attn_Text Go_Text Apps Manifest
begin

text \<open>
  The report on a session that is unwell (\<open>internal/doctor/doctor.go\<close>): what a reading means, and how a
  row is printed. A session is a record of readings, and the judgement a function of it. An \<open>error\<close> is its
  text.
\<close>

section \<open>Readings\<close>

record daemon_status =
  dt_Version :: string
  dt_Compositor :: string
  dt_Shell :: bool
  dt_Notifications :: bool
  dt_Zinc :: bool
  dt_BadManifests :: "string list"
  dt_Skipped :: int

record login_unit =
  un_Name :: string
  un_State :: string
  un_Err :: "string option"
  un_Optional :: bool

datatype podman_error = Not_installed | Podman_failed string

record podman_state =
  pd_Rootless :: bool
  pd_Err :: "podman_error option"

datatype PAMState = PAMUnknown | PAMPresent | PAMAbsent

record locker_state =
  lk_Configured :: bool
  lk_Argv0 :: string
  lk_BinErr :: "string option"
  lk_Service :: string
  lk_PAM :: PAMState
  lk_Err :: "string option"

record desk_app =
  da_Desk :: string
  da_App :: string
  da_Err :: string
  da_Private :: bool

record desks_state =
  dk_Dir :: string
  dk_Err :: "string option"
  dk_Resolver :: string
  dk_Configured :: bool
  dk_Unrunnable :: "desk_app list"
  dk_Hidden :: nat
  dk_Private :: nat

record can_do =
  cn_What :: string
  cn_Answer :: string
  cn_Err :: "string option"

record hold =
  hd_Who :: string
  hd_Why :: string

record logind_state =
  lg_Err :: "string option"
  lg_Absent :: bool
  lg_Session :: string
  lg_SessionErr :: "string option"
  lg_Can :: "can_do list"
  lg_Holds :: "hold list"
  lg_Named :: bool
  lg_HoldsErr :: "string option"

record session =
  ss_Socket :: string
  ss_Status :: "daemon_status option"
  ss_DialErr :: "string option"
  ss_Notify :: string
  ss_NotifyErr :: "string option"
  ss_Units :: "login_unit list"
  ss_Podman :: podman_state
  ss_Lock :: locker_state
  ss_Desks :: desks_state
  ss_Power :: logind_state
  ss_BadHidden :: nat

definition BusName :: string where "BusName = ''org.freedesktop.Notifications''"
definition byZcr :: string where "byZcr = ''zcr''"
definition byApps :: string where "byApps = ''zde.apps''"
definition logindName :: string where "logindName = ''org.freedesktop.login1''"
definition pamDir :: string where "pamDir = ''/etc/pam.d''"
definition ServicePath :: "locker_state \<Rightarrow> string" where "ServicePath l = Join [pamDir, lk_Service l]"

section \<open>A row\<close>

datatype level = OK | Warn | Fail

fun level_text :: "level \<Rightarrow> string" where
  "level_text OK = ''ok''"
| "level_text Warn = ''warn''"
| "level_text Fail = ''fail''"

record check_row =
  ck_Level :: level
  ck_Name :: string
  ck_Detail :: string

abbreviation row :: "level \<Rightarrow> string \<Rightarrow> string \<Rightarrow> check_row" where
  "row l n d \<equiv> \<lparr>ck_Level = l, ck_Name = n, ck_Detail = d\<rparr>"

definition levelAt :: nat where "levelAt = 5"
definition nameAt :: nat where "nameAt = 13"
definition detailAt :: nat where "detailAt = levelAt + 1 + nameAt + 1"
definition detailMax :: nat where "detailMax = 2000"

text \<open>\<open>%-*s\<close>, and \<open>strings.Repeat\<close> of a space.\<close>

definition spaces :: "nat \<Rightarrow> string" where "spaces n = replicate n CHR '' ''"
definition padded :: "nat \<Rightarrow> string \<Rightarrow> string" where "padded n s = s @ spaces (n - length (runes_of s))"

definition shortened :: "string \<Rightarrow> nat \<Rightarrow> string" where
  "shortened s mx =
     (let r = runes_of s
      in if length r \<le> mx then s
         else string_of_runes (take mx r) @ '' ... ('' @ itoa (length r - mx) @ '' more characters)'')"

text \<open>\<open>strings.ReplaceAll\<close> of a newline.\<close>

definition feed :: char where "feed = char_of (10 :: nat)"

fun indented :: "string \<Rightarrow> string \<Rightarrow> string" where
  "indented ind [] = []"
| "indented ind (c # cs) = (if c = feed then feed # ind @ indented ind cs else c # indented ind cs)"

definition detail_of :: "unicode \<Rightarrow> check_row \<Rightarrow> string" where
  "detail_of u c =
     (let d = TrimSpace (Text u (ck_Detail c))
      in if d = [] then Quote u (ck_Detail c) else d)"

definition check_String :: "unicode \<Rightarrow> check_row \<Rightarrow> string" where
  "check_String u c =
     padded levelAt (level_text (ck_Level c)) @ '' '' @ padded nameAt (ck_Name c) @ '' ''
       @ indented (spaces detailAt) (shortened (detail_of u c) detailMax)"

definition Failed_checks :: "check_row list \<Rightarrow> nat" where
  "Failed_checks r = length (filter (\<lambda>c. ck_Level c = Fail) r)"

definition report_String :: "unicode \<Rightarrow> check_row list \<Rightarrow> string" where
  "report_String u r = concat (map (\<lambda>c. check_String u c @ [feed]) r)"

section \<open>What a reading means\<close>

definition noDaemon :: string where "noDaemon = ''not known: zded is not answering''"

definition daemon_check :: "session \<Rightarrow> check_row" where
  "daemon_check s =
     (case ss_DialErr s of
        Some e \<Rightarrow> row Fail ''zded'' e
      | None \<Rightarrow> (case ss_Status s of
            None \<Rightarrow> row Fail ''zded'' ''no answer, and no reason given''
          | Some st \<Rightarrow> row OK ''zded'' (dt_Version st @ '', socket at '' @ ss_Socket s)))"

definition compositor_check :: "session \<Rightarrow> check_row" where
  "compositor_check s =
     (case ss_Status s of
        None \<Rightarrow> row Warn ''compositor'' noDaemon
      | Some st \<Rightarrow> if dt_Compositor st = ''connected'' then row OK ''compositor'' ''connected''
                   else row Fail ''compositor'' (dt_Compositor st))"

definition shell_check :: "session \<Rightarrow> check_row" where
  "shell_check s =
     (case ss_Status s of
        None \<Rightarrow> row Warn ''shell'' noDaemon
      | Some st \<Rightarrow> if dt_Shell st then row OK ''shell'' ''listening''
                   else row Warn ''shell'' ''not listening: Mod+Tab prints a list instead of a picker'')"

definition notify_check :: "session \<Rightarrow> check_row" where
  "notify_check s =
     (if (\<exists>st. ss_Status s = Some st \<and> dt_Notifications st) then row OK ''notify'' (BusName @ '' is zded's'')
      else
        let l = (if ss_Status s = None then Warn else Fail)
        in case ss_NotifyErr s of
             Some e \<Rightarrow> row l ''notify'' (''could not ask who owns '' @ BusName @ '': '' @ e)
           | None \<Rightarrow>
               if ss_Notify s = [] then row l ''notify'' (''nothing owns '' @ BusName @ '', so notifications go nowhere'')
               else row l ''notify'' (BusName @ '' is owned by '' @ ss_Notify s))"

definition layer2_check :: "session \<Rightarrow> check_row" where
  "layer2_check s =
     (case ss_Status s of
        None \<Rightarrow> row Warn ''zinc'' noDaemon
      | Some st \<Rightarrow> if dt_Zinc st then row OK ''zinc'' ''zcr is on the session's PATH''
                   else row Warn ''zinc'' ''no zcr on the session's PATH: layer 2 is not here, so apps run on the host'')"

definition podman_check :: "session \<Rightarrow> check_row" where
  "podman_check s =
     (case pd_Err (ss_Podman s) of
        Some Not_installed \<Rightarrow> row Warn ''podman'' ''not installed, so layer 2 has nothing to run an app in''
      | Some (Podman_failed e) \<Rightarrow> row Warn ''podman'' e
      | None \<Rightarrow> if \<not> pd_Rootless (ss_Podman s)
                then row Warn ''podman'' ''answering as root rather than rootless: an app would run with this machine's root''
                else row OK ''podman'' ''rootless'')"

definition unit_check :: "login_unit \<Rightarrow> check_row" where
  "unit_check n =
     (case un_Err n of
        Some e \<Rightarrow> row Warn ''unit'' (un_Name n @ '': '' @ e)
      | None \<Rightarrow>
          if un_State n = ''active'' then row OK ''unit'' (un_Name n @ '' active'')
          else if un_Optional n \<and> un_State n = ''inactive''
          then row OK ''unit'' (un_Name n @ '' inactive: it is installed only where zde.debug is on, ''
             @ ''and systemd says the same word for a unit that is not there as for one that has not run'')
          else row Warn ''unit'' (un_Name n @ '' '' @ un_State n))"

definition unit_checks :: "session \<Rightarrow> check_row list" where
  "unit_checks s = map unit_check (ss_Units s)"

definition manifest_checks :: "session \<Rightarrow> check_row list" where
  "manifest_checks s =
     (case ss_Status s of
        None \<Rightarrow> [row Warn ''manifests'' noDaemon]
      | Some st \<Rightarrow>
          (let out = map (row Fail ''manifests'') (dt_BadManifests st)
                 @ (if 0 < ss_BadHidden s
                    then [row Fail ''manifests'' (itoa (ss_BadHidden s)
                       @ '' manifest(s) zded read did not parse, so that many desks are not declared. They are not named here,''
                       @ '' because a manifest is named by its path and a path is a desk name. `zde doctor` in a terminal names them'')]
                    else [])
           in if out = [] then [row OK ''manifests'' ''every manifest zded has read parsed''] else out))"

section \<open>The apps of the desks\<close>

definition resolver :: "desks_state \<Rightarrow> string" where
  "resolver d = (if dk_Resolver d = byZcr then byZcr else byApps)"

definition askedOf :: "desks_state \<Rightarrow> string" where
  "askedOf d =
     (if resolver d = byZcr then '' - asked of '' @ byZcr
      else '' - asked of '' @ byApps @ '', since no '' @ byZcr @ '' is on PATH'')"

definition hiddenApps :: "desks_state \<Rightarrow> check_row" where
  "hiddenApps d = row Warn ''desk apps'' (itoa (dk_Hidden d)
     @ '' app(s) on desks that declare private could not be started, and neither those desks nor those apps''
     @ '' are named here. `zde doctor` in a terminal names them'' @ askedOf d)"

definition wanted :: "desk_app list \<Rightarrow> string list" where
  "wanted apps = sort_strings (remdups (map da_App apps))"

text \<open>\<open>strings.Join(names, ", ")\<close>\<close>

fun comma_joined :: "string list \<Rightarrow> string" where
  "comma_joined [] = []"
| "comma_joined [x] = x"
| "comma_joined (x # y # zs) = x @ '', '' @ comma_joined (y # zs)"

definition deskApps_checks :: "session \<Rightarrow> check_row list" where
  "deskApps_checks s =
     (let d = ss_Desks s
      in case dk_Err d of
           Some e \<Rightarrow> [row Warn ''desk apps'' (''not known: '' @ e @ askedOf d)]
         | None \<Rightarrow>
             if dk_Unrunnable d = [] \<and> dk_Hidden d = 0
             then [row OK ''desk apps'' (''no desk in '' @ dk_Dir d @ '' names an app this machine cannot start'' @ askedOf d)]
             else if dk_Unrunnable d = [] then [hiddenApps d]
             else if resolver d = byApps \<and> \<not> dk_Configured d
             then row Warn ''desk apps'' (da_Err (hd (dk_Unrunnable d)) @ '', and the desks name ''
                    @ comma_joined (wanted (dk_Unrunnable d)) @ askedOf d)
                  # (if 0 < dk_Hidden d then [hiddenApps d] else [])
             else map (\<lambda>a. row Warn ''desk apps'' (da_Desk a @ '' names '' @ da_App a @ '': '' @ da_Err a @ askedOf d)) (dk_Unrunnable d)
                  @ (if 0 < dk_Hidden d then [hiddenApps d] else []))"

section \<open>Power, and who keeps the session awake\<close>

definition can_checks :: "unicode \<Rightarrow> can_do \<Rightarrow> check_row list" where
  "can_checks u c =
     (case cn_Err c of
        Some e \<Rightarrow> [row Warn ''logind'' (''could not ask logind whether this session may '' @ cn_What c @ '': '' @ e)]
      | None \<Rightarrow>
          if cn_Answer c = ''yes'' then []
          else if cn_Answer c = ''challenge''
          then [row Warn ''logind'' (cn_What c @ '' would be refused: polkit answers '' @ Quote u (cn_Answer c)
              @ '', and this session has no authentication agent to answer it with - security.polkit.extraConfig is where a rule goes'')]
          else if cn_Answer c = ''na''
          then [row Warn ''logind'' (cn_What c @ '' is not available on this machine: logind answers '' @ Quote u (cn_Answer c))]
          else [row Warn ''logind'' (cn_What c @ '' would be refused: logind answers '' @ Quote u (cn_Answer c))])"

definition session_checks :: "logind_state \<Rightarrow> check_row list" where
  "session_checks l =
     (case lg_SessionErr l of
        Some e \<Rightarrow> [row Warn ''logind'' (''could not ask which session this is, so a log out has nothing to end: '' @ e)]
      | None \<Rightarrow>
          if lg_Session l = []
          then [row Warn ''logind'' (''logind names no session for this user, so a log out would refuse ''
              @ ''rather than end somebody else's - loginctl session-status says what it can see'')]
          else [])"

definition logind_checks :: "unicode \<Rightarrow> session \<Rightarrow> check_row list" where
  "logind_checks u s =
     (let l = ss_Power s
      in if lg_Absent l
         then [row Warn ''logind'' (''nothing owns '' @ logindName
            @ '', so nothing can log out, suspend, reboot or power off this machine: a power menu, where there is one, could only lock'')]
         else case lg_Err l of
           Some e \<Rightarrow> [row Warn ''logind'' (''not known: '' @ e
             @ '' - so whether this session may log out, suspend, reboot or power off was never asked, and `loginctl show-session` puts the same question by hand'')]
         | None \<Rightarrow>
             (let out = concat (map (can_checks u) (lg_Can l)) @ session_checks l
              in if out = []
                 then [row OK ''logind'' (''session '' @ lg_Session l @ '' is what a log out would end, and suspend, ''
                   @ ''reboot and power off are this session's to use - what a power menu asks for, on a build that has one'')]
                 else out))"

definition unseen :: string where
  "unseen = ''a Wayland app holding zwp_idle_inhibit_manager_v1 never reaches logind and is invisible to ''
     @ ''every interface zde has: niri hands that global to sandboxed clients unfiltered, honours it while the ''
     @ ''surface is merely visible rather than focused, and exposes no way to read it back (docs/roadmap.md, the ''
     @ ''idle inhibitor; docs/verify.md, section 11)''"

definition holdsShown :: nat where "holdsShown = 6"

definition holder_line :: "unicode \<Rightarrow> hold \<Rightarrow> string" where
  "holder_line u h =
     ''something is holding this session awake, and it ''
     @ (let who = Line u (hd_Who h) in if who \<noteq> [] then ''calls itself '' @ Quote u who else ''gave no name'')
     @ (let why = Line u (hd_Why h) in if why \<noteq> [] then '' and gives '' @ Quote u why @ '' as its reason'' else '' and gave no reason'')"

definition idle_checks :: "unicode \<Rightarrow> session \<Rightarrow> check_row list" where
  "idle_checks u s =
     (let l = ss_Power s
      in if lg_Absent l
         then [row Warn ''idle'' (''nothing owns '' @ logindName
            @ '', so whether something is holding this session awake was never asked - and '' @ unseen)]
         else if lg_Err l \<noteq> None
         then [row Warn ''idle'' (''not known: logind could not be asked, so whether something is ''
            @ ''holding this session awake is unanswered - and '' @ unseen)]
         else case lg_HoldsErr l of
           Some e \<Rightarrow> [row Warn ''idle'' (''logind would not list its inhibitors: '' @ e
             @ '' - so this is unanswered, and `systemd-inhibit --list` puts the same question by hand'')]
         | None \<Rightarrow>
             if lg_Holds l = [] then [row OK ''idle'' (''logind has nothing holding this session awake - though '' @ unseen)]
             else
               (if \<not> lg_Named l
                then [row Warn ''idle'' (itoa (length (lg_Holds l))
                   @ '' thing(s) logind names are holding this session awake, and nothing here says which: ''
                   @ ''an inhibitor's name is the command line of whatever took it and its reason is that ''
                   @ ''program's own prose, so neither is written into a file meant to leave this machine - ''
                   @ ''`systemd-inhibit --list`, or `zde doctor` on the machine itself, is where the names ''
                   @ ''are. Nothing that acts on this session going idle will fire until they let go'')]
                else map (\<lambda>h. row Warn ''idle'' (holder_line u h
                       @ '' - so nothing that acts on this session going idle will fire until it lets go'')) (take holdsShown (lg_Holds l))
                   @ (if holdsShown < length (lg_Holds l)
                      then [row Warn ''idle'' (''and '' @ itoa (length (lg_Holds l) - holdsShown)
                        @ '' more holders logind named, not printed: a table this long is one ''
                        @ ''somebody filled, and `systemd-inhibit --list` is where the whole of it is'')]
                      else []))
               @ [row Warn ''idle'' (''and there may be more than logind can see: '' @ unseen)])"

section \<open>The lock and the journal\<close>

definition locker_check :: "session \<Rightarrow> check_row" where
  "locker_check s =
     (let l = ss_Lock s
      in case lk_Err l of
           Some e \<Rightarrow> row Fail ''locker'' (''the apps file could not be read, so nothing resolves: '' @ e)
         | None \<Rightarrow>
             if \<not> lk_Configured l then row Warn ''locker'' ''nothing is configured to lock the screen, so Mod+Ctrl+semicolon does nothing''
             else if lk_BinErr l \<noteq> None then row Fail ''locker'' (lk_Argv0 l @ '' is configured to lock the screen and is not there'')
             else if lk_PAM l = PAMAbsent then row Fail ''locker'' (lk_Argv0 l @ '' has no '' @ ServicePath l
               @ '': it would take the screen and refuse every password'')
             else if lk_PAM l = PAMUnknown then row Warn ''locker'' (lk_Service l @ '' is configured, and this machine has no '' @ pamDir
               @ '' to say whether it could authenticate'')
             else row OK ''locker'' (lk_Service l @ '', authenticating through '' @ ServicePath l))"

definition journal_check :: "session \<Rightarrow> check_row" where
  "journal_check s =
     (case ss_Status s of
        None \<Rightarrow> row Warn ''journal'' noDaemon
      | Some st \<Rightarrow> if 0 < dt_Skipped st then row Warn ''journal'' (itoa (nat (dt_Skipped st)) @ '' entries could not be read'')
                   else row OK ''journal'' ''every entry read'')"

definition Judge :: "unicode \<Rightarrow> session \<Rightarrow> check_row list" where
  "Judge u s =
     [daemon_check s, compositor_check s, shell_check s, notify_check s, layer2_check s, podman_check s]
     @ unit_checks s @ manifest_checks s @ deskApps_checks s @ [locker_check s] @ logind_checks u s @ idle_checks u s
     @ [journal_check s]"

section \<open>Lines\<close>

lemma split_on_indented:
  "feed \<notin> set ind \<Longrightarrow> split_on feed (indented ind t) = (case split_on feed t of [] \<Rightarrow> [] | l # ls \<Rightarrow> l # map (\<lambda>l. ind @ l) ls)"
proof (induction t)
  case (Cons c t)
  obtain l ls where s: "split_on feed t = l # ls" by (meson split_on_nonempty list.exhaust)
  have "split_on feed (ind @ t') = (ind @ hd (split_on feed t')) # tl (split_on feed t')" for t'
    using Cons.prems by (induction ind) (auto split: list.split)
  then show ?case using Cons s by (auto split: list.split)
qed simp

lemma split_on_prefixed:
  "feed \<notin> set p \<Longrightarrow> split_on feed (p @ t) = (p @ hd (split_on feed t)) # tl (split_on feed t)"
  by (induction p) (auto split: list.split)

lemma split_on_all: "split_on c (concat (map (\<lambda>x. f x @ [c]) xs)) = concat (map (\<lambda>x. split_on c (f x)) xs) @ [[]]"
  by (induction xs) (simp_all add: split_on_append)

definition columns :: "check_row \<Rightarrow> string" where
  "columns c = padded levelAt (level_text (ck_Level c)) @ '' '' @ padded nameAt (ck_Name c) @ '' ''"

definition first_line :: "unicode \<Rightarrow> check_row \<Rightarrow> string" where
  "first_line u c = columns c @ hd (split_on feed (shortened (detail_of u c) detailMax))"

lemma feed_char: "feed = CHR 0x0A"
  by code_simp

lemma columns_start: "columns c \<noteq> [] \<and> hd (columns c) \<noteq> CHR '' '' \<and> (prefix ''fail'' (columns c @ t) \<longleftrightarrow> ck_Level c = Fail)"
  by (cases "ck_Level c") (auto simp: columns_def padded_def)

lemma columns_one_line: "feed \<notin> set (ck_Name c) \<Longrightarrow> feed \<notin> set (columns c)"
  by (cases "ck_Level c") (auto simp: columns_def padded_def spaces_def feed_char)

lemma check_lines:
  assumes "feed \<notin> set (ck_Name c)"
  shows "\<exists>rest. split_on feed (check_String u c) = first_line u c # rest \<and> list_all (\<lambda>l. hd l = CHR '' '') rest"
proof -
  have sp: "feed \<notin> set (spaces detailAt)" by (simp add: spaces_def feed_char)
  obtain l ls where s: "split_on feed (shortened (detail_of u c) detailMax) = l # ls" by (meson split_on_nonempty list.exhaust)
  have "check_String u c = columns c @ indented (spaces detailAt) (shortened (detail_of u c) detailMax)"
    by (simp add: check_String_def columns_def)
  then have "split_on feed (check_String u c) = first_line u c # map (\<lambda>l. spaces detailAt @ l) ls"
    using split_on_prefixed [OF columns_one_line [OF assms]] split_on_indented [OF sp] s by (simp add: first_line_def)
  moreover have "hd (spaces detailAt @ l) = CHR '' ''" for l
    by (simp add: spaces_def detailAt_def levelAt_def nameAt_def)
  ultimately show ?thesis by (simp add: list_all_iff)
qed

text \<open>The names alone, without the texts beside them.\<close>

lemma plain_names:
  "ck_Name (daemon_check s) = ''zded''" "ck_Name (compositor_check s) = ''compositor''" "ck_Name (shell_check s) = ''shell''"
  "ck_Name (layer2_check s) = ''zinc''" "ck_Name (podman_check s) = ''podman''" "ck_Name (journal_check s) = ''journal''"
  "ck_Name (unit_check n) = ''unit''" "ck_Name (hiddenApps d) = ''desk apps''"
  by (simp_all add: daemon_check_def compositor_check_def shell_check_def layer2_check_def podman_check_def
      unit_check_def journal_check_def hiddenApps_def split: option.split podman_error.split)

lemma notify_name: "ck_Name (notify_check s) = ''notify''"
  by (simp add: notify_check_def Let_def split: option.split)

lemma locker_name: "ck_Name (locker_check s) = ''locker''"
  by (simp add: locker_check_def Let_def split: option.split)

lemma names_manifests: "list_all (\<lambda>c. ck_Name c = ''manifests'') (manifest_checks s)"
  by (simp add: manifest_checks_def Let_def list_all_iff split: option.split)

lemma names_deskApps: "list_all (\<lambda>c. ck_Name c = ''desk apps'') (deskApps_checks s)"
  by (simp add: deskApps_checks_def hiddenApps_def Let_def list_all_iff split: option.split)

lemma names_can: "list_all (\<lambda>c. ck_Name c = ''logind'') (can_checks u c)"
  by (simp add: can_checks_def split: option.split)

lemma names_session: "list_all (\<lambda>c. ck_Name c = ''logind'') (session_checks l)"
  by (simp add: session_checks_def split: option.split)

lemma names_logind: "list_all (\<lambda>c. ck_Name c = ''logind'') (logind_checks u s)"
proof -
  have "list_all (\<lambda>c. ck_Name c = ''logind'') (concat (map (can_checks u) cs) @ session_checks l)" for cs l
    using names_can names_session by (induction cs) (simp_all add: list_all_append)
  then show ?thesis
    unfolding logind_checks_def Let_def by (simp split: option.split)
qed

lemma names_idle: "list_all (\<lambda>c. ck_Name c = ''idle'') (idle_checks u s)"
  unfolding idle_checks_def Let_def by (simp add: list_all_iff split: option.split)

lemma one_line_names:
  "feed \<notin> set ''zded''" "feed \<notin> set ''compositor''" "feed \<notin> set ''shell''" "feed \<notin> set ''notify''" "feed \<notin> set ''zinc''"
  "feed \<notin> set ''podman''" "feed \<notin> set ''unit''" "feed \<notin> set ''manifests''" "feed \<notin> set ''desk apps''" "feed \<notin> set ''locker''"
  "feed \<notin> set ''logind''" "feed \<notin> set ''idle''" "feed \<notin> set ''journal''"
  by (simp_all add: feed_char)

lemma named_one_line: "list_all (\<lambda>c. ck_Name c = n) r \<Longrightarrow> feed \<notin> set n \<Longrightarrow> list_all (\<lambda>c. feed \<notin> set (ck_Name c)) r"
  by (simp add: list_all_iff)

lemma judged_names: "list_all (\<lambda>c. feed \<notin> set (ck_Name c)) (Judge u s)"
proof -
  have "list_all (\<lambda>c. ck_Name c = ''unit'') (unit_checks s)"
    by (simp add: unit_checks_def list_all_iff plain_names)
  note groups = this [THEN named_one_line] names_manifests [THEN named_one_line] names_deskApps [THEN named_one_line]
    names_logind [THEN named_one_line] names_idle [THEN named_one_line]
  show ?thesis
    unfolding Judge_def list_all_append list.pred_inject plain_names notify_name locker_name
    by (intro conjI groups one_line_names list.pred_inject(1))
qed

lemma filter_rows:
  "list_all (\<lambda>c. feed \<notin> set (ck_Name c)) r \<Longrightarrow>
    filter (\<lambda>l. l \<noteq> [] \<and> hd l \<noteq> CHR '' '') (concat (map (\<lambda>c. split_on feed (check_String u c)) r)) = map (first_line u) r"
proof (induction r)
  case (Cons c r)
  obtain rest where rest: "split_on feed (check_String u c) = first_line u c # rest" "list_all (\<lambda>l. hd l = CHR '' '') rest"
    using check_lines [of c u] Cons.prems by auto
  moreover have "first_line u c \<noteq> [] \<and> hd (first_line u c) \<noteq> CHR '' ''"
    using columns_start [of c] by (auto simp: first_line_def)
  moreover have "filter (\<lambda>l. l \<noteq> [] \<and> hd l \<noteq> CHR '' '') rest = []" using rest(2) by (auto simp: filter_empty_conv list_all_iff)
  ultimately show ?case using Cons by simp
qed simp

text \<open>C10: 
  No row of the report is forged. Whatever the readings hold, newlines and all, the lines of the printed
  report that begin in column one are the first lines of its checks: one for each, in their order,
  each beginning with the level and the name the judgement gave it; and as many of them begin with
  \<open>fail\<close> as there are failures, of which the exit status is made.
\<close>

theorem no_row_is_forged:
  "filter (\<lambda>l. l \<noteq> [] \<and> hd l \<noteq> CHR '' '') (split_on feed (report_String u (Judge u s))) = map (first_line u) (Judge u s)
    \<and> length (filter (prefix ''fail'') (split_on feed (report_String u (Judge u s)))) = Failed_checks (Judge u s)"
proof -
  let ?ls = "split_on feed (report_String u (Judge u s))" and ?top = "\<lambda>l. l \<noteq> [] \<and> hd l \<noteq> CHR '' ''"
  from filter_rows [OF judged_names, of u] have top: "filter ?top ?ls = map (first_line u) (Judge u s)"
    by (simp add: report_String_def split_on_all)
  have "filter (prefix ''fail'') ?ls = filter (prefix ''fail'') (filter ?top ?ls)"
    unfolding filter_filter by (rule filter_cong [OF refl]) (auto simp: prefix_def)
  then have "length (filter (prefix ''fail'') ?ls) = length (filter (\<lambda>c. prefix ''fail'' (first_line u c)) (Judge u s))"
    using top by (simp add: filter_map comp_def)
  then show ?thesis using top columns_start by (simp add: Failed_checks_def first_line_def)
qed

end
