(* ===== verification/Doctor_Gather.thy ===== *)
theory Doctor_Gather
  imports Doctor
begin

text \<open>
  Gathering the readings (\<open>internal/doctor/gather.go\<close>) for one of two readers, the owner of the machine or
  anyone, and the section of the snapshot that is made of them (\<open>writeDoctor\<close> of \<open>report.go\<close>). What the machine
  answers is a record of facts: the outcome of every probe, the manifests in a map's own order. A command or a
  call answers the same whenever it is asked within one report.
\<close>

section \<open>What the machine answers\<close>

datatype audience = owner | anyone

text \<open>\<open>zcr where\<close>: the app is there, it is refused in so many words, or no answer came.\<close>

datatype where_answer = Has | Refuses string | Silent string

record inhibitor =
  ih_What :: string
  ih_Who :: string
  ih_Why :: string
  ih_Mode :: string

record facts =
  fx_socket :: "string + string"
  fx_status :: "string + daemon_status"
  fx_owner :: "string + string"
  fx_systemctl :: "string \<Rightarrow> string \<times> string option"
  fx_podman :: "string \<times> podman_error option"
  fx_apps_path :: string
  fx_apps :: "string + apps"
  fx_lookpath :: "string \<Rightarrow> string option"
  fx_exists :: "string \<Rightarrow> bool"
  fx_desks_dir :: string
  fx_manifests :: "string + (string \<times> desk_manifest) list"
  fx_where :: "string \<Rightarrow> where_answer"
  fx_bus :: "string option"
  fx_owned :: "string + bool"
  fx_can :: "string \<Rightarrow> string + string"
  fx_user :: "string + string"
  fx_display :: "string \<Rightarrow> string + string"
  fx_inhibitors :: "string + inhibitor list"

section \<open>Units, podman and the lock\<close>

definition loginUnits :: "(string \<times> bool) list" where
  "loginUnits = [(''zded'', False), (''zde-bar'', False), (''zde-report'', True)]"

definition unitState :: "facts \<Rightarrow> string \<Rightarrow> bool \<Rightarrow> login_unit" where
  "unitState f name optional =
     (let (out, err) = fx_systemctl f name; st = TrimSpace out
      in if st \<noteq> [] then \<lparr>un_Name = name, un_State = st, un_Err = None, un_Optional = optional\<rparr>
         else \<lparr>un_Name = name, un_State = [], un_Err = err, un_Optional = optional\<rparr>)"

definition probePodman :: "facts \<Rightarrow> podman_state" where
  "probePodman f =
     (case fx_podman f of
        (_, Some e) \<Rightarrow> \<lparr>pd_Rootless = False, pd_Err = Some e\<rparr>
      | (out, None) \<Rightarrow> \<lparr>pd_Rootless = (TrimSpace out = ''true''), pd_Err = None\<rparr>)"

text \<open>\<open>filepath.Base\<close>\<close>

definition Base :: "string \<Rightarrow> string" where
  "Base p =
     (if p = [] then ''.''
      else let q = rev (dropWhile (\<lambda>c. c = CHR ''/'') (rev p))
           in if q = [] then ''/'' else last (split_on (CHR ''/'') q))"

definition pamState :: "facts \<Rightarrow> string \<Rightarrow> string \<Rightarrow> PAMState" where
  "pamState f dir service =
     (if fx_exists f (Join [dir, service]) then PAMPresent
      else if \<not> fx_exists f dir then PAMUnknown else PAMAbsent)"

definition no_locker :: locker_state where
  "no_locker = \<lparr>lk_Configured = False, lk_Argv0 = [], lk_BinErr = None, lk_Service = [], lk_PAM = PAMUnknown, lk_Err = None\<rparr>"

definition probeLocker :: "facts \<Rightarrow> locker_state" where
  "probeLocker f =
     (case fx_apps f of
        Inl e \<Rightarrow> no_locker\<lparr>lk_Err := Some e\<rparr>
      | Inr all \<Rightarrow> (case Argv all ''lock'' of
          Inl _ \<Rightarrow> no_locker
        | Inr argv \<Rightarrow> \<lparr>lk_Configured = True, lk_Argv0 = hd argv, lk_BinErr = fx_lookpath f (hd argv), lk_Service = Base (hd argv),
            lk_PAM = pamState f pamDir (Base (hd argv)), lk_Err = None\<rparr>))"

section \<open>The desks\<close>

definition argv_text :: "unicode \<Rightarrow> string \<Rightarrow> argv_error \<Rightarrow> string" where
  "argv_text u path e =
     (case e of
        Nothing_configured \<Rightarrow> ''nothing is configured to run: set zde.apps in your '' @ ''home-manager config, which is what writes '' @ path
      | No_app name names \<Rightarrow> ''no app called '' @ Quote u name @ ''; there is ['' @ join_with (CHR '' '') names @ '']'')"

text \<open>Both halves of the answer: \<open>refused\<close>, and \<open>broken\<close>.\<close>

definition resolves :: "unicode \<Rightarrow> facts \<Rightarrow> string \<Rightarrow> apps \<Rightarrow> string \<Rightarrow> audience \<Rightarrow> string option \<times> string option" where
  "resolves u f asked_of all app a =
     (if asked_of \<noteq> byZcr
      then (case Argv all app of Inl e \<Rightarrow> Some (argv_text u (fx_apps_path f) e) | Inr _ \<Rightarrow> None, None)
      else case fx_where f app of
        Has \<Rightarrow> (None, None)
      | Refuses e \<Rightarrow> (Some e, None)
      | Silent e \<Rightarrow>
          (None, Some (if a \<noteq> owner
             then byZcr @ '' is on PATH and stopped answering about one of the apps the desks declare: '' @ e
               @ '' - which app is not named here, and `zde doctor` in a terminal names it''
             else byZcr @ '' is on PATH and could not be asked about '' @ Quote u app @ '': '' @ e @ '' (try `'' @ byZcr @ '' where '' @ app @ ''`)'')))"

type_synonym answered = "(string \<times> string option) list"

text \<open>The loop over the apps of one desk; \<open>Inl\<close> when the resolver stopped answering.\<close>

fun probe_apps :: "(string \<Rightarrow> string option \<times> string option) \<Rightarrow> audience \<Rightarrow> string \<Rightarrow> bool \<Rightarrow> string list \<Rightarrow> string list
    \<Rightarrow> answered \<Rightarrow> desks_state \<Rightarrow> string + answered \<times> desks_state" where
  "probe_apps res a name hid [] seen ans d = Inr (ans, d)"
| "probe_apps res a name hid (app # apps) seen ans d =
     (if app \<in> set seen then probe_apps res a name hid apps seen ans d
      else case (case map_of ans app of Some r \<Rightarrow> (r, None) | None \<Rightarrow> res app) of
        (_, Some broken) \<Rightarrow> Inl broken
      | (None, None) \<Rightarrow> probe_apps res a name hid apps (app # seen) ((app, None) # ans) d
      | (Some e, None) \<Rightarrow>
          probe_apps res a name hid apps (app # seen) ((app, Some e) # ans)
            (if a \<noteq> owner \<and> hid then d\<lparr>dk_Hidden := dk_Hidden d + 1\<rparr>
             else d\<lparr>dk_Unrunnable := dk_Unrunnable d @ [\<lparr>da_Desk = name, da_App = app, da_Err = e, da_Private = hid\<rparr>]\<rparr>))"

fun probe_names :: "(string \<Rightarrow> string option \<times> string option) \<Rightarrow> audience \<Rightarrow> (string \<Rightarrow> desk_manifest) \<Rightarrow> string list
    \<Rightarrow> answered \<Rightarrow> desks_state \<Rightarrow> string + desks_state" where
  "probe_names res a ms [] ans d = Inr d"
| "probe_names res a ms (name # names) ans d =
     (case probe_apps res a name (ds_private (ms name)) (map ap_app (ds_apps (ms name))) [] ans d of
        Inl broken \<Rightarrow> Inl broken
      | Inr (ans, d) \<Rightarrow> probe_names res a ms names ans d)"

definition no_desks :: "string \<Rightarrow> string \<Rightarrow> desks_state" where
  "no_desks dir asks = \<lparr>dk_Dir = dir, dk_Err = None, dk_Resolver = asks, dk_Configured = False, dk_Unrunnable = [],
     dk_Hidden = 0, dk_Private = 0\<rparr>"

definition asked_resolver :: "facts \<Rightarrow> string" where
  "asked_resolver f = (if fx_lookpath f byZcr = None then byZcr else byApps)"

definition asked_apps :: "facts \<Rightarrow> string + apps" where
  "asked_apps f = (if asked_resolver f = byApps then fx_apps f else Inr [])"

definition probeDesks :: "unicode \<Rightarrow> facts \<Rightarrow> audience \<Rightarrow> desks_state" where
  "probeDesks u f a =
     (let asks = asked_resolver f;
          d = no_desks (fx_desks_dir f) asks
      in case asked_apps f of
           Inl e \<Rightarrow> d\<lparr>dk_Err := Some e\<rparr>
         | Inr all \<Rightarrow>
             (let d = d\<lparr>dk_Configured := (asks = byApps \<and> Names_of all \<noteq> [])\<rparr>
              in case fx_manifests f of
                   Inl e \<Rightarrow> d\<lparr>dk_Err := Some e\<rparr>
                 | Inr ms \<Rightarrow>
                     (let d = d\<lparr>dk_Private := length (filter (ds_private \<circ> snd) ms)\<rparr>
                      in case probe_names (\<lambda>app. resolves u f asks all app a) a (\<lambda>n. the (map_of ms n)) (sort_strings (map fst ms)) [] d of
                           Inl broken \<Rightarrow> (no_desks (fx_desks_dir f) asks)\<lparr>dk_Err := Some broken, dk_Private := dk_Private d\<rparr>
                         | Inr d \<Rightarrow> d)))"

section \<open>logind\<close>

definition heldIdle :: "inhibitor list \<Rightarrow> audience \<Rightarrow> hold list" where
  "heldIdle rows a =
     map (\<lambda>r. if a \<noteq> owner then \<lparr>hd_Who = [], hd_Why = []\<rparr> else \<lparr>hd_Who = ih_Who r, hd_Why = ih_Why r\<rparr>)
       (filter (\<lambda>r. ih_Mode r = ''block'' \<and> ''idle'' \<in> set (split_on (CHR '':'') (ih_What r))) rows)"

definition displaySession :: "facts \<Rightarrow> string + string" where
  "displaySession f = (case fx_user f of Inl e \<Rightarrow> Inl e | Inr user \<Rightarrow> fx_display f user)"

definition no_logind :: logind_state where
  "no_logind = \<lparr>lg_Err = None, lg_Absent = False, lg_Session = [], lg_SessionErr = None, lg_Can = [], lg_Holds = [],
     lg_Named = False, lg_HoldsErr = None\<rparr>"

definition can_ask :: "facts \<Rightarrow> string \<times> string \<Rightarrow> can_do" where
  "can_ask f = (\<lambda>(what, method). case fx_can f method of
     Inl e \<Rightarrow> \<lparr>cn_What = what, cn_Answer = [], cn_Err = Some e\<rparr>
   | Inr answer \<Rightarrow> \<lparr>cn_What = what, cn_Answer = answer, cn_Err = None\<rparr>)"

definition probeLogind :: "facts \<Rightarrow> audience \<Rightarrow> logind_state" where
  "probeLogind f a =
     (case fx_bus f of
        Some e \<Rightarrow> no_logind\<lparr>lg_Err := Some e\<rparr>
      | None \<Rightarrow> (case fx_owned f of
          Inl e \<Rightarrow> no_logind\<lparr>lg_Err := Some e\<rparr>
        | Inr owned \<Rightarrow>
            if \<not> owned then no_logind\<lparr>lg_Absent := True\<rparr>
            else no_logind\<lparr>
              lg_Can := map (can_ask f) [(''suspend'', ''CanSuspend''), (''reboot'', ''CanReboot''), (''power off'', ''CanPowerOff'')],
              lg_Session := (case displaySession f of Inl _ \<Rightarrow> [] | Inr i \<Rightarrow> i),
              lg_SessionErr := (case displaySession f of Inl e \<Rightarrow> Some e | Inr _ \<Rightarrow> None),
              lg_Holds := (case fx_inhibitors f of Inl _ \<Rightarrow> [] | Inr rows \<Rightarrow> heldIdle rows a),
              lg_HoldsErr := (case fx_inhibitors f of Inl e \<Rightarrow> Some e | Inr _ \<Rightarrow> None),
              lg_Named := (a = owner)\<rparr>))"

section \<open>All of it\<close>

definition hideManifests :: "audience \<Rightarrow> daemon_status option \<Rightarrow> daemon_status option \<times> nat" where
  "hideManifests a st =
     (case st of
        None \<Rightarrow> (None, 0)
      | Some st \<Rightarrow> if a = owner then (Some st, 0) else (Some (st\<lparr>dt_BadManifests := []\<rparr>), length (dt_BadManifests st)))"

definition gather :: "unicode \<Rightarrow> audience \<Rightarrow> facts \<Rightarrow> session" where
  "gather u a f =
     (let (status, dial) = (case fx_socket f of
            Inl e \<Rightarrow> (None, Some e)
          | Inr _ \<Rightarrow> (case fx_status f of Inl e \<Rightarrow> (None, Some e) | Inr st \<Rightarrow> (Some st, None)));
          (status, hidden) = hideManifests a status;
          asked = (case status of None \<Rightarrow> True | Some st \<Rightarrow> \<not> dt_Notifications st)
      in \<lparr>ss_Socket = (case fx_socket f of Inl _ \<Rightarrow> [] | Inr path \<Rightarrow> path), ss_Status = status, ss_DialErr = dial,
          ss_Notify = (if asked then (case fx_owner f of Inl _ \<Rightarrow> [] | Inr n \<Rightarrow> n) else []),
          ss_NotifyErr = (if asked then (case fx_owner f of Inl e \<Rightarrow> Some e | Inr _ \<Rightarrow> None) else None),
          ss_Units = map (\<lambda>(n, opt). unitState f n opt) loginUnits,
          ss_Podman = probePodman f, ss_Lock = probeLocker f, ss_Desks = probeDesks u f a, ss_Power = probeLogind f a,
          ss_BadHidden = hidden\<rparr>)"

definition secDoctor :: string where "secDoctor = ''[doctor]''"

definition writeDoctor :: "unicode \<Rightarrow> session \<Rightarrow> string" where
  "writeDoctor u s =
     secDoctor @ [feed]
     @ concat (map (\<lambda>c. ''  '' @ indented ''  '' (check_String u c) @ [feed]) (Judge u s))
     @ (if 0 < dk_Private (ss_Desks s)
        then ''  '' @ padded levelAt ''note'' @ '' '' @ padded nameAt ''desk apps'' @ '' '' @ itoa (dk_Private (ss_Desks s))
          @ '' desk(s) declare private, and nothing about them is in this file'' @ [feed]
        else [])"

section \<open>What a report for anyone depends on\<close>

text \<open>The first mention of each app, and what the loops put down when every app has an answer.\<close>

fun first_mentions :: "string list \<Rightarrow> string list \<Rightarrow> string list" where
  "first_mentions seen [] = []"
| "first_mentions seen (x # xs) = (if x \<in> set seen then first_mentions seen xs else x # first_mentions (x # seen) xs)"

definition refused_apps :: "(string \<Rightarrow> string option) \<Rightarrow> desk_manifest \<Rightarrow> string list" where
  "refused_apps r m = filter (\<lambda>x. r x \<noteq> None) (first_mentions [] (map ap_app (ds_apps m)))"

definition kept_answers :: "(string \<Rightarrow> string option) \<Rightarrow> answered \<Rightarrow> bool" where
  "kept_answers r ans = list_all (\<lambda>(x, y). y = r x) ans"

definition refused_row :: "(string \<Rightarrow> string option) \<Rightarrow> string \<Rightarrow> string \<Rightarrow> desk_app" where
  "refused_row r name x = \<lparr>da_Desk = name, da_App = x, da_Err = the (r x), da_Private = False\<rparr>"

definition put_down :: "(string \<Rightarrow> string option) \<Rightarrow> string \<Rightarrow> bool \<Rightarrow> string list \<Rightarrow> desks_state \<Rightarrow> desks_state" where
  "put_down r name hid xs d =
     (if hid then d\<lparr>dk_Hidden := dk_Hidden d + length xs\<rparr>
      else d\<lparr>dk_Unrunnable := dk_Unrunnable d @ map (refused_row r name) xs\<rparr>)"

lemma first_mentions_subset: "set (first_mentions seen xs) \<subseteq> set xs"
  by (induction seen xs rule: first_mentions.induct) auto

lemma kept_answers_lookup: "kept_answers r ans \<Longrightarrow> map_of ans x = Some y \<Longrightarrow> y = r x"
  by (auto simp: kept_answers_def list_all_iff dest: map_of_SomeD)

lemma probe_apps_answered:
  assumes "kept_answers r ans" "list_all (\<lambda>x. res x = (r x, None)) xs"
  shows "\<exists>ans'. kept_answers r ans'
    \<and> probe_apps res anyone name hid xs seen ans d = Inr (ans', put_down r name hid (filter (\<lambda>x. r x \<noteq> None) (first_mentions seen xs)) d)"
  using assms
proof (induction xs arbitrary: seen ans d)
  case (Cons x xs)
  show ?case
  proof (cases "x \<in> set seen")
    case True
    then show ?thesis using Cons by simp
  next
    case new: False
    have answer: "(case map_of ans x of Some y \<Rightarrow> (y, None) | None \<Rightarrow> res x) = (r x, None)"
      using Cons.prems by (auto split: option.split dest: kept_answers_lookup)
    have kept: "kept_answers r ((x, r x) # ans)" using Cons.prems(1) by (simp add: kept_answers_def)
    have rest: "list_all (\<lambda>x. res x = (r x, None)) xs" using Cons.prems(2) by simp
    show ?thesis
    proof (cases "r x")
      case None
      with Cons.IH [OF kept rest, of "x # seen" d] new answer show ?thesis by simp
    next
      case (Some e)
      with Cons.IH [OF kept rest, of "x # seen" "put_down r name hid [x] d"] new answer show ?thesis
        by (cases hid) (simp_all add: put_down_def refused_row_def)
    qed
  qed
qed (auto simp: put_down_def)

definition rows_of :: "(string \<Rightarrow> string option) \<Rightarrow> (string \<Rightarrow> desk_manifest) \<Rightarrow> string list \<Rightarrow> desk_app list" where
  "rows_of r ms names = concat (map (\<lambda>n. map (refused_row r n) (refused_apps r (ms n))) (filter (\<lambda>n. \<not> ds_private (ms n)) names))"

definition count_of :: "(string \<Rightarrow> string option) \<Rightarrow> (string \<Rightarrow> desk_manifest) \<Rightarrow> string list \<Rightarrow> nat" where
  "count_of r ms names = sum_list (map (\<lambda>n. length (refused_apps r (ms n))) (filter (\<lambda>n. ds_private (ms n)) names))"

lemma probe_names_answered:
  assumes "kept_answers r ans" "list_all (\<lambda>n. list_all (\<lambda>x. res (ap_app x) = (r (ap_app x), None)) (ds_apps (ms n))) names"
  shows "probe_names res anyone ms names ans d =
    Inr (d\<lparr>dk_Unrunnable := dk_Unrunnable d @ rows_of r ms names, dk_Hidden := dk_Hidden d + count_of r ms names\<rparr>)"
  using assms
proof (induction names arbitrary: ans d)
  case (Cons n names)
  have "list_all (\<lambda>x. res x = (r x, None)) (map ap_app (ds_apps (ms n)))" using Cons.prems(2) by (simp add: list.pred_map comp_def)
  from probe_apps_answered [OF Cons.prems(1) this, of n "ds_private (ms n)" "[]" d]
  obtain ans' where "kept_answers r ans'"
    and "probe_apps res anyone n (ds_private (ms n)) (map ap_app (ds_apps (ms n))) [] ans d
      = Inr (ans', put_down r n (ds_private (ms n)) (refused_apps r (ms n)) d)"
    unfolding refused_apps_def by blast
  moreover have "list_all (\<lambda>n. list_all (\<lambda>x. res (ap_app x) = (r (ap_app x), None)) (ds_apps (ms n))) names" using Cons.prems(2) by simp
  ultimately show ?case
    using Cons.IH [of ans' "put_down r n (ds_private (ms n)) (refused_apps r (ms n)) d"]
    by (simp add: rows_of_def count_of_def put_down_def)
qed (simp add: rows_of_def count_of_def)

text \<open>
  The public part: the manifests that are not private, in the order the report takes them, what \<open>zcr\<close>
  says of the apps they name, and of the unreadable manifests and of what holds the session awake only
  that they are there. Beside it two numbers, of the private desks and of their apps that cannot start.
\<close>

definition public_desks :: "(string \<times> desk_manifest) list \<Rightarrow> (string \<times> desk_manifest) list" where
  "public_desks ms = map (\<lambda>n. (n, the (map_of ms n)))
     (filter (\<lambda>n. \<not> ds_private (the (map_of ms n))) (sort_strings (map fst ms)))"

definition named_by :: "(string \<times> desk_manifest) list \<Rightarrow> string \<Rightarrow> bool" where
  "named_by ms x = list_ex (\<lambda>(n, m). x \<in> set (map ap_app (ds_apps m))) ms"

definition holds_idle :: "inhibitor \<Rightarrow> bool" where
  "holds_idle r = (ih_Mode r = ''block'' \<and> ''idle'' \<in> set (split_on (CHR '':'') (ih_What r)))"

definition public_where :: "facts \<Rightarrow> (string \<times> desk_manifest) list \<Rightarrow> string \<Rightarrow> where_answer" where
  "public_where f ms x = (if named_by ms x then fx_where f x else Has)"

definition public_facts :: "facts \<Rightarrow> facts" where
  "public_facts f = f\<lparr>
     fx_status := map_sum id (\<lambda>st. st\<lparr>dt_BadManifests := map (\<lambda>_. []) (dt_BadManifests st)\<rparr>) (fx_status f),
     fx_manifests := map_sum id public_desks (fx_manifests f),
     fx_where := public_where f (case fx_manifests f of Inl _ \<Rightarrow> [] | Inr ms \<Rightarrow> public_desks ms),
     fx_inhibitors := map_sum id (\<lambda>rows. map (\<lambda>r. \<lparr>ih_What = ''idle'', ih_Who = [], ih_Why = [], ih_Mode = ''block''\<rparr>) (filter holds_idle rows))
       (fx_inhibitors f)\<rparr>"

definition refusal :: "unicode \<Rightarrow> facts \<Rightarrow> string \<Rightarrow> string option" where
  "refusal u f x = (case asked_apps f of Inl _ \<Rightarrow> None | Inr all \<Rightarrow> fst (resolves u f (asked_resolver f) all x anyone))"

definition private_counts :: "unicode \<Rightarrow> facts \<Rightarrow> nat \<times> nat" where
  "private_counts u f =
     (case fx_manifests f of
        Inl _ \<Rightarrow> (0, 0)
      | Inr ms \<Rightarrow> (length (filter (ds_private \<circ> snd) ms),
          count_of (refusal u f) (\<lambda>n. the (map_of ms n)) (sort_strings (map fst ms))))"

definition silent_about :: "facts \<Rightarrow> string \<Rightarrow> bool" where
  "silent_about f x = (case fx_where f x of Silent _ \<Rightarrow> True | _ \<Rightarrow> False)"

text \<open>\<open>zcr\<close> has an answer for every app a manifest names.\<close>

definition all_answered :: "facts \<Rightarrow> bool" where
  "all_answered f = (case fx_manifests f of Inl _ \<Rightarrow> True
     | Inr ms \<Rightarrow> list_all (\<lambda>(n, m). list_all (\<lambda>x. \<not> silent_about f (ap_app x)) (ds_apps m)) ms)"

lemma public_facts_same [simp]:
  "fx_lookpath (public_facts f) = fx_lookpath f" "fx_apps (public_facts f) = fx_apps f"
  "fx_apps_path (public_facts f) = fx_apps_path f" "fx_desks_dir (public_facts f) = fx_desks_dir f"
  "asked_resolver (public_facts f) = asked_resolver f" "asked_apps (public_facts f) = asked_apps f"
  "unitState (public_facts f) = unitState f" "probePodman (public_facts f) = probePodman f"
  "probeLocker (public_facts f) = probeLocker f" "fx_socket (public_facts f) = fx_socket f"
  "fx_owner (public_facts f) = fx_owner f"
  by (auto simp: public_facts_def asked_resolver_def asked_apps_def unitState_def probePodman_def probeLocker_def
      pamState_def fun_eq_iff split: sum.split)

lemma public_facts_manifests [simp]: "fx_manifests (public_facts f) = map_sum id public_desks (fx_manifests f)"
  by (simp add: public_facts_def)

lemma public_facts_where: "fx_manifests f = Inr ms \<Longrightarrow> named_by (public_desks ms) x \<Longrightarrow> fx_where (public_facts f) x = fx_where f x"
  by (simp add: public_facts_def public_where_def)

lemma sort_strings_sorted_id: "sorted xs \<Longrightarrow> sort_strings xs = xs"
  using properties_for_sort [of "sort_strings xs" xs] sort_strings_sorted [of xs] by (simp add: sort_key_id_if_sorted)

lemma public_names: "sort_strings (map fst (public_desks ms)) = filter (\<lambda>n. \<not> ds_private (the (map_of ms n))) (sort_strings (map fst ms))"
proof -
  have "sorted (filter (\<lambda>n. \<not> ds_private (the (map_of ms n))) (sort_strings (map fst ms)))"
    by (rule sorted_wrt_filter [OF sort_strings_sorted])
  then show ?thesis by (simp add: public_desks_def comp_def sort_strings_sorted_id)
qed

lemma map_of_tagged: "n \<in> set xs \<Longrightarrow> map_of (map (\<lambda>n. (n, g n)) xs) n = Some (g n)"
  by (induction xs) auto

lemma resolves_answered: "\<not> silent_about f x \<Longrightarrow> resolves u f asks all x a = (fst (resolves u f asks all x a), None)"
  by (cases "fx_where f x") (simp_all add: resolves_def silent_about_def)

lemma resolves_public: "fx_where (public_facts f) x = fx_where f x \<Longrightarrow> resolves u (public_facts f) asks all x a = resolves u f asks all x a"
  by (simp add: resolves_def split: sum.split where_answer.split)

lemma looked_up: "n \<in> set (sort_strings (map fst ms)) \<Longrightarrow> (n, the (map_of ms n)) \<in> set ms"
proof -
  assume "n \<in> set (sort_strings (map fst ms))"
  then obtain m where "map_of ms n = Some m" using map_of_eq_None_iff [of ms n] by auto
  then show ?thesis by (simp add: map_of_SomeD)
qed

lemma refused_apps_cong:
  assumes "\<forall>x\<in>set (ds_apps m). r (ap_app x) = r' (ap_app x)"
  shows "map (refused_row r n) (refused_apps r m) = map (refused_row r' n) (refused_apps r' m)"
proof -
  have ag: "r x = r' x" if "x \<in> set (first_mentions [] (map ap_app (ds_apps m)))" for x
    using assms that first_mentions_subset [of "[]" "map ap_app (ds_apps m)"] by auto
  then have "refused_apps r m = refused_apps r' m" unfolding refused_apps_def by (intro filter_cong) simp_all
  moreover have "refused_row r n x = refused_row r' n x" if "x \<in> set (refused_apps r m)" for x
    using ag that by (simp add: refused_row_def refused_apps_def)
  ultimately show ?thesis by simp
qed

lemma rows_of_public:
  assumes "names' = filter (\<lambda>n. \<not> ds_private (m n)) names"
    and "\<And>n. n \<in> set names' \<Longrightarrow> m' n = m n"
    and "\<And>n x. n \<in> set names' \<Longrightarrow> x \<in> set (ds_apps (m n)) \<Longrightarrow> r' (ap_app x) = r (ap_app x)"
  shows "rows_of r' m' names' = rows_of r m names"
proof -
  have "\<not> ds_private (m' n)" if "n \<in> set names'" for n
    using that unfolding assms(2) [OF that] by (simp add: assms(1))
  then have all: "filter (\<lambda>n. \<not> ds_private (m' n)) names' = names'" by (simp add: filter_id_conv)
  have "map (refused_row r' n) (refused_apps r' (m' n)) = map (refused_row r n) (refused_apps r (m n))" if "n \<in> set names'" for n
    using assms(2) [OF that] assms(3) [OF that] refused_apps_cong [of "m n" r' r n] by simp
  then show ?thesis unfolding rows_of_def all assms(1) [symmetric] by (simp cong: map_cong)
qed

lemma all_resolved:
  assumes "all_answered f" "fx_manifests f = Inr ms" "asked_apps f = Inr all" "n \<in> set (sort_strings (map fst ms))"
    "x \<in> set (ds_apps (the (map_of ms n)))"
  shows "resolves u f (asked_resolver f) all (ap_app x) anyone = (refusal u f (ap_app x), None)"
proof -
  have "\<not> silent_about f (ap_app x)"
    using assms(1,2,5) looked_up [OF assms(4)] by (auto simp: all_answered_def list_all_iff)
  from resolves_answered [OF this] show ?thesis by (simp add: refusal_def assms(3))
qed

lemma nothing_kept [simp]: "kept_answers r []"
  by (simp add: kept_answers_def)

lemma desks_of_public:
  assumes "all_answered f"
  shows "probeDesks u f anyone =
    (let d = probeDesks u (public_facts f) anyone
     in if dk_Err d = None then d\<lparr>dk_Private := fst (private_counts u f), dk_Hidden := snd (private_counts u f)\<rparr> else d)"
proof (cases "asked_apps f")
  case (Inl e)
  then show ?thesis by (simp add: probeDesks_def Let_def no_desks_def)
next
  case apps: (Inr all)
  show ?thesis
  proof (cases "fx_manifests f")
    case (Inl e)
    then show ?thesis using apps by (simp add: probeDesks_def Let_def no_desks_def)
  next
    case ms: (Inr ms)
    let ?p = "public_facts f" and ?m = "\<lambda>n. the (map_of ms n)" and ?m' = "\<lambda>n. the (map_of (public_desks ms) n)"
    let ?names = "sort_strings (map fst ms)" and ?names' = "sort_strings (map fst (public_desks ms))"
    let ?res = "\<lambda>f x. resolves u f (asked_resolver f) all x anyone"
    have sub: "n \<in> set ?names" if "n \<in> set ?names'" for n using that unfolding public_names by simp
    have same: "?m' n = ?m n" if "n \<in> set ?names'" for n
      using that unfolding public_names by (auto simp: public_desks_def map_of_tagged)
    have asked: "?res ?p (ap_app x) = (refusal u f (ap_app x), None) \<and> refusal u ?p (ap_app x) = refusal u f (ap_app x)"
      if "n \<in> set ?names'" "x \<in> set (ds_apps (?m n))" for n x
    proof -
      have "named_by (public_desks ms) (ap_app x)"
        using that unfolding public_names by (auto simp: public_desks_def named_by_def list_ex_iff)
      from resolves_public [OF public_facts_where [OF ms this]] all_resolved [OF assms ms apps sub [OF that(1)] that(2), of u]
      show ?thesis by (simp add: refusal_def apps)
    qed
    have "probe_names (?res f) anyone ?m ?names [] d =
        Inr (d\<lparr>dk_Unrunnable := dk_Unrunnable d @ rows_of (refusal u f) ?m ?names,
               dk_Hidden := dk_Hidden d + count_of (refusal u f) ?m ?names\<rparr>)" for d
      by (rule probe_names_answered) (use all_resolved [OF assms ms apps] in \<open>auto simp: list_all_iff\<close>)
    moreover have "probe_names (?res ?p) anyone ?m' ?names' [] d =
        Inr (d\<lparr>dk_Unrunnable := dk_Unrunnable d @ rows_of (refusal u ?p) ?m' ?names',
               dk_Hidden := dk_Hidden d + count_of (refusal u ?p) ?m' ?names'\<rparr>)" for d
      by (rule probe_names_answered) (use asked same in \<open>simp_all add: list_all_iff\<close>)
    moreover have "rows_of (refusal u ?p) ?m' ?names' = rows_of (refusal u f) ?m ?names"
      by (rule rows_of_public [OF public_names same]) (use asked in auto)
    ultimately show ?thesis
      using ms apps by (simp add: probeDesks_def Let_def no_desks_def private_counts_def)
  qed
qed

lemma heldIdle_public:
  "heldIdle (map (\<lambda>r. \<lparr>ih_What = ''idle'', ih_Who = [], ih_Why = [], ih_Mode = ''block''\<rparr>) (filter holds_idle rows)) anyone
    = heldIdle rows anyone"
  by (induction rows) (simp_all add: heldIdle_def holds_idle_def)

lemma logind_of_public: "probeLogind (public_facts f) anyone = probeLogind f anyone"
proof -
  have "can_ask (public_facts f) = can_ask f" "displaySession (public_facts f) = displaySession f"
    "fx_bus (public_facts f) = fx_bus f" "fx_owned (public_facts f) = fx_owned f"
    by (simp_all add: can_ask_def displaySession_def public_facts_def split: sum.split)
  moreover have "(case fx_inhibitors (public_facts f) of Inl _ \<Rightarrow> [] | Inr rows \<Rightarrow> heldIdle rows anyone) =
      (case fx_inhibitors f of Inl _ \<Rightarrow> [] | Inr rows \<Rightarrow> heldIdle rows anyone)"
    by (cases "fx_inhibitors f") (simp_all add: public_facts_def heldIdle_public)
  moreover have "(case fx_inhibitors (public_facts f) of Inl e \<Rightarrow> Some e | Inr _ \<Rightarrow> None) = (case fx_inhibitors f of Inl e \<Rightarrow> Some e | Inr _ \<Rightarrow> None)"
    by (cases "fx_inhibitors f") (simp_all add: public_facts_def)
  ultimately show ?thesis by (simp only: probeLogind_def)
qed

text \<open>The readings for anyone are those of the public part, but for the two numbers.\<close>

lemma gather_of_public:
  assumes "all_answered f"
  shows "gather u anyone f =
    (let s = gather u anyone (public_facts f); d = ss_Desks s
     in s\<lparr>ss_Desks := (if dk_Err d = None
          then d\<lparr>dk_Private := fst (private_counts u f), dk_Hidden := snd (private_counts u f)\<rparr> else d)\<rparr>)"
proof -
  have status: "fx_status (public_facts f) = map_sum id (\<lambda>st. st\<lparr>dt_BadManifests := map (\<lambda>_. []) (dt_BadManifests st)\<rparr>) (fx_status f)"
    by (simp add: public_facts_def)
  show ?thesis
    unfolding gather_def Let_def desks_of_public [OF assms] logind_of_public public_facts_same status
    by (cases "fx_socket f"; cases "fx_status f") (simp_all add: hideManifests_def)
qed

text \<open>C9: 
  Nothing private leaves the machine. Two machines whose public parts are the same, whatever their private
  desks are called and name, whatever \<open>zcr\<close> says of the apps only those name, whatever the unreadable
  manifests are called, and whatever the holders of an idle lock call themselves and give as their reasons,
  write the same section into the file that is meant for others; as long as they have as many private desks
  and as many of their apps that cannot start, and \<open>zcr\<close> answered.
\<close>

theorem nothing_private_leaves:
  assumes "all_answered f" "all_answered g"
    and "public_facts f = public_facts g" "private_counts u f = private_counts u g"
  shows "writeDoctor u (gather u anyone f) = writeDoctor u (gather u anyone g)"
  unfolding gather_of_public [OF assms(1)] gather_of_public [OF assms(2)] assms(3,4) ..

text \<open>A machine with the desk \<open>work\<close> and a private one, each naming an app that \<open>zcr\<close> refuses, and with one inhibitor.\<close>

definition one_app_desk :: "string \<Rightarrow> bool \<Rightarrow> string \<Rightarrow> desk_manifest" where
  "one_app_desk name hid x =
     \<lparr>ds_name = name, ds_private = hid, ds_monitors = [],
      ds_apps = [\<lparr>ap_app = x, ap_instance = [], ap_app_id = [], ap_mounts = [], ap_monitor = [], ap_workspace = [], ap_background = []\<rparr>],
      ds_policies = \<lparr>pl_attn = [], pl_zen = False\<rparr>, ds_on_enter = [], ds_on_exit = []\<rparr>"

definition machine_with :: "string \<Rightarrow> string \<Rightarrow> string \<Rightarrow> facts" where
  "machine_with hidden x who =
     \<lparr>fx_socket = Inr ''/run/zde'',
      fx_status = Inr \<lparr>dt_Version = ''1'', dt_Compositor = ''connected'', dt_Shell = True, dt_Notifications = True, dt_Zinc = True,
        dt_BadManifests = [hidden], dt_Skipped = 0\<rparr>,
      fx_owner = Inr [], fx_systemctl = (\<lambda>_. (''active'', None)), fx_podman = (''true'', None), fx_apps_path = [], fx_apps = Inr [],
      fx_lookpath = (\<lambda>_. None), fx_exists = (\<lambda>_. True), fx_desks_dir = ''/d'',
      fx_manifests = Inr [(hidden, one_app_desk hidden True x), (''work'', one_app_desk ''work'' False ''editor'')],
      fx_where = (\<lambda>y. Refuses (''no app '' @ y)), fx_bus = None, fx_owned = Inr True, fx_can = (\<lambda>_. Inr ''yes''),
      fx_user = Inr ''/u'', fx_display = (\<lambda>_. Inr ''2''),
      fx_inhibitors = Inr [\<lparr>ih_What = ''idle'', ih_Who = who, ih_Why = [], ih_Mode = ''block''\<rparr>]\<rparr>"

lemma machine_public:
  assumes "hidden \<noteq> ''work''"
  shows "public_desks [(hidden, one_app_desk hidden True x), (''work'', one_app_desk ''work'' False ''editor'')]
      = [(''work'', one_app_desk ''work'' False ''editor'')]"
    "private_counts u (machine_with hidden x who) = (1, 1)" "all_answered (machine_with hidden x who)"
proof -
  have two: "sort_strings [hidden, ''work''] = (if hidden < ''work'' then [hidden, ''work''] else [''work'', hidden])"
    using assms by (auto simp: sort_strings_def sort_by_def)
  show "public_desks [(hidden, one_app_desk hidden True x), (''work'', one_app_desk ''work'' False ''editor'')]
      = [(''work'', one_app_desk ''work'' False ''editor'')]"
    using assms by (simp add: public_desks_def two one_app_desk_def)
  show "private_counts u (machine_with hidden x who) = (1, 1)"
    using assms by (simp add: private_counts_def machine_with_def two count_of_def one_app_desk_def refused_apps_def refusal_def
        asked_apps_def asked_resolver_def byZcr_def byApps_def resolves_def)
  show "all_answered (machine_with hidden x who)"
    by (simp add: all_answered_def machine_with_def one_app_desk_def silent_about_def)
qed

lemma nothing_private_leaves_witness:
  "writeDoctor ascii_unicode (gather ascii_unicode anyone (machine_with ''bank'' ''vault'' ''rsync /home''))
   = writeDoctor ascii_unicode (gather ascii_unicode anyone (machine_with ''zoo'' ''diary'' []))
   \<and> machine_with ''bank'' ''vault'' ''rsync /home'' \<noteq> machine_with ''zoo'' ''diary'' []"
proof -
  have "public_facts (machine_with ''bank'' ''vault'' ''rsync /home'') = public_facts (machine_with ''zoo'' ''diary'' [])"
    using machine_public(1) [of "''bank''" "''vault''"] machine_public(1) [of "''zoo''" "''diary''"]
    by (simp add: public_facts_def machine_with_def holds_idle_def public_where_def fun_eq_iff)
  then show ?thesis
    using nothing_private_leaves [of "machine_with ''bank'' ''vault'' ''rsync /home''" "machine_with ''zoo'' ''diary'' []" ascii_unicode]
      machine_public [of "''bank''"] machine_public [of "''zoo''"]
    by (simp add: machine_with_def)
qed

end
