(* ===== verification/Spec2Isabelle.thy ===== *)
theory Spec2Isabelle
  imports Desk_Adopt Journal Attn_Snapshot Attn_Server Manifest Clip Zded_Decoy Bt_Client Keymap Zded_Conns Zded_Ask
  Doctor_Gather
begin

text \<open>
  A model of zde, a desktop environment daemon for the niri compositor. The daemon (\<open>internal/zded\<close>)
  keeps desks, which are sets of named workspaces across screens; it is the session's notification server,
  its clipboard history and its pairing agent, and answers the requests of the surfaces and the command line
  on one socket. niri keeps the windows and the workspaces and is asked over its own socket; what must
  survive a restart is in a journal and a snapshot.

  The theories, and the sources they translate (under \<open>src/\<close>):

  \<^item> \<open>Prelude\<close>: shared lemmas on lists, association lists, splitting, numbers in decimal; sorting by a comparison
    (the locales \<open>comparator\<close> and \<open>total_comparator\<close>); the collections \<open>go_simps\<close> and \<open>go_intros\<close>. \<open>Runes\<close>: UTF-8 as
    Go decodes and encodes it. \<open>Go_Text\<close>: the functions of \<open>strings\<close> and \<open>strconv\<close> the rest uses. \<open>Ops\<close>: handlers as
    programs of the library's state monad, early returns, loops, and the rules (\<open>keeping\<close>) that carry an
    assertion through a handler.
  \<^item> \<open>Desk_Name\<close> (\<open>internal/desk/name.go\<close>, \<open>label.go\<close>), \<open>Desk_Moves\<close> (\<open>grantMoves\<close> of \<open>map.go\<close>), \<open>Desk_Map\<close>
    (\<open>map.go\<close>), \<open>Desk_Plan\<close> (\<open>rotate.go\<close>, \<open>scroll.go\<close>, \<open>switch.go\<close>, \<open>move.go\<close>), \<open>Desk_Adopt\<close> (\<open>adopt.go\<close>): the names of
    workspaces, the map rebuilt from what niri shows, which renames are granted and in what order, and the plans for a
    switch, a move and an adoption.
  \<^item> \<open>Journal\<close> (\<open>internal/journal/journal.go\<close>): the state, its entries, replay, compaction, and the queue with its bounds.
  \<^item> \<open>Attn_Text\<close>, \<open>Attn_History\<close>, \<open>Attn_Server\<close>, \<open>Attn_Snapshot\<close> (\<open>internal/attn/mode.go\<close>, \<open>notify.go\<close>,
    \<open>history.go\<close>, \<open>snapshot.go\<close>): the filter for foreign text, the rings of what arrived, the notification server and
    its tables of names, the file the rings are kept in.
  \<^item> \<open>Plainfile\<close> (\<open>internal/plainfile\<close>), \<open>Manifest\<close> (\<open>internal/manifest\<close>), \<open>Apps\<close> (\<open>internal/apps\<close>): which
    files are read at all, desk manifests and their check, the programs a machine names.
  \<^item> \<open>Clip\<close> (\<open>internal/clip/clip.go\<close>, \<open>internal/zded/clip_capture.go\<close>, \<open>clip_put.go\<close>): the clipboard ring over an
    explicit store of buffers.
  \<^item> \<open>Niri\<close> (\<open>internal/niri/client.go\<close>, \<open>cmd/zded/compositor.go\<close>, \<open>compositor_actions.go\<close>): the compositor's client.
  \<^item> \<open>Zded\<close> (\<open>internal/zded/server.go\<close> and the helpers every handler uses), \<open>Zded_Attn\<close> (\<open>arrivals.go\<close>,
    \<open>attn.go\<close>, \<open>queue.go\<close>, \<open>attn_popups.go\<close>, \<open>attn_surfaces.go\<close>, \<open>history.go\<close>), \<open>Zded_Rules\<close> (\<open>rules.go\<close>), \<open>Zded_Desk\<close>
    (the \<open>desk_*.go\<close> files, \<open>jump.go\<close>, \<open>zen.go\<close>, \<open>launch.go\<close>), \<open>Zded_Panic\<close> (\<open>panic.go\<close>, the dispatch of the
    requests): the handlers. \<open>Zded_Arrivals\<close>, \<open>Zded_Loan\<close>, \<open>Zded_Trace\<close>, \<open>Zded_Decoy\<close> hold what is proved of them.
  \<^item> \<open>Zded_Conns\<close> (\<open>connections.go\<close>, \<open>listeners.go\<close>, the claims of \<open>ask_request.go\<close>) and \<open>Zded_Ask\<close> (\<open>ask_*.go\<close>): who is
    connected, and asking a language tier.
  \<^item> \<open>Bt\<close>, \<open>Bt_Agent\<close>, \<open>Bt_Client\<close> (\<open>internal/bt/bt.go\<close>, \<open>agent.go\<close>, \<open>bluez.go\<close>): the devices, the questions of a
    pairing, the verbs.
  \<^item> \<open>Keymap_Registry\<close>, \<open>Keymap\<close> (\<open>internal/keymap\<close>): the actions, the chords, the generated texts, the palette.
  \<^item> \<open>Doctor\<close>, \<open>Doctor_Gather\<close> (\<open>internal/doctor/doctor.go\<close>, \<open>gather.go\<close>, \<open>writeDoctor\<close> of \<open>report.go\<close>): the report on a session
    that is unwell, what it may say to whom, and how its rows are printed.

  How the code is translated. A struct is a record and its fields keep their names after a prefix; an enumeration is
  a datatype or, where the code compares strings, a string; an \<open>int\<close> is an \<open>int\<close> or a \<open>nat\<close> where it is a length,
  and a word where the code relies on its width (counters are 64-bit words and the lemmas about them say how many may be counted). A Go map is
  an association list where its order or its size matters and a function with the zero value where it is only read;
  iteration over one is in an order nothing is assumed of. Strings are byte strings. An error is a value, and where only its text
  differs the text is left out. What the code asks of the world (niri, the disk, the clock, the bus, a program) is a
  program on a state \<open>'w\<close> given in a record: \<open>outside\<close>, \<open>niri\<close>, \<open>bluez\<close>; the theorems hold for all of them, and a claim
  about what was done uses a world that records what it was told (\<open>recording\<close>, \<open>watched\<close>). Goroutines are steps: of the relations \<open>hist_step\<close>,
  \<open>clip_step\<close>, \<open>bus_step\<close>, \<open>bt_step\<close>, \<open>conn_step\<close>, or an entry of a list that a later step takes up (\<open>dm_starting\<close>, \<open>cl_jobs\<close>).

  The lemmas. Of each component: an invariant and that every operation keeps it (\<open>hist_ok\<close>, the journal's shares, the
  clipboard's store, \<open>daemon_ok\<close>, \<open>bt_ok\<close>, \<open>conns_ok\<close>); what each operation answers and leaves, refusals included; and round
  trips (names, the journal through a restart and through compaction, the snapshot, manifests, KDL strings,
  chords, the cheatsheet, an asked conversation). The journal refines an abstract log (the locale \<open>append_log\<close>,
  interpreted as \<open>jlog\<close>); the daemon is what the notification server sends to (the locale \<open>sink\<close>, interpreted as
  \<open>dm\<close>); each comparison of a sort is an interpretation of \<open>comparator\<close> (\<open>by_less\<close>, \<open>by_earlier\<close>, \<open>by_foreign\<close>, \<open>by_band\<close>,
  \<open>by_seq\<close>, \<open>by_string\<close>, \<open>by_device\<close>, \<open>by_action\<close>). Handlers of the daemon are verified by what they tell niri (\<open>told\<close>).

  Taken from documentation. \<open>sort.Slice\<close> is taken to be stable (\<open>SliceStable\<close> is); the tables of Unicode are a parameter
  \<open>u\<close> with what Go promises of them in \<open>unicode_ok\<close>; the YAML and JSON decoders are parameters; a file is its
  lines and an unterminated rest, and an append ends in one of the outcomes of \<open>Journal.outcome\<close>; a D-Bus
  variant is what \<open>Store\<close> makes of it for the types asked for.

  Termination. Every loop is a recursion on its list or has its own measure (\<open>grantMoves\<close>, the suffixes of a name, the
  eviction of rings, decoding); no fuel is used. The suffix loops run to the bound of the length of a name, which the lemmas show is
  where the code stops too.

  Not modelled. The command line (\<open>cmd/zde\<close>), starting and stopping the daemon, sockets, deadlines and the framing of lines
  (\<open>socket*.go\<close>, \<open>sink*.go\<close>): they carry requests to the handlers and print the answers. NetworkManager, logind, PulseAudio and
  wl-clipboard (\<open>internal/link\<close>, \<open>internal/power\<close>, \<open>audio.go\<close>, \<open>internal/clip/wl.go\<close>): conversations with services that are not here to be read.
  The hardware half of the report (\<open>internal/doctor/machine.go\<close>): it reads files of the kernel. Locks: an operation that holds
  one for its whole body is one step, and where the code gives it up between, the model has two. Logging; the permissions of files the daemon
  writes; the shell (QML), the Nix modules and vendored libraries, which are other languages or other people's code.
\<close>

end
